(* ===== verification/Prelude.thy ===== *)
theory Prelude
  imports Main "HOL-Library.Word"
begin

text \<open>
  Shared vocabulary of the development: the machine integers of the Rust sources as
  words, byte strings, Rust's slice and vector operations on lists (with the out-of-range
  cases written out), and the interface of a self-delimiting byte codec that the storage
  and protocol layers rely on.
\<close>

section \<open>Types\<close>

type_synonym u8 = "8 word"
type_synonym u16 = "16 word"
type_synonym u32 = "32 word"
type_synonym u64 = "64 word"
type_synonym bytes = "u8 list"

unbundle bit_operations_syntax

text \<open>The bytes of an ASCII literal of the sources, \<^verbatim>\<open>b"..."\<close> or \<^verbatim>\<open>"..."\<close>.\<close>

definition lit :: "string \<Rightarrow> bytes" where
  "lit s = map of_char s"

lemma lit_Nil [simp]: "lit [] = []"
  by (simp add: lit_def)

lemma lit_Cons [simp]: "lit (c # s) = of_char c # lit s"
  by (simp add: lit_def)

text \<open>The decimal digits of a number, as Rust prints it.\<close>

fun fmt_digits :: "nat \<Rightarrow> bytes" where
  "fmt_digits n = (if n < 10 then [0x30 + of_nat n] else fmt_digits (n div 10) @ [0x30 + of_nat (n mod 10)])"

declare fmt_digits.simps [simp del]

text \<open>Rust's \<^verbatim>\<open>?\<close>: the first error ends the function.\<close>

definition sbind :: "'e + 'a \<Rightarrow> ('a \<Rightarrow> 'e + 'b) \<Rightarrow> 'e + 'b" where
  "sbind r f = (case r of Inl e \<Rightarrow> Inl e | Inr a \<Rightarrow> f a)"

lemma sbind_simps [simp]: "sbind (Inl e) f = Inl e" "sbind (Inr a) f = f a"
  by (simp_all add: sbind_def)

section \<open>Words\<close>

lemma and_0x7f: "(v::'a::len word) AND 0x7f = take_bit 7 v"
  by (simp add: take_bit_eq_mask mask_eq_exp_minus_1)

lemma and_0x80: "(b::u8) AND 0x80 = 0 \<longleftrightarrow> \<not> bit b 7"
proof -
  have "(0x80::u8) = 2 ^ 7" by simp
  then show ?thesis by (simp only: and_exp_eq_0_iff_not_bit)
qed

lemma unat_of_nat_less: "n < 2 ^ LENGTH('a) \<Longrightarrow> unat (of_nat n :: 'a::len word) = n"
  by (simp add: unsigned_of_nat take_bit_nat_eq_self)

lemma unat_drop_bit: "unat (drop_bit k v) = unat v div 2 ^ k" for v :: "'a::len word"
  by (simp add: unat_drop_bit_eq drop_bit_eq_div [where 'a = nat])

text \<open>A word is its low seven bits and the rest, at any position.\<close>

lemma word_split_7:
  fixes v :: "'a::len word"
  shows "push_bit s v = push_bit s (v AND 0x7f) OR push_bit (s + 7) (drop_bit 7 v)"
  unfolding and_0x7f
proof (rule bit_word_eqI)
  fix n assume "n < LENGTH('a)"
  then show "bit (push_bit s v) n
      = bit (push_bit s (take_bit 7 v) OR push_bit (s + 7) (drop_bit 7 v)) n"
    by (cases "s + 7 \<le> n") (auto simp: bit_simps)
qed

lemma low_byte_7:
  fixes v :: "'a::len word"
  assumes "8 \<le> LENGTH('a)"
  shows "ucast ((ucast ((v AND 0x7f) OR 0x80) :: u8) AND 0x7f) = v AND 0x7f"
proof -
  have e: "(0x80::'a word) = 2 ^ 7" by simp
  show ?thesis unfolding and_0x7f e
    by (rule bit_word_eqI) (use assms in \<open>auto simp: bit_simps simp del: power_numeral\<close>)
qed

lemma low_byte_continues:
  fixes v :: "'a::len word"
  assumes "8 \<le> LENGTH('a)"
  shows "(ucast ((v AND 0x7f) OR 0x80) :: u8) AND 0x80 \<noteq> 0"
proof -
  have e: "(0x80::'a word) = 2 ^ 7" by simp
  have "bit (ucast ((v AND 0x7f) OR 2 ^ 7) :: u8) 7"
    using assms by (simp add: bit_simps del: power_numeral)
  then show ?thesis by (simp only: and_0x80 e not_not)
qed

lemma low_byte_last:
  fixes v :: "'a::len word"
  assumes "unat v < 0x80"
  shows "(ucast v :: u8) AND 0x80 = 0" and "ucast (ucast v :: u8) = v"
proof -
  have "unat (take_bit 7 v) = unat v"
    using assms by (simp add: unsigned_take_bit_eq take_bit_eq_mod [where 'a = nat])
  then have "take_bit 7 v = v"
    by (rule unsigned_word_eqI)
  then obtain w where v: "v = take_bit 7 w"
    by metis
  show "(ucast v :: u8) AND 0x80 = 0"
    by (simp add: v and_0x80 bit_simps)
  show "ucast (ucast v :: u8) = v"
    unfolding v by (rule bit_word_eqI) (auto simp: bit_simps)
qed

section \<open>Interfaces of byte codecs\<close>

text \<open>
  \<open>read_many nxt n bs\<close> is the loop \<^verbatim>\<open>for _ in 0..n { list.push(nxt(&mut bytes)?) }\<close>:
  it stops at the first item that cannot be read, with the iterator where that item left it.
\<close>

fun read_many :: "(bytes \<Rightarrow> 'v option \<times> bytes) \<Rightarrow> nat \<Rightarrow> bytes \<Rightarrow> 'v list option \<times> bytes" where
  "read_many nxt 0 bs = (Some [], bs)"
| "read_many nxt (Suc n) bs =
     (case nxt bs of
        (None, bs') \<Rightarrow> (None, bs')
      | (Some v, bs') \<Rightarrow>
          (case read_many nxt n bs' of
             (None, bs'') \<Rightarrow> (None, bs'')
           | (Some vs, bs'') \<Rightarrow> (Some (v # vs), bs'')))"

text \<open>A self-delimiting encoding: reading an encoded value consumes exactly its bytes.\<close>

locale stream_codec =
  fixes enc :: "'v \<Rightarrow> bytes"
    and nxt :: "bytes \<Rightarrow> 'v option \<times> bytes"
  assumes nxt_enc: "nxt (enc v @ rest) = (Some v, rest)"
begin

lemma enc_append_inject:
  assumes "enc v @ rest = enc w @ rest'"
  shows "v = w \<and> rest = rest'"
proof -
  have "nxt (enc v @ rest) = nxt (enc w @ rest')" by (simp only: assms)
  then show ?thesis by (simp add: nxt_enc)
qed

lemma enc_inject: "enc v = enc w \<longleftrightarrow> v = w"
  using enc_append_inject [of v "[]" w "[]"] by auto

lemma read_many_enc:
  "read_many nxt (length vs) (concat (map enc vs) @ rest) = (Some vs, rest)"
  by (induction vs) (simp_all add: nxt_enc)

lemma concat_enc_inject:
  assumes "length vs = length ws" and "concat (map enc vs) @ rest = concat (map enc ws) @ rest'"
  shows "vs = ws \<and> rest = rest'"
proof -
  have "read_many nxt (length vs) (concat (map enc vs) @ rest)
      = read_many nxt (length ws) (concat (map enc ws) @ rest')"
    by (simp only: assms)
  then show ?thesis by (simp add: read_many_enc)
qed

end

text \<open>A byte sink in the sense of \<^verbatim>\<open>std::io::Write\<close> that never fails on a single byte.\<close>

locale byte_sink =
  fixes wr :: "'w \<Rightarrow> bytes \<Rightarrow> ('e + nat) \<times> 'w"
    and push :: "'w \<Rightarrow> u8 \<Rightarrow> 'w"
  assumes wr_one: "wr w [b] = (Inr 1, push w b)"

text \<open>
  A byte iterator with state: \<open>holds it bs\<close> says that the iterator will yield at least the
  bytes \<open>bs\<close> next, in order.
\<close>

locale byte_source =
  fixes nx :: "'it \<Rightarrow> u8 option \<times> 'it"
    and holds :: "'it \<Rightarrow> bytes \<Rightarrow> bool"
  assumes nx_holds: "holds it (b # bs) \<Longrightarrow> \<exists>it'. nx it = (Some b, it') \<and> holds it' bs"

end
