(* ===== verification/VecMap.thy ===== *)
theory VecMap
  imports Prelude
begin

text \<open>
  The map of crates/utils/src/map/vec_map.rs: a vector of keys and a vector of values of the
  same length. A method that hands out \<^verbatim>\<open>&mut V\<close> takes the update its caller makes as an
  argument. \<^verbatim>\<open>append\<close> and the conversion from an iterator do not look for the key, so a map
  built with them may hold a key twice; its first occurrence counts.
\<close>

section \<open>Operations\<close>

record ('k, 'v) vec_map =
  vm_k :: "'k list"
  vm_v :: "'v list"

definition vm_new :: "('k, 'v) vec_map" where
  "vm_new = \<lparr> vm_k = [], vm_v = [] \<rparr>"

fun position :: "('a \<Rightarrow> bool) \<Rightarrow> 'a list \<Rightarrow> nat option" where
  "position P [] = None"
| "position P (x # xs) = (if P x then Some 0 else map_option Suc (position P xs))"

text \<open>\<^verbatim>\<open>Vec::swap_remove\<close>: the removed item and the vector with the last one in its place.\<close>

definition vec_swap_remove :: "'a list \<Rightarrow> nat \<Rightarrow> 'a \<times> 'a list" where
  "vec_swap_remove xs i = (xs ! i, butlast (xs[i := last xs]))"

definition vm_set :: "('k, 'v) vec_map \<Rightarrow> 'k \<Rightarrow> 'v \<Rightarrow> bool \<times> ('k, 'v) vec_map" where
  "vm_set m key value =
     (case position (\<lambda>k. k = key) (vm_k m) of
        Some pos \<Rightarrow> (False, m\<lparr>vm_v := (vm_v m)[pos := value]\<rparr>)
      | None \<Rightarrow> (True, \<lparr> vm_k = vm_k m @ [key], vm_v = vm_v m @ [value] \<rparr>))"

definition vm_append :: "('k, 'v) vec_map \<Rightarrow> 'k \<Rightarrow> 'v \<Rightarrow> ('k, 'v) vec_map" where
  "vm_append m key value = \<lparr> vm_k = vm_k m @ [key], vm_v = vm_v m @ [value] \<rparr>"

definition vm_get :: "('k, 'v) vec_map \<Rightarrow> 'k \<Rightarrow> 'v option" where
  "vm_get m key = map_option (\<lambda>pos. vm_v m ! pos) (position (\<lambda>k. k = key) (vm_k m))"

definition vm_get_mut :: "('k, 'v) vec_map \<Rightarrow> 'k \<Rightarrow> ('v \<Rightarrow> 'v) \<Rightarrow> ('k, 'v) vec_map" where
  "vm_get_mut m key f =
     (case position (\<lambda>k. k = key) (vm_k m) of
        Some pos \<Rightarrow> m\<lparr>vm_v := (vm_v m)[pos := f (vm_v m ! pos)]\<rparr>
      | None \<Rightarrow> m)"

definition vm_contains_key :: "('k, 'v) vec_map \<Rightarrow> 'k \<Rightarrow> bool" where
  "vm_contains_key m key \<longleftrightarrow> key \<in> set (vm_k m)"

definition vm_remove_entry :: "('k, 'v) vec_map \<Rightarrow> 'k \<Rightarrow> ('k \<times> 'v) option \<times> ('k, 'v) vec_map" where
  "vm_remove_entry m key =
     (case position (\<lambda>k. k = key) (vm_k m) of
        Some pos \<Rightarrow>
          (let (k, ks) = vec_swap_remove (vm_k m) pos; (v, vs) = vec_swap_remove (vm_v m) pos in
           (Some (k, v), \<lparr> vm_k = ks, vm_v = vs \<rparr>))
      | None \<Rightarrow> (None, m))"

definition vm_remove :: "('k, 'v) vec_map \<Rightarrow> 'k \<Rightarrow> 'v option \<times> ('k, 'v) vec_map" where
  "vm_remove m key =
     (case position (\<lambda>k. k = key) (vm_k m) of
        Some pos \<Rightarrow>
          (let (_, ks) = vec_swap_remove (vm_k m) pos; (v, vs) = vec_swap_remove (vm_v m) pos in
           (Some v, \<lparr> vm_k = ks, vm_v = vs \<rparr>))
      | None \<Rightarrow> (None, m))"

definition vm_is_empty :: "('k, 'v) vec_map \<Rightarrow> bool" where
  "vm_is_empty m \<longleftrightarrow> vm_k m = []"

definition vm_len :: "('k, 'v) vec_map \<Rightarrow> nat" where
  "vm_len m = length (vm_k m)"

definition vm_iter :: "('k, 'v) vec_map \<Rightarrow> ('k \<times> 'v) list" where
  "vm_iter m = zip (vm_k m) (vm_v m)"

definition vm_get_mut_or_insert_with ::
  "('k, 'v) vec_map \<Rightarrow> 'k \<Rightarrow> 'v \<Rightarrow> ('v \<Rightarrow> 'v) \<Rightarrow> ('k, 'v) vec_map" where
  "vm_get_mut_or_insert_with m key value f =
     (case position (\<lambda>k. k = key) (vm_k m) of
        Some pos \<Rightarrow> m\<lparr>vm_v := (vm_v m)[pos := f (vm_v m ! pos)]\<rparr>
      | None \<Rightarrow> \<lparr> vm_k = vm_k m @ [key], vm_v = vm_v m @ [f value] \<rparr>)"

definition vm_from_iter :: "('k \<times> 'v) list \<Rightarrow> ('k, 'v) vec_map" where
  "vm_from_iter kvs = foldl (\<lambda>m (k, v). vm_append m k v) vm_new kvs"

section \<open>The vectors as a map\<close>

definition vm_inv :: "('k, 'v) vec_map \<Rightarrow> bool" where
  "vm_inv m \<longleftrightarrow> length (vm_k m) = length (vm_v m) \<and> distinct (vm_k m)"

lemma position_None: "position P xs = None \<longleftrightarrow> (\<forall>x\<in>set xs. \<not> P x)"
  by (induction xs) auto

lemma position_Some:
  "position P xs = Some i \<longleftrightarrow> i < length xs \<and> P (xs ! i) \<and> (\<forall>j<i. \<not> P (xs ! j))"
proof (induction xs arbitrary: i)
  case (Cons x xs)
  then show ?case
    by (cases i) (auto simp: less_Suc_eq_0_disj)
qed simp

lemma map_of_zip_position:
  "length ks = length vs \<Longrightarrow> map_of (zip ks vs) key = map_option (\<lambda>i. vs ! i) (position (\<lambda>k. k = key) ks)"
  by (induction ks vs rule: list_induct2) (auto simp: option.map_comp comp_def)

lemma vm_get_map_of: "length (vm_k m) = length (vm_v m) \<Longrightarrow> vm_get m = map_of (vm_iter m)"
  by (rule ext) (simp add: vm_get_def vm_iter_def map_of_zip_position)

lemma map_of_zip_update:
  assumes "length ks = length vs" "distinct ks" "i < length ks"
  shows "map_of (zip ks (vs[i := v])) = (map_of (zip ks vs))(ks ! i \<mapsto> v)"
  using assms
proof (induction ks vs arbitrary: i rule: list_induct2)
  case (Cons k ks v' vs)
  then show ?case
    by (cases i) (auto simp: fun_eq_iff)
qed simp

lemma map_of_zip_snoc:
  "length ks = length vs \<Longrightarrow> key \<notin> set ks \<Longrightarrow>
     map_of (zip (ks @ [key]) (vs @ [value])) = (map_of (zip ks vs))(key \<mapsto> value)"
  by (induction ks vs rule: list_induct2) (auto simp: fun_eq_iff)

lemma swap_remove_distinct:
  assumes "distinct xs" "i < length xs"
  shows "set (snd (vec_swap_remove xs i)) = set xs - {xs ! i}" "distinct (snd (vec_swap_remove xs i))"
proof -
  from assms(2) obtain ys z where xs: "xs = ys @ [z]"
    by (cases xs rule: rev_cases) auto
  show "set (snd (vec_swap_remove xs i)) = set xs - {xs ! i}" "distinct (snd (vec_swap_remove xs i))"
    using assms unfolding xs vec_swap_remove_def
    by (cases "i = length ys",
        auto simp: list_update_append nth_append butlast_append set_update_distinct distinct_list_update)+
qed

lemma zip_swap_remove:
  "length ks = length vs \<Longrightarrow> i < length ks \<Longrightarrow>
     zip (snd (vec_swap_remove ks i)) (snd (vec_swap_remove vs i)) = snd (vec_swap_remove (zip ks vs) i)"
  by (rule nth_equalityI)
    (auto simp: vec_swap_remove_def nth_butlast nth_list_update intro!: last_zip [symmetric])

lemma map_of_swap_remove:
  assumes "length ks = length vs" "distinct ks" "i < length ks"
  shows "map_of (zip (snd (vec_swap_remove ks i)) (snd (vec_swap_remove vs i)))
    = (map_of (zip ks vs))(ks ! i := None)"
proof -
  let ?kvs = "zip ks vs" and ?kvs' = "snd (vec_swap_remove (zip ks vs) i)"
  have d: "distinct (map fst ?kvs)" "distinct ?kvs"
    using assms by (simp_all add: distinct_zipI1)
  have set: "set ?kvs' = set ?kvs - {(ks ! i, vs ! i)}"
    using swap_remove_distinct(1) [OF d(2), of i] assms by simp
  have "map fst ?kvs' = snd (vec_swap_remove ks i)"
    using assms by (subst zip_swap_remove [symmetric]) (simp_all add: vec_swap_remove_def)
  then have "distinct (map fst ?kvs')"
    using swap_remove_distinct(2) [OF assms(2,3)] by simp
  moreover have "(ks ! i, vs ! i) \<in> set ?kvs"
    using assms by (auto simp: in_set_zip)
  ultimately have "map_of ?kvs' k = Some v \<longleftrightarrow> k \<noteq> ks ! i \<and> map_of ?kvs k = Some v" for k v
    using d(1) set eq_key_imp_eq_value [OF d(1)] by (auto simp: map_of_eq_Some_iff)
  then have "map_of ?kvs' = (map_of ?kvs)(ks ! i := None)"
    by (intro ext) (metis fun_upd_apply not_Some_eq)
  then show ?thesis
    by (simp only: zip_swap_remove [OF assms(1,3)])
qed

lemma vm_inv_length: "vm_inv m \<Longrightarrow> length (vm_k m) = length (vm_v m)"
  by (simp add: vm_inv_def)

lemma vm_get_new [simp]: "vm_get vm_new = Map.empty" "vm_inv vm_new"
  by (auto simp: vm_get_def vm_new_def vm_inv_def)

lemma vm_get_None: "vm_get m key = None \<longleftrightarrow> key \<notin> set (vm_k m)"
  by (auto simp: vm_get_def position_None)

lemma vm_append_laws:
  assumes "vm_inv m" "key \<notin> set (vm_k m)"
  shows "vm_get (vm_append m key value) = (vm_get m)(key \<mapsto> value)" "vm_inv (vm_append m key value)"
  using assms
  by (auto simp: vm_get_map_of vm_append_def vm_iter_def vm_inv_def map_of_zip_snoc simp del: zip_append)

lemma vm_update_laws:
  assumes "vm_inv m" "position (\<lambda>k. k = key) (vm_k m) = Some pos"
  shows "vm_get (m\<lparr>vm_v := (vm_v m)[pos := value]\<rparr>) = (vm_get m)(key \<mapsto> value)"
    "vm_inv (m\<lparr>vm_v := (vm_v m)[pos := value]\<rparr>)" "vm_get m key = Some (vm_v m ! pos)"
  using assms
  by (auto simp: vm_get_map_of vm_iter_def vm_inv_def position_Some map_of_zip_update map_of_zip_position)

lemma vm_insert_laws:
  assumes "vm_inv m" "position (\<lambda>k. k = key) (vm_k m) = None"
  shows "vm_get \<lparr> vm_k = vm_k m @ [key], vm_v = vm_v m @ [value] \<rparr> = (vm_get m)(key \<mapsto> value)"
    "vm_inv \<lparr> vm_k = vm_k m @ [key], vm_v = vm_v m @ [value] \<rparr>" "vm_get m key = None"
proof -
  show "vm_get m key = None"
    by (simp add: vm_get_def assms(2))
  then have "key \<notin> set (vm_k m)"
    by (simp add: vm_get_None)
  then show "vm_get \<lparr> vm_k = vm_k m @ [key], vm_v = vm_v m @ [value] \<rparr> = (vm_get m)(key \<mapsto> value)"
    "vm_inv \<lparr> vm_k = vm_k m @ [key], vm_v = vm_v m @ [value] \<rparr>"
    using vm_append_laws [OF assms(1)] by (simp_all add: vm_append_def)
qed

lemma vm_set_laws:
  assumes "vm_inv m"
  shows "vm_get (snd (vm_set m key value)) = (vm_get m)(key \<mapsto> value)" "vm_inv (snd (vm_set m key value))"
    "fst (vm_set m key value) \<longleftrightarrow> vm_get m key = None"
  by (cases "position (\<lambda>k. k = key) (vm_k m)";
      simp add: vm_set_def vm_insert_laws [OF assms] vm_update_laws [OF assms])+

lemma vm_get_mut_or_insert_laws:
  assumes "vm_inv m"
  shows "vm_get (vm_get_mut_or_insert_with m key d f)
      = (vm_get m)(key \<mapsto> f (case vm_get m key of None \<Rightarrow> d | Some v \<Rightarrow> v))"
    "vm_inv (vm_get_mut_or_insert_with m key d f)"
  by (cases "position (\<lambda>k. k = key) (vm_k m)";
      simp add: vm_get_mut_or_insert_with_def vm_insert_laws [OF assms] vm_update_laws [OF assms])+

lemma vm_remove_laws:
  assumes "vm_inv m"
  shows "vm_get (snd (vm_remove m key)) = (vm_get m)(key := None)" "vm_inv (snd (vm_remove m key))"
    "fst (vm_remove m key) = vm_get m key"
proof -
  show "fst (vm_remove m key) = vm_get m key"
    by (cases "position (\<lambda>k. k = key) (vm_k m)") (simp_all add: vm_remove_def vm_get_def vec_swap_remove_def)
  have "vm_get (snd (vm_remove m key)) = (vm_get m)(key := None) \<and> vm_inv (snd (vm_remove m key))"
  proof (cases "position (\<lambda>k. k = key) (vm_k m)")
    case (Some pos)
    then have p: "pos < length (vm_k m)" "vm_k m ! pos = key" by (auto simp: position_Some)
    let ?m = "\<lparr> vm_k = snd (vec_swap_remove (vm_k m) pos), vm_v = snd (vec_swap_remove (vm_v m) pos) \<rparr>"
    have e: "snd (vm_remove m key) = ?m"
      by (simp add: vm_remove_def Some split_beta)
    have len: "length (vm_k ?m) = length (vm_v ?m)"
      using assms by (simp add: vec_swap_remove_def vm_inv_def)
    have "vm_get (snd (vm_remove m key)) = (vm_get m)(key := None)"
      using p assms map_of_swap_remove [of "vm_k m" "vm_v m" pos] unfolding e vm_get_map_of [OF len]
      by (simp add: vm_inv_def vm_iter_def vm_get_map_of)
    moreover have "vm_inv (snd (vm_remove m key))"
      using p assms len swap_remove_distinct(2) [of "vm_k m" pos] by (simp add: e vm_inv_def)
    ultimately show ?thesis ..
  next
    case None
    then have "vm_get m key = None"
      by (simp add: vm_get_def)
    with None show ?thesis
      using assms by (simp add: vm_remove_def fun_upd_idem)
  qed
  then show "vm_get (snd (vm_remove m key)) = (vm_get m)(key := None)" "vm_inv (snd (vm_remove m key))"
    by simp_all
qed

text \<open>A map read from pairs looks up the first pair of a key.\<close>

lemma vm_from_iter_aux:
  "length (vm_k m) = length (vm_v m) \<Longrightarrow>
     vm_iter (foldl (\<lambda>m (k, v). vm_append m k v) m kvs) = vm_iter m @ kvs \<and>
     length (vm_k (foldl (\<lambda>m (k, v). vm_append m k v) m kvs)) = length (vm_v (foldl (\<lambda>m (k, v). vm_append m k v) m kvs))"
  by (induction kvs arbitrary: m) (auto simp: vm_append_def vm_iter_def)

lemma vm_iter_from_iter: "vm_iter (vm_from_iter kvs) = kvs"
  and vm_get_from_iter: "vm_get (vm_from_iter kvs) = map_of kvs"
  using vm_from_iter_aux [of vm_new kvs] by (auto simp: vm_from_iter_def vm_new_def vm_iter_def vm_get_map_of)

section \<open>The interface of a map with default entries\<close>

text \<open>
  What a client of \<^verbatim>\<open>get_mut_or_insert\<close> relies on: the entry of the key, or the default, is
  updated, and the other entries stay.
\<close>

locale entry_map =
  fixes inv :: "'m \<Rightarrow> bool"
    and get :: "'m \<Rightarrow> 'k \<Rightarrow> 'v option"
    and upd :: "'m \<Rightarrow> 'k \<Rightarrow> ('v \<Rightarrow> 'v) \<Rightarrow> 'm"
    and dflt :: 'v
  assumes inv_upd: "inv m \<Longrightarrow> inv (upd m k f)"
    and get_upd: "inv m \<Longrightarrow> get (upd m k f) = (get m)(k \<mapsto> f (case get m k of None \<Rightarrow> dflt | Some v \<Rightarrow> v))"
begin

definition entry :: "'m \<Rightarrow> 'k \<Rightarrow> 'v" where
  "entry m k = (case get m k of None \<Rightarrow> dflt | Some v \<Rightarrow> v)"

lemma entry_upd: "inv m \<Longrightarrow> entry (upd m k f) k' = (if k' = k then f (entry m k) else entry m k')"
  by (simp add: entry_def get_upd)

lemma upd_upd_same: "inv m \<Longrightarrow> get (upd (upd m k f) k g) = get (upd m k (\<lambda>v. g (f v)))"
  by (simp add: get_upd inv_upd)

lemma upd_upd_commute: "inv m \<Longrightarrow> k \<noteq> k' \<Longrightarrow> get (upd (upd m k f) k' g) = get (upd (upd m k' g) k f)"
  by (simp add: get_upd inv_upd fun_upd_twist)

end

interpretation vm: entry_map vm_inv vm_get "\<lambda>m k. vm_get_mut_or_insert_with m k d" d
  by unfold_locales (simp_all add: vm_get_mut_or_insert_laws)

end
