(* ===== verification/Utf8.thy ===== *)
theory Utf8
  imports Prelude
begin

text \<open>
  The UTF-8 functions of the Rust standard library that the sources call:
  \<^verbatim>\<open>str::from_utf8\<close>, \<^verbatim>\<open>String::from_utf8_lossy\<close>, \<^verbatim>\<open>char::from_u32\<close>, \<^verbatim>\<open>char::encode_utf8\<close> and
  \<^verbatim>\<open>u32::from_str_radix\<close> in base 16.
\<close>

definition utf8_cont :: "bytes \<Rightarrow> nat \<Rightarrow> bool" where
  "utf8_cont bs i \<longleftrightarrow> i < length bs \<and> bs ! i AND 0xc0 = 0x80"

definition utf8_second :: "bytes \<Rightarrow> u8 \<Rightarrow> u8 \<Rightarrow> bool" where
  "utf8_second bs lo hi \<longleftrightarrow> 1 < length bs \<and> lo \<le> bs ! 1 \<and> bs ! 1 \<le> hi"

text \<open>
  The next chunk of a non-empty byte string: whether it is a character, and its length; an
  ill-formed chunk is the longest prefix of a character (Unicode, table 3-7).
\<close>

definition utf8_step :: "bytes \<Rightarrow> bool \<times> nat" where
  "utf8_step bs =
     (let b = hd bs in
      if b < 0x80 then (True, 1)
      else if 0xc2 \<le> b \<and> b \<le> 0xdf then
        (if utf8_cont bs 1 then (True, 2) else (False, 1))
      else if 0xe0 \<le> b \<and> b \<le> 0xef then
        (if utf8_second bs (if b = 0xe0 then 0xa0 else 0x80) (if b = 0xed then 0x9f else 0xbf)
         then (if utf8_cont bs 2 then (True, 3) else (False, 2)) else (False, 1))
      else if 0xf0 \<le> b \<and> b \<le> 0xf4 then
        (if utf8_second bs (if b = 0xf0 then 0x90 else 0x80) (if b = 0xf4 then 0x8f else 0xbf)
         then (if utf8_cont bs 2
               then (if utf8_cont bs 3 then (True, 4) else (False, 3)) else (False, 2))
         else (False, 1))
      else (False, 1))"

lemma utf8_step_pos: "0 < snd (utf8_step bs)"
  by (simp add: utf8_step_def Let_def)

function from_utf8 :: "bytes \<Rightarrow> bool" where
  "from_utf8 bs =
     (if bs = [] then True
      else if fst (utf8_step bs) then from_utf8 (drop (snd (utf8_step bs)) bs) else False)"
  by pat_completeness auto

termination from_utf8
  by (relation "measure length") (auto simp: utf8_step_pos)

function from_utf8_lossy :: "bytes \<Rightarrow> bytes" where
  "from_utf8_lossy bs =
     (if bs = [] then []
      else (if fst (utf8_step bs) then take (snd (utf8_step bs)) bs else [0xef, 0xbf, 0xbd])
        @ from_utf8_lossy (drop (snd (utf8_step bs)) bs))"
  by pat_completeness auto

termination from_utf8_lossy
  by (relation "measure length") (auto simp: utf8_step_pos)

declare from_utf8.simps [simp del] from_utf8_lossy.simps [simp del]

definition char_from_u32 :: "u32 \<Rightarrow> u32 option" where
  "char_from_u32 c = (if 0xd800 \<le> c \<and> c \<le> 0xdfff \<or> 0x10ffff < c then None else Some c)"

definition encode_utf8 :: "u32 \<Rightarrow> bytes" where
  "encode_utf8 c =
     (if c < 0x80 then [ucast c]
      else if c < 0x800 then [0xc0 OR ucast (drop_bit 6 c), 0x80 OR (ucast c AND 0x3f)]
      else if c < 0x10000 then
        [0xe0 OR ucast (drop_bit 12 c), 0x80 OR (ucast (drop_bit 6 c) AND 0x3f), 0x80 OR (ucast c AND 0x3f)]
      else
        [0xf0 OR ucast (drop_bit 18 c), 0x80 OR (ucast (drop_bit 12 c) AND 0x3f),
         0x80 OR (ucast (drop_bit 6 c) AND 0x3f), 0x80 OR (ucast c AND 0x3f)])"

definition hex_digit :: "u8 \<Rightarrow> u32 option" where
  "hex_digit b =
     (if 0x30 \<le> b \<and> b \<le> 0x39 then Some (ucast (b - 0x30))
      else if 0x61 \<le> b \<and> b \<le> 0x66 then Some (ucast (b - 0x61 + 10))
      else if 0x41 \<le> b \<and> b \<le> 0x46 then Some (ucast (b - 0x41 + 10))
      else None)"

fun hex_digits :: "bytes \<Rightarrow> u32 \<Rightarrow> u32 option" where
  "hex_digits [] n = Some n"
| "hex_digits (b # bs) n = (case hex_digit b of None \<Rightarrow> None | Some d \<Rightarrow> hex_digits bs (n * 16 + d))"

text \<open>
  \<^verbatim>\<open>u32::from_str_radix(s, 16)\<close> on the at most four bytes it is called with, where no digit
  sequence overflows: a leading plus is accepted, a sign or nothing alone is not.
\<close>

definition from_str_radix_16 :: "bytes \<Rightarrow> u32 option" where
  "from_str_radix_16 s =
     (case s of
        [] \<Rightarrow> None
      | b # bs \<Rightarrow> if b = 0x2b \<and> bs \<noteq> [] then hex_digits bs 0 else hex_digits s 0)"

section \<open>Valid strings\<close>

lemma from_utf8_Nil [simp]: "from_utf8 []"
  by (simp add: from_utf8.simps)

lemma from_utf8_ascii: "b < 0x80 \<Longrightarrow> from_utf8 (b # bs) \<longleftrightarrow> from_utf8 bs"
  by (subst from_utf8.simps) (simp add: utf8_step_def)

lemma from_utf8_lossy_valid: "from_utf8 bs \<Longrightarrow> from_utf8_lossy bs = bs"
proof (induction bs rule: from_utf8.induct)
  case (1 bs)
  show ?case
  proof (cases "bs = []")
    case False
    with 1(2) have v: "fst (utf8_step bs)" "from_utf8 (drop (snd (utf8_step bs)) bs)"
      unfolding from_utf8.simps [of bs] by (auto split: if_splits)
    then have "from_utf8_lossy (drop (snd (utf8_step bs)) bs) = drop (snd (utf8_step bs)) bs"
      using 1(1) False by blast
    with v False show ?thesis
      by (subst from_utf8_lossy.simps) simp
  qed (simp add: from_utf8_lossy.simps)
qed

end
