(* ===== verification/Bitmap.thy ===== *)
theory Bitmap
  imports Prelude
begin

text \<open>
  The 64-bit set of crates/utils/src/map/bitmap.rs. A \<^verbatim>\<open>Bitmap<T>\<close> is its u64; the
  conversions of the item type (trait \<^verbatim>\<open>BitmapItem\<close>) are arguments. Shift amounts are
  masked to six bits, as in a release build.
\<close>

section \<open>Operations\<close>

definition shl64 :: "u64 \<Rightarrow> u64 \<Rightarrow> u64" where
  "shl64 x n = push_bit (unat (n AND 63)) x"

definition leading_zeros :: "u64 \<Rightarrow> nat" where
  "leading_zeros w = length (takeWhile (\<lambda>i. \<not> bit w i) (rev [0..<64]))"

definition bitmap_new :: u64 where
  "bitmap_new = 0"

definition bitmap_all :: "u64 \<Rightarrow> u64" where
  "bitmap_all mx = drop_bit (unat (64 - mx)) (- 1)"

definition bitmap_union :: "u64 \<Rightarrow> u64 \<Rightarrow> u64" where
  "bitmap_union b items = b OR items"

definition bitmap_intersection :: "u64 \<Rightarrow> u64 \<Rightarrow> u64" where
  "bitmap_intersection b items = b AND items"

definition bitmap_insert :: "('t \<Rightarrow> u64) \<Rightarrow> u64 \<Rightarrow> 't \<Rightarrow> u64" where
  "bitmap_insert into b item = b OR shl64 1 (into item)"

definition bitmap_remove :: "('t \<Rightarrow> u64) \<Rightarrow> u64 \<Rightarrow> 't \<Rightarrow> u64" where
  "bitmap_remove into b item = b XOR shl64 1 (into item)"

definition bitmap_pop :: "(u64 \<Rightarrow> 't) \<Rightarrow> u64 \<Rightarrow> 't option \<times> u64" where
  "bitmap_pop from b =
     (if b \<noteq> 0 then
        (let item = 63 - leading_zeros b in (Some (from (of_nat item)), b XOR shl64 1 (of_nat item)))
      else (None, b))"

definition bitmap_contains :: "('t \<Rightarrow> u64) \<Rightarrow> u64 \<Rightarrow> 't \<Rightarrow> bool" where
  "bitmap_contains into b item \<longleftrightarrow> b AND shl64 1 (into item) \<noteq> 0"

fun bitmap_contains_any :: "('t \<Rightarrow> u64) \<Rightarrow> u64 \<Rightarrow> 't list \<Rightarrow> bool" where
  "bitmap_contains_any into b [] = False"
| "bitmap_contains_any into b (item # items) =
     (if b AND shl64 1 (into item) \<noteq> 0 then True else bitmap_contains_any into b items)"

definition bitmap_is_empty :: "u64 \<Rightarrow> bool" where
  "bitmap_is_empty b \<longleftrightarrow> b = 0"

text \<open>\<^verbatim>\<open>clear\<close> empties the set and returns what it held.\<close>

definition bitmap_clear :: "u64 \<Rightarrow> u64 \<times> u64" where
  "bitmap_clear b = (b, 0)"

fun bitmap_from_vec :: "('t \<Rightarrow> u64) \<Rightarrow> ('t \<Rightarrow> bool) \<Rightarrow> 't list \<Rightarrow> u64 \<Rightarrow> u64" where
  "bitmap_from_vec into is_valid [] b = b"
| "bitmap_from_vec into is_valid (v # vs) b =
     bitmap_from_vec into is_valid vs (if is_valid v then bitmap_insert into b v else b)"

section \<open>Bits\<close>

lemma bit_shl64_1: "unat n < 64 \<Longrightarrow> bit (shl64 1 n) i \<longleftrightarrow> i = unat n"
proof -
  assume n: "unat n < 64"
  have "n AND 63 = take_bit 6 n"
    by (simp add: take_bit_eq_mask mask_eq_exp_minus_1)
  moreover have "take_bit 6 n = n"
  proof (rule unsigned_word_eqI)
    show "unat (take_bit 6 n) = unat n"
      using n by (simp add: unsigned_take_bit_eq take_bit_eq_mod [where 'a = nat])
  qed
  ultimately show ?thesis
    using n by (auto simp: shl64_def bit_simps)
qed

lemma takeWhile_rev_upt:
  "\<exists>i<n. P i \<Longrightarrow> \<exists>m<n. length (takeWhile (\<lambda>i. \<not> P i) (rev [0..<n])) = n - 1 - m \<and> P m \<and>
     (\<forall>i. m < i \<and> i < n \<longrightarrow> \<not> P i)"
proof (induction n)
  case (Suc n)
  show ?case
  proof (cases "P n")
    case False
    with Suc.prems have "\<exists>i<n. P i"
      by (auto simp: less_Suc_eq)
    with Suc.IH obtain m where m: "m < n" "P m" "\<forall>i. m < i \<and> i < n \<longrightarrow> \<not> P i"
      "length (takeWhile (\<lambda>i. \<not> P i) (rev [0..<n])) = n - 1 - m"
      by blast
    with False show ?thesis
      by (intro exI [of _ m]) (auto simp: less_Suc_eq)
  qed auto
qed simp

lemma bit_u64_high: "bit (b :: u64) i \<Longrightarrow> i < 64"
  using bit_imp_le_length [of b i] by simp

lemma leading_zeros_top:
  assumes "b \<noteq> 0"
  shows "\<exists>m<64. leading_zeros b = 63 - m \<and> bit b m \<and> (\<forall>i. bit b i \<longrightarrow> i \<le> m)"
proof -
  from assms obtain i where "bit b i"
    by (metis bit_eq_iff bit_0_eq bot_apply bot_bool_def)
  then have "\<exists>i<64. bit b i"
    using bit_u64_high by blast
  from takeWhile_rev_upt [OF this] obtain m where m:
    "m < 64" "leading_zeros b = 64 - 1 - m" "bit b m" "\<forall>i. m < i \<and> i < 64 \<longrightarrow> \<not> bit b i"
    unfolding leading_zeros_def [symmetric] by blast
  have "i \<le> m" if "bit b i" for i
    using m(4) that bit_u64_high [OF that] by (meson not_le)
  with m show ?thesis
    by (intro exI [of _ m]) simp
qed

lemma unat_of_nat_64: "m < 64 \<Longrightarrow> unat (of_nat m :: u64) = m"
  by (simp add: unsigned_of_nat take_bit_nat_eq_self)

lemma bitmap_pop_top:
  assumes "b \<noteq> 0"
  shows "\<exists>m<64. bit b m \<and> (\<forall>i. bit b i \<longrightarrow> i \<le> m) \<and>
    bitmap_pop from b = (Some (from (of_nat m)), b XOR shl64 1 (of_nat m)) \<and>
    (\<forall>i. bit (b XOR shl64 1 (of_nat m)) i \<longleftrightarrow> bit b i \<and> i \<noteq> m)"
proof -
  from leading_zeros_top [OF assms] obtain m where
    m: "m < 64" "leading_zeros b = 63 - m" "bit b m" "\<forall>i. bit b i \<longrightarrow> i \<le> m"
    by blast
  have "bitmap_pop from b = (Some (from (of_nat m)), b XOR shl64 1 (of_nat m))"
    using m assms by (simp add: bitmap_pop_def)
  moreover have "bit (b XOR shl64 1 (of_nat m)) i \<longleftrightarrow> bit b i \<and> i \<noteq> m" for i
    using m by (auto simp: bit_xor_iff bit_shl64_1 unat_of_nat_64)
  ultimately show ?thesis
    using m by blast
qed

lemma bitmap_pop_0: "bitmap_pop from 0 = (None, 0)"
  by (simp add: bitmap_pop_def)

text \<open>The set of bit positions shrinks at every \<^verbatim>\<open>next\<close>, so the iteration ends.\<close>

lemma finite_bits_u64: "finite {i. bit (b :: u64) i}"
  using bit_u64_high by (auto intro: finite_subset [of _ "{..<64}"])

function bitmap_collect :: "(u64 \<Rightarrow> 't) \<Rightarrow> u64 \<Rightarrow> 't list" where
  "bitmap_collect from b =
     (case bitmap_pop from b of (None, _) \<Rightarrow> [] | (Some item, b') \<Rightarrow> item # bitmap_collect from b')"
  by pat_completeness auto

termination bitmap_collect
proof (relation "measure (\<lambda>(_, b). card {i. bit b i})")
  fix "from" :: "u64 \<Rightarrow> 't" and b :: u64 and o' b' item
  assume "(o', b') = bitmap_pop from b" "o' = Some item"
  then have e: "bitmap_pop from b = (Some item, b')" by simp
  then have "b \<noteq> 0" by (auto simp: bitmap_pop_0)
  from bitmap_pop_top [OF this, of "from"] e obtain m where "bit b m"
    "\<forall>i. bit b' i \<longleftrightarrow> bit b i \<and> i \<noteq> m"
    by auto
  then have "{i. bit b' i} \<subset> {i. bit b i}"
    by auto
  then show "((from, b'), from, b) \<in> measure (\<lambda>(_, b). card {i. bit b i})"
    by (simp add: psubset_card_mono finite_bits_u64)
qed auto

declare bitmap_collect.simps [simp del]

section \<open>The item interface\<close>

text \<open>
  What the set relies on of \<^verbatim>\<open>BitmapItem\<close>: a bound of at most 64, the conversions inverse to
  each other below the bound, and \<^verbatim>\<open>is_valid\<close> true exactly of the items below it.
\<close>

locale bitmap_item =
  fixes mx :: u64
    and into :: "'t \<Rightarrow> u64"
    and "from" :: "u64 \<Rightarrow> 't"
    and is_valid :: "'t \<Rightarrow> bool"
  assumes mx_pos: "0 < unat mx" and mx_64: "unat mx \<le> 64"
    and valid_less: "is_valid t \<Longrightarrow> unat (into t) < unat mx"
    and from_into: "is_valid t \<Longrightarrow> from (into t) = t"
    and into_from: "unat v < unat mx \<Longrightarrow> into (from v) = v"
    and valid_from: "unat v < unat mx \<Longrightarrow> is_valid (from v)"
begin

definition items :: "u64 \<Rightarrow> 't set" where
  "items b = {t. is_valid t \<and> bit b (unat (into t))}"

definition wf :: "u64 \<Rightarrow> bool" where
  "wf b \<longleftrightarrow> (\<forall>i. bit b i \<longrightarrow> i < unat mx)"

lemma valid_64: "is_valid t \<Longrightarrow> unat (into t) < 64"
  using valid_less mx_64 by fastforce

lemma into_inject: "is_valid t \<Longrightarrow> is_valid s \<Longrightarrow> unat (into t) = unat (into s) \<longleftrightarrow> t = s"
  by (metis from_into unsigned_word_eqI)

lemma items_new [simp]: "items bitmap_new = {}" "wf bitmap_new"
  by (auto simp: items_def wf_def bitmap_new_def)

lemma bit_all: "bit (bitmap_all mx) i \<longleftrightarrow> i < unat mx"
proof -
  have "unat (64 - mx) = 64 - unat mx"
    using mx_64 by (simp add: unat_sub word_le_nat_alt)
  then show ?thesis
    using mx_64 by (auto simp: bitmap_all_def bit_simps)
qed

lemma items_all: "items (bitmap_all mx) = {t. is_valid t}" "wf (bitmap_all mx)"
  by (auto simp: items_def wf_def bit_all valid_less)

lemma items_union: "items (bitmap_union b c) = items b \<union> items c"
  and items_intersection: "items (bitmap_intersection b c) = items b \<inter> items c"
  by (auto simp: items_def bitmap_union_def bitmap_intersection_def bit_simps)

lemma items_insert: "is_valid t \<Longrightarrow> items (bitmap_insert into b t) = insert t (items b)"
  by (auto simp: items_def bitmap_insert_def bit_or_iff bit_shl64_1 valid_64 into_inject)

lemma wf_insert: "is_valid t \<Longrightarrow> wf b \<Longrightarrow> wf (bitmap_insert into b t)"
  by (auto simp: wf_def bitmap_insert_def bit_or_iff bit_shl64_1 valid_64 valid_less)

text \<open>\<^verbatim>\<open>remove\<close> toggles the item: it deletes a present one and adds an absent one.\<close>

lemma items_remove:
  "is_valid t \<Longrightarrow> items (bitmap_remove into b t) = (if t \<in> items b then items b - {t} else insert t (items b))"
  by (auto simp: items_def bitmap_remove_def bit_xor_iff bit_shl64_1 valid_64 into_inject)

lemma and_shl64_1: "is_valid t \<Longrightarrow> b AND shl64 1 (into t) \<noteq> 0 \<longleftrightarrow> t \<in> items b"
proof -
  assume t: "is_valid t"
  have "b AND shl64 1 (into t) \<noteq> 0 \<longleftrightarrow> (\<exists>i. bit (b AND shl64 1 (into t)) i)"
    by (metis bit_eq_iff bit_0_eq bot_apply bot_bool_def)
  then show ?thesis
    using t by (simp add: items_def bit_and_iff bit_shl64_1 valid_64)
qed

lemma contains_items: "is_valid t \<Longrightarrow> bitmap_contains into b t \<longleftrightarrow> t \<in> items b"
  by (simp add: bitmap_contains_def and_shl64_1)

lemma contains_any_items:
  "list_all is_valid ts \<Longrightarrow> bitmap_contains_any into b ts \<longleftrightarrow> (\<exists>t\<in>set ts. t \<in> items b)"
  by (induction ts) (auto simp: and_shl64_1)

lemma is_empty_items: "wf b \<Longrightarrow> bitmap_is_empty b \<longleftrightarrow> items b = {}"
proof -
  assume b: "wf b"
  have "items b \<noteq> {}" if "b \<noteq> 0"
  proof -
    from that obtain i where i: "bit b i"
      by (metis bit_eq_iff bit_0_eq bot_apply bot_bool_def)
    then have "i < unat mx" using b by (simp add: wf_def)
    then have "from (of_nat i) \<in> items b"
      using i mx_64 by (simp add: items_def into_from valid_from unat_of_nat_64)
    then show ?thesis by blast
  qed
  then show ?thesis
    by (auto simp: bitmap_is_empty_def items_def)
qed

lemma items_from_vec:
  "items (bitmap_from_vec into is_valid ts b) = items b \<union> {t \<in> set ts. is_valid t}"
  by (induction ts arbitrary: b) (auto simp: items_insert)

lemma wf_from_vec: "wf b \<Longrightarrow> wf (bitmap_from_vec into is_valid ts b)"
  by (induction ts arbitrary: b) (auto simp: wf_insert)

text \<open>Iteration yields every item once, the largest first.\<close>

lemma pop_items:
  assumes "wf b" "b \<noteq> 0"
  shows "\<exists>t b'. bitmap_pop from b = (Some t, b') \<and> wf b' \<and> t \<in> items b \<and> items b' = items b - {t} \<and>
     (\<forall>s\<in>items b'. unat (into s) < unat (into t))"
proof -
  from bitmap_pop_top [OF assms(2), of "from"] obtain m b' where m: "m < 64" "bit b m"
    "\<forall>i. bit b i \<longrightarrow> i \<le> m" "bitmap_pop from b = (Some (from (of_nat m)), b')"
    "\<forall>i. bit b' i \<longleftrightarrow> bit b i \<and> i \<noteq> m"
    by blast
  have mm: "unat (of_nat m :: u64) = m" "m < unat mx"
    using m assms(1) by (auto simp: unat_of_nat_64 wf_def)
  have i: "into (from (of_nat m)) = of_nat m" and v: "is_valid (from (of_nat m))"
    using mm by (simp_all add: into_from valid_from)
  have e: "unat (into s) = m \<longleftrightarrow> s = from (of_nat m)" if "is_valid s" for s
    using into_inject [OF that v] i mm by simp
  have "items b' = items b - {from (of_nat m)}"
    using m(5) e by (auto simp: items_def i mm)
  moreover have "\<forall>s\<in>items b'. unat (into s) < unat (into (from (of_nat m)))"
    using m(3,5) by (auto simp: items_def i mm dest: le_neq_implies_less)
  ultimately show ?thesis
    using m assms(1) v by (auto simp: items_def wf_def i mm)
qed

lemma collect_items:
  "wf b \<Longrightarrow> set (bitmap_collect from b) = items b \<and>
     sorted_wrt (\<lambda>s t. unat (into s) > unat (into t)) (bitmap_collect from b)"
proof (induction "card {i. bit b i}" arbitrary: b rule: less_induct)
  case less
  show ?case
  proof (cases "b = 0")
    case True
    then show ?thesis
      by (simp add: bitmap_collect.simps [of "from" 0] bitmap_pop_0 items_def)
  next
    case False
    from bitmap_pop_top [OF False, of "from"] pop_items [OF less.prems False]
    obtain m t b' where m: "bit b m" "\<forall>i. bit b' i \<longleftrightarrow> bit b i \<and> i \<noteq> m"
      and t: "bitmap_pop from b = (Some t, b')" "wf b'" "t \<in> items b" "items b' = items b - {t}"
        "\<forall>s\<in>items b'. unat (into s) < unat (into t)"
      by force
    have "{i. bit b' i} \<subset> {i. bit b i}"
      using m by auto
    then have "card {i. bit b' i} < card {i. bit b i}"
      by (simp add: psubset_card_mono finite_bits_u64)
    with less.hyps t(2) have "set (bitmap_collect from b') = items b'"
      "sorted_wrt (\<lambda>s t. unat (into s) > unat (into t)) (bitmap_collect from b')"
      by blast+
    with t show ?thesis
      by (simp add: bitmap_collect.simps [of "from" b] insert_absorb)
  qed
qed

lemma items_inject:
  assumes "wf b" "wf c" "items b = items c"
  shows "b = c"
proof (rule bit_word_eqI)
  have "bit x i \<longleftrightarrow> i < unat mx \<and> from (of_nat i) \<in> items x" if "wf x" for x i
    using that mx_64 by (auto simp: items_def wf_def into_from valid_from unat_of_nat_64)
  then show "bit b i \<longleftrightarrow> bit c i" for i
    using assms by simp
qed

text \<open>The two conversions with vectors are inverse on well-formed sets.\<close>

lemma from_vec_collect:
  assumes "wf b"
  shows "bitmap_from_vec into is_valid (bitmap_collect from b) bitmap_new = b"
proof (rule items_inject)
  have "{t \<in> items b. is_valid t} = items b"
    by (auto simp: items_def)
  then show "items (bitmap_from_vec into is_valid (bitmap_collect from b) bitmap_new) = items b"
    unfolding items_from_vec conjunct1 [OF collect_items [OF assms]] by simp
  show "wf (bitmap_from_vec into is_valid (bitmap_collect from b) bitmap_new)"
    by (rule wf_from_vec) simp
qed (rule assms)

end

end
