(* ===== verification/Json.thy ===== *)
theory Json
  imports Utf8 Bitmap VecMap
begin

text \<open>
  The pull parser for JSON of crates/jmap-proto/src/parser: \<^verbatim>\<open>json.rs\<close> (the parser state and
  the tokenizer), \<^verbatim>\<open>mod.rs\<close> (tokens and errors) and \<^verbatim>\<open>impls.rs\<close> (the parsers of the basic
  types). A parser state is passed along explicitly; a result is an error or a value together
  with the state after it. An error carries the arguments of the message the code formats. A
  Rust panic is the error \<open>Panic\<close>. Floats are their 64 bits and \<^verbatim>\<open>fast_float::parse\<close>, a
  library, is a parameter.
\<close>

section \<open>State, tokens and errors\<close>

datatype method_object =
    MO_Email | MO_Mailbox | MO_Core | MO_Blob | MO_PushSubscription | MO_Thread | MO_SearchSnippet
  | MO_Identity | MO_EmailSubmission | MO_VacationResponse | MO_SieveScript | MO_Principal | MO_Quota

record parser =
  p_bytes :: bytes
  p_iter :: bytes
  p_next_ch :: "u8 option"
  p_pos :: nat
  p_pos_marker :: nat
  p_depth_array :: u32
  p_depth_dict :: u32
  p_is_eof :: bool
  p_ctx :: method_object

datatype 't token =
    Colon | Comma | DictStart | DictEnd | ArrayStart | ArrayEnd
  | Integer int | Float u64 | Boolean bool | String 't | Null

text \<open>What a message says was expected: a literal, or the display of a token.\<close>

datatype expectation = Text string | Token "unit token"

datatype json_error =
    Err_at string nat
  | Err_char u8 nat
  | Err_number bytes nat
  | Err_property "unit token" nat
  | Err_unicode bytes nat
  | Err_unterminated nat
  | Err_utf8 nat
  | Err_value bytes nat
  | Err_argument string expectation "unit token"
  | Panic
  | OutOfFuel

type_synonym 'a presult = "(json_error + 'a) \<times> parser"

definition pbind :: "'a presult \<Rightarrow> ('a \<Rightarrow> parser \<Rightarrow> 'b presult) \<Rightarrow> 'b presult" where
  "pbind r f = (case r of (Inl e, p) \<Rightarrow> (Inl e, p) | (Inr a, p) \<Rightarrow> f a p)"

lemma pbind_simps [simp]: "pbind (Inl e, p) f = (Inl e, p)" "pbind (Inr a, p) f = f a p"
  by (simp_all add: pbind_def)

lemma pbind_cong [fundef_cong]:
  "r = r' \<Longrightarrow> (\<And>a p. r' = (Inr a, p) \<Longrightarrow> f a p = f' a p) \<Longrightarrow> pbind r f = pbind r' f'"
  by (cases r'; cases "fst r'") auto

definition MAX_NESTED_LEVELS :: u32 where
  "MAX_NESTED_LEVELS = 16"

definition parser_new :: "bytes \<Rightarrow> parser" where
  "parser_new bytes = \<lparr> p_bytes = bytes, p_iter = bytes, p_next_ch = None, p_pos = 0,
     p_pos_marker = 0, p_depth_array = 0, p_depth_dict = 0, p_is_eof = False, p_ctx = MO_Core \<rparr>"

text \<open>\<^verbatim>\<open>bytes[a..b]\<close>, which panics out of range, and \<^verbatim>\<open>bytes.get(a..b).unwrap_or_default()\<close>.\<close>

definition slice_index :: "bytes \<Rightarrow> nat \<Rightarrow> nat \<Rightarrow> bytes option" where
  "slice_index bs a b = (if a \<le> b \<and> b \<le> length bs then Some (take (b - a) (drop a bs)) else None)"

definition slice_get :: "bytes \<Rightarrow> nat \<Rightarrow> nat \<Rightarrow> bytes" where
  "slice_get bs a b = (case slice_index bs a b of None \<Rightarrow> [] | Some s \<Rightarrow> s)"

section \<open>Characters and strings\<close>

definition next_char :: "parser \<Rightarrow> u8 option \<times> parser" where
  "next_char p =
     (let p = p\<lparr>p_pos := p_pos p + 1\<rparr> in
      case p_iter p of [] \<Rightarrow> (None, p) | ch # rest \<Rightarrow> (Some ch, p\<lparr>p_iter := rest\<rparr>))"

definition peek_char :: "parser \<Rightarrow> u8 option" where
  "peek_char p = (case p_iter p of [] \<Rightarrow> None | ch # _ \<Rightarrow> Some ch)"

definition error_unterminated :: "parser \<Rightarrow> json_error" where
  "error_unterminated p = Err_unterminated (p_pos p)"

definition next_unescaped :: "parser \<Rightarrow> u8 option presult" where
  "next_unescaped p =
     (case next_char p of
        (Some ch, p) \<Rightarrow>
          if ch = 0x22 then (Inr None, p\<lparr>p_is_eof := True\<rparr>)
          else if ch = 0x5c then
            (case next_char p of
               (None, p) \<Rightarrow> (Inl (error_unterminated p), p)
             | (Some ch, p) \<Rightarrow> (Inr (Some ch), p))
          else (Inr (Some ch), p)
      | (None, p) \<Rightarrow>
          if p_is_eof p then (Inr None, p) else (Inl (error_unterminated p), p))"

lemma next_char_simps:
  "p_iter p = [] \<Longrightarrow> next_char p = (None, p\<lparr>p_pos := p_pos p + 1\<rparr>)"
  "p_iter p = ch # rest \<Longrightarrow> next_char p = (Some ch, p\<lparr>p_pos := p_pos p + 1, p_iter := rest\<rparr>)"
  by (simp_all add: next_char_def Let_def)

lemma next_char_shorter:
  "next_char p = (Some ch, p') \<Longrightarrow> length (p_iter p') < length (p_iter p)"
  by (auto simp: next_char_def Let_def split: list.splits)

function skip_string_loop :: "u8 \<Rightarrow> parser \<Rightarrow> bool \<times> parser" where
  "skip_string_loop last_ch p =
     (case next_char p of
        (Some ch, p') \<Rightarrow>
          if ch = 0x22 \<and> last_ch \<noteq> 0x5c then (True, p'\<lparr>p_is_eof := True\<rparr>)
          else skip_string_loop ch p'
      | (None, p') \<Rightarrow> (False, p'))"
  by pat_completeness auto

termination skip_string_loop
  by (relation "measure (\<lambda>(_, p). length (p_iter p))") (auto dest!: next_char_shorter [OF sym])

definition skip_string :: "parser \<Rightarrow> bool \<times> parser" where
  "skip_string p = skip_string_loop 0 p"

definition error_value :: "parser \<Rightarrow> json_error \<times> parser" where
  "error_value p =
     (let (found, p) = (if p_is_eof p then (True, p) else skip_string p) in
      if found then
        ((case slice_index (p_bytes p) (p_pos_marker p) (p_pos p - 1) of
            None \<Rightarrow> Panic
          | Some s \<Rightarrow> Err_value (from_utf8_lossy s) (p_pos p)), p)
      else (error_unterminated p, p))"

abbreviation fail_value :: "parser \<Rightarrow> 'a presult" where
  "fail_value p \<equiv> (case error_value p of (e, p) \<Rightarrow> (Inl e, p))"

text \<open>
  The loop \<^verbatim>\<open>while let Some(ch) = parser.next_unescaped()? { body }\<close>: the body gives the next
  loop state (\<open>Inl\<close>) or leaves the loop with a value (\<open>Inr\<close>).
\<close>

lemma next_unescaped_shorter:
  "next_unescaped p = (Inr (Some ch), p') \<Longrightarrow> length (p_iter p') < length (p_iter p)"
  by (auto simp: next_unescaped_def next_char_def Let_def split: list.splits if_splits)

function while_unescaped :: "(u8 \<Rightarrow> 's \<Rightarrow> 's + 'b) \<Rightarrow> 's \<Rightarrow> parser \<Rightarrow> ('s + 'b) presult" where
  "while_unescaped body s p =
     (case next_unescaped p of
        (Inl e, p') \<Rightarrow> (Inl e, p')
      | (Inr None, p') \<Rightarrow> (Inr (Inl s), p')
      | (Inr (Some ch), p') \<Rightarrow>
          (case body ch s of
             Inl s' \<Rightarrow> while_unescaped body s' p'
           | Inr b \<Rightarrow> (Inr (Inr b), p')))"
  by pat_completeness auto

termination while_unescaped
  by (relation "measure (\<lambda>(_, _, p). length (p_iter p))")
    (auto dest!: next_unescaped_shorter [OF sym])

declare skip_string_loop.simps [simp del] while_unescaped.simps [simp del]

section \<open>Tokens\<close>

definition i64_saturate :: "int \<Rightarrow> int" where
  "i64_saturate n = max (- (2 ^ 63)) (min (2 ^ 63 - 1) n)"

function number_loop ::
  "u8 \<Rightarrow> int \<Rightarrow> bool \<Rightarrow> bool \<Rightarrow> parser \<Rightarrow> (int \<times> bool \<times> bool) presult" where
  "number_loop ch num is_float is_negative p =
     (let more = (\<lambda>num is_float is_negative.
            case next_char p of
              (None, p') \<Rightarrow> (Inl (error_unterminated p'), p')
            | (Some ch, p') \<Rightarrow> number_loop ch num is_float is_negative p') in
      if ch = 0x2d then more num is_float True
      else if 0x30 \<le> ch \<and> ch \<le> 0x39 then
        more (if is_float then num
              else i64_saturate (i64_saturate (num * 10) + uint (ch - 0x30))) is_float is_negative
      else if ch = 0x2c \<or> ch = 0x5d \<or> ch = 0x7d then
        (Inr (num, is_float, is_negative), p\<lparr>p_next_ch := Some ch\<rparr>)
      else if ch = 0x2b then more num is_float is_negative
      else if ch = 0x2e \<or> ch = 0x65 \<or> ch = 0x45 then more num True is_negative
      else if ch = 0x20 \<or> ch = 0x0d \<or> ch = 0x09 \<or> ch = 0x0a then
        (Inr (num, is_float, is_negative), p)
      else (Inl (Err_char ch (p_pos p)), p))"
  by pat_completeness auto

termination number_loop
  by (relation "measure (\<lambda>(_, _, _, _, p). length (p_iter p))")
    (auto dest!: next_char_shorter [OF sym])

declare number_loop.simps [simp del]

definition next_number :: "(bytes \<Rightarrow> u64 option) \<Rightarrow> u8 \<Rightarrow> parser \<Rightarrow> 't token presult" where
  "next_number parse_f64 ch p =
     (let num_start = p_pos p - 1 in
      pbind (number_loop ch 0 False False p) (\<lambda>(num, is_float, is_negative) p.
        if \<not> is_float then (Inr (Integer (if \<not> is_negative then num else - num)), p)
        else (case parse_f64 (slice_get (p_bytes p) num_start (p_pos p - 1)) of
                Some v \<Rightarrow> (Inr (Float v), p)
              | None \<Rightarrow>
                  (Inl (Err_number (from_utf8_lossy (slice_get (p_bytes p) num_start (p_pos p - 1)))
                     (p_pos p)), p))))"

text \<open>
  The literals \<^verbatim>\<open>true\<close>, \<^verbatim>\<open>false\<close> and \<^verbatim>\<open>null\<close>: as many bytes as the rest of the literal are taken
  off the iterator, and the position moves only when they match.
\<close>

definition next_literal :: "bytes \<Rightarrow> 't token \<Rightarrow> parser \<Rightarrow> 't token presult" where
  "next_literal rest t p =
     (let n = length rest; p' = p\<lparr>p_iter := drop n (p_iter p)\<rparr> in
      if take n (p_iter p) = rest then (Inr t, p'\<lparr>p_pos := p_pos p + n\<rparr>)
      else (Inl (Err_at ''Invalid JSON token'' (p_pos p)), p'))"

function next_token_loop ::
  "(bytes \<Rightarrow> u64 option) \<Rightarrow> (parser \<Rightarrow> 't presult) \<Rightarrow> u8 option \<Rightarrow> parser \<Rightarrow> 't token presult" where
  "next_token_loop parse_f64 parse None p = (Inl (Err_at ''Unexpected EOF'' (p_pos p)), p)"
| "next_token_loop parse_f64 parse (Some ch) p =
     (if ch = 0x22 then
        pbind (parse (p\<lparr>p_pos_marker := p_pos p, p_is_eof := False\<rparr>)) (\<lambda>value p.
          let (found, p) = (if p_is_eof p then (True, p) else skip_string p) in
          if found then (Inr (String value), p) else (Inl (error_unterminated p), p))
      else if ch = 0x2c then (Inr Comma, p)
      else if ch = 0x3a then (Inr Colon, p)
      else if ch = 0x5b then
        (if p_depth_array p + p_depth_dict p < MAX_NESTED_LEVELS
         then (Inr ArrayStart, p\<lparr>p_depth_array := p_depth_array p + 1\<rparr>)
         else (Inl (Err_at ''Too many nested objects'' (p_pos p)), p))
      else if ch = 0x5d then
        (if p_depth_array p \<noteq> 0 then (Inr ArrayEnd, p\<lparr>p_depth_array := p_depth_array p - 1\<rparr>)
         else (Inl (Err_at ''Unexpected array end'' (p_pos p)), p))
      else if ch = 0x7b then
        (if p_depth_array p + p_depth_dict p < MAX_NESTED_LEVELS
         then (Inr DictStart, p\<lparr>p_depth_dict := p_depth_dict p + 1\<rparr>)
         else (Inl (Err_at ''Too many nested objects'' (p_pos p)), p))
      else if ch = 0x7d then
        (if p_depth_dict p \<noteq> 0 then (Inr DictEnd, p\<lparr>p_depth_dict := p_depth_dict p - 1\<rparr>)
         else (Inl (Err_at ''Unexpected dictionary end'' (p_pos p)), p))
      else if 0x30 \<le> ch \<and> ch \<le> 0x39 \<or> ch = 0x2d \<or> ch = 0x2b then next_number parse_f64 ch p
      else if ch = 0x74 then next_literal (lit ''rue'') (Boolean True) p
      else if ch = 0x66 then next_literal (lit ''alse'') (Boolean False) p
      else if ch = 0x6e then next_literal (lit ''ull'') Null p
      else if ch = 0x20 \<or> ch = 0x09 \<or> ch = 0x0d \<or> ch = 0x0a then
        (case next_char p of (next_ch, p') \<Rightarrow> next_token_loop parse_f64 parse next_ch p')
      else (Inl (Err_char ch (p_pos p)), p))"
  by pat_completeness auto

termination next_token_loop
proof (relation "measure (\<lambda>(_, _, o', p). (case o' of None \<Rightarrow> 0 | Some _ \<Rightarrow> Suc (length (p_iter p))))")
qed (auto simp: next_char_def Let_def split: list.splits option.splits)

declare next_token_loop.simps [simp del]

definition next_token ::
  "(bytes \<Rightarrow> u64 option) \<Rightarrow> (parser \<Rightarrow> 't presult) \<Rightarrow> parser \<Rightarrow> 't token presult" where
  "next_token parse_f64 parse p =
     (case p_next_ch p of
        Some ch \<Rightarrow> next_token_loop parse_f64 parse (Some ch) (p\<lparr>p_next_ch := None\<rparr>)
      | None \<Rightarrow> (case next_char p of (next_ch, p') \<Rightarrow> next_token_loop parse_f64 parse next_ch p'))"

section \<open>Parsers of the basic types\<close>

definition u64_parse :: "parser \<Rightarrow> u64 presult" where
  "u64_parse p =
     pbind (while_unescaped (\<lambda>ch (hash, shift).
         if shift < 64 then Inl (hash OR push_bit shift (ucast ch), shift + 8) else Inr ()) (0, 0::nat) p)
       (\<lambda>r p. (Inr (case r of Inl (hash, _) \<Rightarrow> hash | Inr _ \<Rightarrow> 0), p))"

definition u128_parse :: "parser \<Rightarrow> 128 word presult" where
  "u128_parse p =
     pbind (while_unescaped (\<lambda>ch (hash, shift).
         if shift < 128 then Inl (hash OR push_bit shift (ucast ch), shift + 8) else Inr ()) (0, 0::nat) p)
       (\<lambda>r p. (Inr (case r of Inl (hash, _) \<Rightarrow> hash | Inr _ \<Rightarrow> 0), p))"

text \<open>The four hexadecimal digits after \<^verbatim>\<open>\u\<close> and the character they denote.\<close>

definition unicode_escape :: "parser \<Rightarrow> bytes presult" where
  "unicode_escape p =
     (if length (p_iter p) < 4
      then (Inl (Err_at ''Incomplete unicode sequence'' (p_pos p)), p\<lparr>p_iter := []\<rparr>)
      else
        (let code = take 4 (p_iter p); p = p\<lparr>p_iter := drop 4 (p_iter p), p_pos := p_pos p + 4\<rparr> in
         if \<not> from_utf8 code then (Inl (Err_utf8 (p_pos p)), p)
         else (case from_str_radix_16 code of
                 None \<Rightarrow> (Inl (Err_unicode code (p_pos p)), p)
               | Some c \<Rightarrow>
                   (case char_from_u32 c of
                      None \<Rightarrow> (Inl (Err_unicode code (p_pos p)), p)
                    | Some c \<Rightarrow> (Inr (encode_utf8 c), p)))))"

definition escaped_char :: "u8 \<Rightarrow> u8" where
  "escaped_char ch =
     (if ch = 0x6e then 0x0a else if ch = 0x74 then 0x09 else if ch = 0x72 then 0x0d
      else if ch = 0x62 then 0x08 else if ch = 0x66 then 0x0c else ch)"

definition string_done :: "bytes \<Rightarrow> parser \<Rightarrow> bytes presult" where
  "string_done buf p =
     (let p = p\<lparr>p_is_eof := True\<rparr> in
      if from_utf8 buf then (Inr buf, p) else (Inl (Err_utf8 (p_pos p)), p))"

lemma unicode_escape_shorter:
  "unicode_escape p = (r, q) \<Longrightarrow> length (p_iter q) \<le> length (p_iter p)"
  by (auto simp: unicode_escape_def Let_def split: if_splits option.splits)

function string_escaped :: "bytes \<Rightarrow> bool \<Rightarrow> parser \<Rightarrow> bytes presult" where
  "string_escaped buf is_escaped p =
     (case next_char p of
        (None, p1) \<Rightarrow> (Inl (error_unterminated p1), p1)
      | (Some ch, p1) \<Rightarrow>
          if ch = 0x5c \<and> \<not> is_escaped then string_escaped buf True p1
          else if ch = 0x22 \<and> \<not> is_escaped then string_done buf p1
          else if \<not> is_escaped then string_escaped (buf @ [ch]) is_escaped p1
          else if ch = 0x75 then
            (case unicode_escape p1 of
               (Inl e, p2) \<Rightarrow> (Inl e, p2)
             | (Inr cs, p2) \<Rightarrow> string_escaped (buf @ cs) False p2)
          else string_escaped (buf @ [escaped_char ch]) False p1)"
  by pat_completeness auto

termination string_escaped
  by (relation "measure (\<lambda>(_, _, p). length (p_iter p))")
    (auto dest!: next_char_shorter [OF sym] unicode_escape_shorter [OF sym])

function string_plain :: "nat \<Rightarrow> parser \<Rightarrow> bytes presult" where
  "string_plain start_pos p =
     (case next_char p of
        (None, p1) \<Rightarrow> (Inl (error_unterminated p1), p1)
      | (Some ch, p1) \<Rightarrow>
          if ch = 0x5c then
            (case slice_index (p_bytes p1) start_pos (p_pos p1 - 1) of
               None \<Rightarrow> (Inl Panic, p1)
             | Some buf \<Rightarrow> string_escaped buf True p1)
          else if ch = 0x22 then string_done (slice_get (p_bytes p1) start_pos (p_pos p1 - 1)) p1
          else string_plain start_pos p1)"
  by pat_completeness auto

termination string_plain
  by (relation "measure (\<lambda>(_, p). length (p_iter p))") (auto dest!: next_char_shorter [OF sym])

declare string_escaped.simps [simp del] string_plain.simps [simp del]

definition string_parse :: "parser \<Rightarrow> bytes presult" where
  "string_parse p = string_plain (p_pos p) p"

definition ignore_parse :: "parser \<Rightarrow> unit presult" where
  "ignore_parse p =
     (case skip_string p of
        (True, p) \<Rightarrow> (Inr (), p)
      | (False, p) \<Rightarrow> (Inl (error_unterminated p), p))"

section \<open>Consumption\<close>

text \<open>
  A step that reads characters never grows the iterator and leaves the rest of the parser
  alone: the input, the character put back, the nesting depths and the context.
\<close>

definition keeps :: "parser \<Rightarrow> parser \<Rightarrow> bool" where
  "keeps p q \<longleftrightarrow> p_bytes q = p_bytes p \<and> p_next_ch q = p_next_ch p \<and> p_depth_array q = p_depth_array p \<and>
     p_depth_dict q = p_depth_dict p \<and> p_ctx q = p_ctx p \<and> length (p_iter q) \<le> length (p_iter p)"

lemma keeps_refl [simp]: "keeps p p"
  by (simp add: keeps_def)

lemma keeps_trans [trans]: "keeps p q \<Longrightarrow> keeps q r \<Longrightarrow> keeps p r"
  by (simp add: keeps_def)

lemma keeps_update [simp]:
  "keeps p (q\<lparr>p_pos := n\<rparr>) = keeps p q" "keeps p (q\<lparr>p_is_eof := b\<rparr>) = keeps p q"
  "keeps p (q\<lparr>p_pos_marker := n\<rparr>) = keeps p q"
  "keeps (p\<lparr>p_pos := n\<rparr>) q = keeps p q" "keeps (p\<lparr>p_is_eof := b\<rparr>) q = keeps p q"
  "keeps (p\<lparr>p_pos_marker := n\<rparr>) q = keeps p q"
  by (simp_all add: keeps_def)

lemma keeps_iter: "length xs \<le> length (p_iter q) \<Longrightarrow> keeps p q \<Longrightarrow> keeps p (q\<lparr>p_iter := xs\<rparr>)"
  by (simp add: keeps_def)

lemma next_char_keeps: "keeps p (snd (next_char p))"
  by (simp add: next_char_def Let_def keeps_iter split: list.splits)

lemma next_unescaped_keeps: "keeps p (snd (next_unescaped p))"
proof -
  obtain n q where q: "next_char p = (n, q)" by fastforce
  obtain n' q' where q': "next_char q = (n', q')" by fastforce
  show ?thesis
    using next_char_keeps [of p] next_char_keeps [of q]
    by (auto simp: next_unescaped_def q q' split: option.splits intro: keeps_trans)
qed

lemma skip_string_loop_keeps: "keeps p (snd (skip_string_loop c p))"
proof (induction c p rule: skip_string_loop.induct)
  case (1 c p)
  obtain n q where q: "next_char p = (n, q)" by fastforce
  show ?case
    using 1 [OF q [symmetric]] next_char_keeps [of p]
    by (subst skip_string_loop.simps) (auto simp: q split: option.splits intro: keeps_trans)
qed

lemma skip_string_keeps: "keeps p (snd (skip_string p))"
  by (simp add: skip_string_def skip_string_loop_keeps)

lemma error_value_keeps: "keeps p (snd (error_value p))"
  using skip_string_keeps [of p]
  by (cases "skip_string p") (simp add: error_value_def)

lemma fail_value_keeps: "keeps p (snd (fail_value p))"
  using error_value_keeps [of p] by (cases "error_value p") simp

lemma while_unescaped_keeps: "keeps p (snd (while_unescaped body s p))"
proof (induction body s p rule: while_unescaped.induct)
  case (1 body s p)
  obtain n q where q: "next_unescaped p = (n, q)" by fastforce
  show ?case
    using 1 [OF q [symmetric]] next_unescaped_keeps [of p]
    by (subst while_unescaped.simps) (auto simp: q split: option.splits sum.splits intro: keeps_trans)
qed

lemmas keeps_lemmas = next_char_keeps next_unescaped_keeps skip_string_keeps error_value_keeps
  fail_value_keeps while_unescaped_keeps

lemma keeps_pbind:
  "keeps p (snd r) \<Longrightarrow> (\<And>a q. r = (Inr a, q) \<Longrightarrow> keeps q (snd (f a q))) \<Longrightarrow> keeps p (snd (pbind r f))"
  by (cases r; cases "fst r") (auto intro: keeps_trans)

text \<open>Only the loops over tokens have fuel.\<close>

definition fuelled :: "'a presult \<Rightarrow> bool" where
  "fuelled r \<longleftrightarrow> fst r \<noteq> Inl OutOfFuel"

lemma fuelled_simps [simp]:
  "fuelled (Inr a, p)" "fuelled (Inl e, p) \<longleftrightarrow> e \<noteq> OutOfFuel" "error_unterminated p \<noteq> OutOfFuel"
  by (simp_all add: fuelled_def error_unterminated_def)

lemma fuelled_pbind: "fuelled r \<Longrightarrow> (\<And>a q. r = (Inr a, q) \<Longrightarrow> fuelled (f a q)) \<Longrightarrow> fuelled (pbind r f)"
  by (cases r; cases "fst r") auto

lemma next_unescaped_fuelled: "fuelled (next_unescaped p)"
  by (auto simp: next_unescaped_def split: prod.splits option.splits)

lemma fail_value_fuelled: "fuelled (fail_value p)"
  by (auto simp: error_value_def split: prod.splits option.splits)

lemma while_unescaped_fuelled: "fuelled (while_unescaped body s p)"
proof (induction body s p rule: while_unescaped.induct)
  case (1 body s p)
  obtain n q where q: "next_unescaped p = (n, q)" by fastforce
  show ?case
    using 1 [OF q [symmetric]] next_unescaped_fuelled [of p]
    by (subst while_unescaped.simps) (auto simp: q split: option.splits sum.splits)
qed

lemma number_loop_fuelled: "fuelled (number_loop ch num f n p)"
proof (induction "length (p_iter p)" arbitrary: ch num f n p rule: less_induct)
  case less
  obtain c q where q: "next_char p = (c, q)" by fastforce
  have *: "fuelled (number_loop ch' num f n q)" if "c = Some ch'" for ch' num f n
    using less next_char_shorter [of p ch' q] q that by simp
  show ?case
    by (subst number_loop.simps) (simp add: Let_def q * split: option.split)
qed

text \<open>What is left to read: the iterator and the character put back.\<close>

definition left :: "parser \<Rightarrow> nat" where
  "left p = length (p_iter p) + (case p_next_ch p of None \<Rightarrow> 0 | Some _ \<Rightarrow> 1)"

definition depth :: "parser \<Rightarrow> nat" where
  "depth p = unat (p_depth_array p) + unat (p_depth_dict p)"

lemma keeps_left: "keeps p q \<Longrightarrow> left q \<le> left p" and keeps_depth: "keeps p q \<Longrightarrow> depth q = depth p"
  by (simp_all add: keeps_def left_def depth_def)

lemma next_char_left: "next_char p = (Some ch, q) \<Longrightarrow> left p = Suc (left q)"
  and next_char_depth: "next_char p = (r, q) \<Longrightarrow> depth q = depth p"
  and next_char_next_ch: "next_char p = (r, q) \<Longrightarrow> p_next_ch q = p_next_ch p"
  by (auto simp: next_char_def Let_def left_def depth_def split: list.splits)

definition number_start :: "u8 \<Rightarrow> bool" where
  "number_start ch \<longleftrightarrow> 0x30 \<le> ch \<and> ch \<le> 0x39 \<or> ch = 0x2d \<or> ch = 0x2b"

lemma number_loop_step:
  assumes "number_loop ch num f n p = (r, q)"
  obtains c p' num' f' n' where "next_char p = (Some c, p')" "number_loop c num' f' n' p' = (r, q)"
  | "next_char p = (None, q)" "isl r"
  | "\<not> number_start ch" "q = p\<lparr>p_next_ch := Some ch\<rparr>"
  | "\<not> number_start ch" "q = p"
  using assms
  by (subst (asm) number_loop.simps)
    (auto simp: Let_def number_start_def split: if_splits option.splits prod.splits)

lemma number_loop_left:
  "number_loop ch num f n p = (Inr r, q) \<Longrightarrow> p_next_ch p = None \<Longrightarrow> left q \<le> Suc (left p)"
proof (induction "length (p_iter p)" arbitrary: ch num f n p rule: less_induct)
  case less
  from less(2) show ?case
  proof (cases rule: number_loop_step)
    case more: (1 c p' num' f' n')
    then show ?thesis
      using less(1) [OF next_char_shorter [OF more(1)] more(2)] less(3)
      by (simp add: next_char_left [OF more(1)] next_char_next_ch [OF more(1)])
  qed (use less(3) in \<open>auto simp: left_def\<close>)
qed

lemma number_loop_depth: "number_loop ch num f n p = (r, q) \<Longrightarrow> depth q = depth p"
proof (induction "length (p_iter p)" arbitrary: ch num f n p rule: less_induct)
  case less
  from less(2) show ?case
  proof (cases rule: number_loop_step)
    case more: (1 c p' num' f' n')
    then show ?thesis
      using less(1) [OF next_char_shorter [OF more(1)] more(2)] next_char_depth [OF more(1)] by simp
  qed (auto simp: depth_def next_char_depth [unfolded depth_def])
qed

lemma next_number_left:
  assumes "next_number pf ch p = (Inr t, q)" and "number_start ch" and "p_next_ch p = None"
  shows "left q \<le> left p"
proof -
  from assms(1) obtain r where "number_loop ch 0 False False p = (Inr r, q)"
    by (auto simp: next_number_def Let_def pbind_def split: prod.splits sum.splits if_splits option.splits)
  then show ?thesis
  proof (cases rule: number_loop_step)
    case more: (1 c p' num' f' n')
    then show ?thesis
      using number_loop_left [OF more(2)] assms(3)
      by (simp add: next_char_left [OF more(1)] next_char_next_ch [OF more(1)])
  qed (use assms(2) in auto)
qed

lemma next_number_depth: "next_number pf ch p = (r, q) \<Longrightarrow> depth q = depth p"
  by (auto simp: next_number_def Let_def pbind_def number_loop_depth
      split: prod.splits sum.splits if_splits option.splits)

text \<open>The effect of an opening or closing bracket.\<close>

definition bracket :: "parser \<Rightarrow> parser \<Rightarrow> bool" where
  "bracket p q \<longleftrightarrow>
     p_depth_array p + p_depth_dict p < MAX_NESTED_LEVELS \<and>
       (q = p\<lparr>p_depth_array := p_depth_array p + 1\<rparr> \<or> q = p\<lparr>p_depth_dict := p_depth_dict p + 1\<rparr>)
   \<or> p_depth_array p \<noteq> 0 \<and> q = p\<lparr>p_depth_array := p_depth_array p - 1\<rparr>
   \<or> p_depth_dict p \<noteq> 0 \<and> q = p\<lparr>p_depth_dict := p_depth_dict p - 1\<rparr>"

lemma bracket_left: "bracket p q \<Longrightarrow> left q = left p"
  by (auto simp: bracket_def left_def)

lemma bracket_depth: "bracket p q \<Longrightarrow> depth p \<le> 16 \<Longrightarrow> depth q \<le> 16"
  by (auto simp: bracket_def depth_def MAX_NESTED_LEVELS_def word_less_nat_alt unat_word_ariths
      unat_minus_one)

section \<open>The interface of an item parser\<close>

text \<open>What the tokenizer relies on of the parser of a string token (trait \<^verbatim>\<open>JsonObjectParser\<close>).\<close>

locale item_parser =
  fixes parse :: "parser \<Rightarrow> 't presult"
  assumes parse_keeps: "keeps p (snd (parse p))"
    and parse_fuelled: "fuelled (parse p)"
begin

lemma next_token_loop_fuelled: "fuelled (next_token_loop pf parse c p)"
proof (induction "case c of None \<Rightarrow> 0 | Some _ \<Rightarrow> Suc (length (p_iter p))" arbitrary: c p rule: less_induct)
  case less
  show ?case
  proof (cases c)
    case None
    then show ?thesis by (simp add: next_token_loop.simps)
  next
    case (Some ch)
    obtain c' q where q: "next_char p = (c', q)" by fastforce
    have space: "fuelled (next_token_loop pf parse c' q)"
      using less [of q c'] next_char_shorter [of p _ q] q Some by (cases c') auto
    have string: "fuelled (pbind (parse p') (\<lambda>value p.
        let (found, p) = (if p_is_eof p then (True, p) else skip_string p) in
        if found then (Inr (String value), p) else (Inl (error_unterminated p), p)))" for p'
      by (rule fuelled_pbind [OF parse_fuelled]) (simp split: prod.split)
    have number: "fuelled (next_number pf ch p)"
      unfolding next_number_def Let_def
      by (rule fuelled_pbind [OF number_loop_fuelled]) (auto split: option.split)
    have literal: "fuelled (next_literal rest t p)" for rest t
      by (simp add: next_literal_def Let_def)
    show ?thesis
      unfolding Some next_token_loop.simps(2) q
      by (simp add: space string [unfolded Let_def] number literal)
  qed
qed

lemma next_token_fuelled: "fuelled (next_token pf parse p)"
  by (simp add: next_token_def next_token_loop_fuelled split: option.split prod.split)

lemma string_token_keeps:
  "keeps p (snd (pbind (parse (p\<lparr>p_pos_marker := p_pos p, p_is_eof := False\<rparr>)) (\<lambda>value p.
     let (found, p) = (if p_is_eof p then (True, p) else skip_string p) in
     if found then (Inr (String value), p) else (Inl (error_unterminated p), p))))"
proof (rule keeps_pbind)
  show "keeps p (snd (parse (p\<lparr>p_pos_marker := p_pos p, p_is_eof := False\<rparr>)))"
    using parse_keeps [of "p\<lparr>p_pos_marker := p_pos p, p_is_eof := False\<rparr>"] by simp
next
  fix a q
  show "keeps q (snd (let (found, p) = if p_is_eof q then (True, q) else skip_string q
      in if found then (Inr (String a), p) else (Inl (error_unterminated p), p)))"
    using skip_string_keeps [of q] by (cases "skip_string q") auto
qed

lemma next_literal_keeps: "next_literal rest t p = (r, q) \<Longrightarrow> keeps p q"
  by (auto simp: next_literal_def Let_def keeps_iter split: if_splits)

lemma next_token_loop_step:
  assumes "next_token_loop pf parse (Some ch) p = (r, q)"
  obtains "keeps p q"
  | "bracket p q"
  | "number_start ch" "next_number pf ch p = (r, q)"
  | c p' where "next_char p = (c, p')" "next_token_loop pf parse c p' = (r, q)"
proof -
  have "keeps p q" if "ch = 0x22"
    using assms string_token_keeps [of p] that
    by (subst (asm) next_token_loop.simps) (simp add: snd_def split: prod.splits)
  moreover have "keeps p q" if "ch = 0x74 \<or> ch = 0x66 \<or> ch = 0x6e"
    using assms that by (subst (asm) next_token_loop.simps) (elim disjE; simp add: next_literal_keeps)
  moreover have "keeps p q" if "ch = 0x2c \<or> ch = 0x3a"
    using assms that by (subst (asm) next_token_loop.simps) (elim disjE; simp)
  moreover have "keeps p q \<or> bracket p q" if "ch = 0x5b \<or> ch = 0x5d \<or> ch = 0x7b \<or> ch = 0x7d"
    using assms that
    by (subst (asm) next_token_loop.simps) (elim disjE; simp split: if_split_asm; simp add: bracket_def; metis keeps_refl)
  moreover have "keeps p q \<or> number_start ch \<and> next_number pf ch p = (r, q) \<or>
      (\<exists>c p'. next_char p = (c, p') \<and> next_token_loop pf parse c p' = (r, q))"
    if "ch \<noteq> 0x22" "ch \<noteq> 0x74" "ch \<noteq> 0x66" "ch \<noteq> 0x6e" "ch \<noteq> 0x2c" "ch \<noteq> 0x3a"
       "ch \<noteq> 0x5b" "ch \<noteq> 0x5d" "ch \<noteq> 0x7b" "ch \<noteq> 0x7d"
  proof (cases "number_start ch")
    case True
    then show ?thesis
      using assms that by (subst (asm) next_token_loop.simps) (simp add: number_start_def)
  next
    case False
    obtain c p' where "next_char p = (c, p')" by fastforce
    with False show ?thesis
      using assms that
      by (subst (asm) next_token_loop.simps) (simp add: number_start_def split: if_split_asm)
  qed
  ultimately show ?thesis
    using that by metis
qed

lemma next_token_loop_left:
  "next_token_loop pf parse (Some ch) p = (Inr t, q) \<Longrightarrow> p_next_ch p = None \<Longrightarrow> left q \<le> left p"
proof (induction "length (p_iter p)" arbitrary: ch p rule: less_induct)
  case less
  from less(2) show ?case
  proof (cases rule: next_token_loop_step)
    case space: (4 c p')
    show ?thesis
    proof (cases c)
      case None
      with space show ?thesis by (simp add: next_token_loop.simps)
    next
      case (Some ch')
      with space less(3) show ?thesis
        using less(1) [of p' ch'] next_char_shorter [of p ch' p'] next_char_left [of p ch' p']
          next_char_next_ch [of p c p'] by simp
    qed
  qed (use less(3) in \<open>auto simp: bracket_left keeps_left next_number_left\<close>)
qed

lemma next_token_left:
  assumes "next_token pf parse p = (Inr t, q)"
  shows "left q < left p"
proof (cases "p_next_ch p")
  case None
  obtain c p' where p': "next_char p = (c, p')" by fastforce
  with assms None obtain ch where c: "c = Some ch"
    by (cases c) (auto simp: next_token_def next_token_loop.simps)
  then show ?thesis
    using assms None p' next_token_loop_left [of pf ch p' t q] next_char_left [of p ch p']
      next_char_next_ch [of p c p'] by (simp add: next_token_def)
next
  case (Some ch)
  have "left q \<le> left (p\<lparr>p_next_ch := None\<rparr>)"
    using assms Some next_token_loop_left [of pf ch "p\<lparr>p_next_ch := None\<rparr>" t q]
    by (simp add: next_token_def)
  with Some show ?thesis by (simp add: left_def)
qed

lemma next_token_loop_depth:
  "next_token_loop pf parse c p = (r, q) \<Longrightarrow> depth p \<le> 16 \<Longrightarrow> depth q \<le> 16"
proof (induction "length (p_iter p)" arbitrary: c p rule: less_induct)
  case less
  show ?case
  proof (cases c)
    case None
    with less show ?thesis by (simp add: next_token_loop.simps)
  next
    case (Some ch)
    from less(2) [unfolded Some] show ?thesis
    proof (cases rule: next_token_loop_step)
      case 3
      then show ?thesis using less(3) next_number_depth [OF 3(2)] by simp
    next
      case space: (4 c' p')
      then show ?thesis
      proof (cases c')
        case None
        with space less(3) show ?thesis
          by (simp add: next_token_loop.simps next_char_depth)
      next
        case (Some ch')
        then show ?thesis
          using less(1) [of p' c'] next_char_shorter [of p ch' p'] next_char_depth [of p c' p'] space less(3)
          by simp
      qed
    qed (use less(3) in \<open>simp_all add: bracket_depth keeps_depth\<close>)
  qed
qed

lemma next_token_depth:
  assumes "next_token pf parse p = (r, q)" and "depth p \<le> 16"
  shows "depth q \<le> 16"
proof (cases "p_next_ch p")
  case None
  obtain c p' where p': "next_char p = (c, p')" by fastforce
  then have "depth p' \<le> 16"
    using assms(2) next_char_depth by simp
  moreover have "next_token_loop pf parse c p' = (r, q)"
    using assms(1) None p' by (simp add: next_token_def)
  ultimately show ?thesis
    using next_token_loop_depth by blast
next
  case (Some ch)
  then have "next_token_loop pf parse (Some ch) (p\<lparr>p_next_ch := None\<rparr>) = (r, q)"
    using assms(1) by (simp add: next_token_def)
  moreover have "depth (p\<lparr>p_next_ch := None\<rparr>) \<le> 16"
    using assms(2) by (simp add: depth_def)
  ultimately show ?thesis
    using next_token_loop_depth by blast
qed

end

lemma unicode_escape_keeps: "keeps p (snd (unicode_escape p))"
  by (auto simp: unicode_escape_def Let_def keeps_iter split: option.splits)

lemma string_escaped_keeps: "keeps p (snd (string_escaped buf e p))"
proof (induction buf e p rule: string_escaped.induct)
  case (1 buf e p)
  obtain c q where q: "next_char p = (c, q)" by fastforce
  have pq: "keeps p q" using next_char_keeps [of p] by (simp add: q)
  show ?case
  proof (cases c)
    case None
    then show ?thesis using pq by (subst string_escaped.simps) (simp add: q)
  next
    case (Some ch)
    obtain u q' where q': "unicode_escape q = (u, q')" by fastforce
    then have "keeps p q'" using pq unicode_escape_keeps [of q] by (auto intro: keeps_trans)
    with 1 [OF q [symmetric] Some] pq q' show ?thesis
      by (subst string_escaped.simps)
        (auto simp: q Some string_done_def Let_def split: sum.split intro: keeps_trans)
  qed
qed

lemma string_plain_keeps: "keeps p (snd (string_plain n p))"
proof (induction n p rule: string_plain.induct)
  case (1 n p)
  obtain c q where q: "next_char p = (c, q)" by fastforce
  have pq: "keeps p q" using next_char_keeps [of p] by (simp add: q)
  show ?case
    using pq 1 [OF q [symmetric]] keeps_trans [OF pq string_escaped_keeps]
    by (subst string_plain.simps)
      (auto simp: q string_done_def Let_def split: option.split intro: keeps_trans)
qed

lemma unicode_escape_fuelled: "fuelled (unicode_escape p)"
  by (auto simp: unicode_escape_def Let_def split: option.splits)

lemma string_escaped_fuelled: "fuelled (string_escaped buf e p)"
proof (induction buf e p rule: string_escaped.induct)
  case (1 buf e p)
  obtain c q where q: "next_char p = (c, q)" by fastforce
  show ?case
  proof (cases c)
    case (Some ch)
    with 1 [OF q [symmetric] Some] show ?thesis
      using unicode_escape_fuelled [of q]
      by (subst string_escaped.simps) (auto simp: q string_done_def Let_def split: prod.split sum.split)
  qed (subst string_escaped.simps, simp add: q)
qed

lemma string_plain_fuelled: "fuelled (string_plain n p)"
proof (induction n p rule: string_plain.induct)
  case (1 n p)
  obtain c q where q: "next_char p = (c, q)" by fastforce
  show ?case
    using 1 [OF q [symmetric]]
    by (subst string_plain.simps)
      (auto simp: q string_done_def Let_def string_escaped_fuelled split: option.split)
qed

lemmas item_parser_intros = keeps_pbind fuelled_pbind while_unescaped_keeps while_unescaped_fuelled
  fail_value_keeps fail_value_fuelled

interpretation item_u64: item_parser u64_parse
  by unfold_locales (auto simp: u64_parse_def intro!: item_parser_intros)

interpretation item_u128: item_parser u128_parse
  by unfold_locales (auto simp: u128_parse_def intro!: item_parser_intros)

interpretation item_string: item_parser string_parse
  by unfold_locales (simp_all add: string_parse_def string_plain_keeps string_plain_fuelled)

interpretation item_ignore: item_parser ignore_parse
proof
  fix p
  show "keeps p (snd (ignore_parse p))"
    using skip_string_keeps [of p] by (auto simp: ignore_parse_def split: prod.splits bool.splits)
  show "fuelled (ignore_parse p)"
    by (auto simp: ignore_parse_def split: prod.splits bool.splits)
qed

section \<open>Keys, skipped values and containers\<close>

definition token_erase :: "'t token \<Rightarrow> unit token" where
  "token_erase t = map_token (\<lambda>_. ()) t"

definition token_error :: "'t token \<Rightarrow> string \<Rightarrow> expectation \<Rightarrow> json_error" where
  "token_error t property expected = Err_argument property expected (token_erase t)"

definition token_assert :: "'t token \<Rightarrow> 't token \<Rightarrow> parser \<Rightarrow> unit presult" where
  "token_assert t t' p =
     (if t = t' then (Inr (), p) else (Inl (token_error t [] (Token (token_erase t'))), p))"

definition unwrap_string :: "'t token \<Rightarrow> string \<Rightarrow> json_error + 't" where
  "unwrap_string t property =
     (case t of String s \<Rightarrow> Inr s | t \<Rightarrow> Inl (token_error t property (Text ''string'')))"

definition unwrap_string_or_null :: "'t token \<Rightarrow> string \<Rightarrow> json_error + 't option" where
  "unwrap_string_or_null t property =
     (case t of String s \<Rightarrow> Inr (Some s) | Null \<Rightarrow> Inr None
      | t \<Rightarrow> Inl (token_error t property (Text ''string'')))"

definition unwrap_bool :: "'t token \<Rightarrow> string \<Rightarrow> json_error + bool" where
  "unwrap_bool t property =
     (case t of Boolean v \<Rightarrow> Inr v | t \<Rightarrow> Inl (token_error t property (Text ''boolean'')))"

definition unwrap_bool_or_null :: "'t token \<Rightarrow> string \<Rightarrow> json_error + bool option" where
  "unwrap_bool_or_null t property =
     (case t of Boolean v \<Rightarrow> Inr (Some v) | Null \<Rightarrow> Inr None
      | t \<Rightarrow> Inl (token_error t property (Text ''boolean'')))"

text \<open>
  The loops over tokens take fuel; every token consumes input (\<open>next_token_left\<close>), so the
  amount left to read is enough.
\<close>

fun next_dict_key_loop ::
  "nat \<Rightarrow> (bytes \<Rightarrow> u64 option) \<Rightarrow> (parser \<Rightarrow> 'k presult) \<Rightarrow> parser \<Rightarrow> 'k option presult" where
  "next_dict_key_loop 0 pf parse p = (Inl OutOfFuel, p)"
| "next_dict_key_loop (Suc n) pf parse p =
     pbind (next_token pf parse p) (\<lambda>t p.
       case t of
         String k \<Rightarrow> pbind (next_token pf parse p) (\<lambda>t p. pbind (token_assert t Colon p) (\<lambda>_ p. (Inr (Some k), p)))
       | Comma \<Rightarrow> next_dict_key_loop n pf parse p
       | DictEnd \<Rightarrow> (Inr None, p)
       | t \<Rightarrow> (Inl (Err_property (token_erase t) (p_pos p)), p))"

definition next_dict_key ::
  "(bytes \<Rightarrow> u64 option) \<Rightarrow> (parser \<Rightarrow> 'k presult) \<Rightarrow> parser \<Rightarrow> 'k option presult" where
  "next_dict_key pf parse p = next_dict_key_loop (Suc (left p)) pf parse p"

fun skip_token_loop :: "nat \<Rightarrow> (bytes \<Rightarrow> u64 option) \<Rightarrow> u32 \<Rightarrow> u32 \<Rightarrow> parser \<Rightarrow> unit presult" where
  "skip_token_loop 0 pf start_depth_array start_depth_dict p = (Inl OutOfFuel, p)"
| "skip_token_loop (Suc n) pf start_depth_array start_depth_dict p =
     pbind (next_token pf ignore_parse p) (\<lambda>_ p.
       if start_depth_array \<noteq> p_depth_array p \<or> start_depth_dict \<noteq> p_depth_dict p
       then skip_token_loop n pf start_depth_array start_depth_dict p
       else (Inr (), p))"

definition skip_token :: "(bytes \<Rightarrow> u64 option) \<Rightarrow> u32 \<Rightarrow> u32 \<Rightarrow> parser \<Rightarrow> unit presult" where
  "skip_token pf start_depth_array start_depth_dict p =
     skip_token_loop (Suc (left p)) pf start_depth_array start_depth_dict p"

fun vec_parse_loop ::
  "nat \<Rightarrow> (bytes \<Rightarrow> u64 option) \<Rightarrow> (parser \<Rightarrow> 't presult) \<Rightarrow> string \<Rightarrow> 't list \<Rightarrow> parser \<Rightarrow> 't list presult" where
  "vec_parse_loop 0 pf parse expected vec p = (Inl OutOfFuel, p)"
| "vec_parse_loop (Suc n) pf parse expected vec p =
     pbind (next_token pf parse p) (\<lambda>t p.
       case t of
         String item \<Rightarrow> vec_parse_loop n pf parse expected (vec @ [item]) p
       | Comma \<Rightarrow> vec_parse_loop n pf parse expected vec p
       | ArrayEnd \<Rightarrow> (Inr vec, p)
       | t \<Rightarrow> (Inl (token_error t [] (Text expected)), p))"

definition vec_parse :: "(bytes \<Rightarrow> u64 option) \<Rightarrow> (parser \<Rightarrow> 't presult) \<Rightarrow> parser \<Rightarrow> 't list presult" where
  "vec_parse pf parse p =
     pbind (next_token pf ignore_parse p) (\<lambda>t p.
       pbind (token_assert t ArrayStart p) (\<lambda>_ p.
         vec_parse_loop (Suc (left p)) pf parse ''[ or string'' [] p))"

definition option_vec_parse ::
  "(bytes \<Rightarrow> u64 option) \<Rightarrow> (parser \<Rightarrow> 't presult) \<Rightarrow> parser \<Rightarrow> 't list option presult" where
  "option_vec_parse pf parse p =
     pbind (next_token pf ignore_parse p) (\<lambda>t p.
       case t of
         ArrayStart \<Rightarrow>
           pbind (vec_parse_loop (Suc (left p)) pf parse ''string'' [] p) (\<lambda>vec p. (Inr (Some vec), p))
       | Null \<Rightarrow> (Inr None, p)
       | t \<Rightarrow> (Inl (token_error t [] (Text ''array or null'')), p))"

fun bitmap_parse_loop ::
  "nat \<Rightarrow> (bytes \<Rightarrow> u64 option) \<Rightarrow> (parser \<Rightarrow> 't presult) \<Rightarrow> ('t \<Rightarrow> u64) \<Rightarrow> u64 \<Rightarrow> parser \<Rightarrow> u64 presult" where
  "bitmap_parse_loop 0 pf parse into bm p = (Inl OutOfFuel, p)"
| "bitmap_parse_loop (Suc n) pf parse into bm p =
     pbind (next_token pf parse p) (\<lambda>t p.
       case t of
         String item \<Rightarrow> bitmap_parse_loop n pf parse into (bitmap_insert into bm item) p
       | Comma \<Rightarrow> bitmap_parse_loop n pf parse into bm p
       | ArrayEnd \<Rightarrow> (Inr bm, p)
       | t \<Rightarrow> (Inl (token_error t [] (Text ''string'')), p))"

definition bitmap_parse ::
  "(bytes \<Rightarrow> u64 option) \<Rightarrow> (parser \<Rightarrow> 't presult) \<Rightarrow> ('t \<Rightarrow> u64) \<Rightarrow> parser \<Rightarrow> u64 presult" where
  "bitmap_parse pf parse into p =
     (let bm = bitmap_new in
      pbind (next_token pf ignore_parse p) (\<lambda>t p.
        case t of
          ArrayStart \<Rightarrow> bitmap_parse_loop (Suc (left p)) pf parse into bm p
        | Null \<Rightarrow> (Inr bm, p)
        | t \<Rightarrow> (Inl (token_error t [] (Text ''array or null'')), p)))"

fun vec_map_parse_loop ::
  "nat \<Rightarrow> (bytes \<Rightarrow> u64 option) \<Rightarrow> (parser \<Rightarrow> 'k presult) \<Rightarrow> (parser \<Rightarrow> 'v presult) \<Rightarrow>
     ('k, 'v) vec_map \<Rightarrow> parser \<Rightarrow> ('k, 'v) vec_map presult" where
  "vec_map_parse_loop 0 pf key_parse value_parse m p = (Inl OutOfFuel, p)"
| "vec_map_parse_loop (Suc n) pf key_parse value_parse m p =
     pbind (next_dict_key pf key_parse p) (\<lambda>k p.
       case k of
         None \<Rightarrow> (Inr m, p)
       | Some key \<Rightarrow>
           pbind (value_parse p) (\<lambda>v p. vec_map_parse_loop n pf key_parse value_parse (vm_append m key v) p))"

definition vec_map_parse ::
  "(bytes \<Rightarrow> u64 option) \<Rightarrow> (parser \<Rightarrow> 'k presult) \<Rightarrow> (parser \<Rightarrow> 'v presult) \<Rightarrow> parser \<Rightarrow>
     ('k, 'v) vec_map presult" where
  "vec_map_parse pf key_parse value_parse p =
     pbind (next_token pf ignore_parse p) (\<lambda>t p.
       pbind (token_assert t DictStart p) (\<lambda>_ p.
         vec_map_parse_loop (Suc (left p)) pf key_parse value_parse vm_new p))"

definition option_vec_map_parse ::
  "(bytes \<Rightarrow> u64 option) \<Rightarrow> (parser \<Rightarrow> 'k presult) \<Rightarrow> (parser \<Rightarrow> 'v presult) \<Rightarrow> parser \<Rightarrow>
     ('k, 'v) vec_map option presult" where
  "option_vec_map_parse pf key_parse value_parse p =
     pbind (next_token pf ignore_parse p) (\<lambda>t p.
       case t of
         DictStart \<Rightarrow>
           pbind (vec_map_parse_loop (Suc (left p)) pf key_parse value_parse vm_new p)
             (\<lambda>m p. (Inr (Some m), p))
       | Null \<Rightarrow> (Inr None, p)
       | t \<Rightarrow> (Inl (token_error t [] (Token (token_erase t))), p))"

definition bool_parse :: "(bytes \<Rightarrow> u64 option) \<Rightarrow> parser \<Rightarrow> bool presult" where
  "bool_parse pf p =
     pbind (next_token pf ignore_parse p) (\<lambda>t p.
       case t of
         Boolean v \<Rightarrow> (Inr v, p)
       | Null \<Rightarrow> (Inr False, p)
       | t \<Rightarrow> (Inl (token_error t [] (Token (token_erase t))), p))"

end
