(* ===== verification/JsonProps.thy ===== *)
theory JsonProps
  imports Json
begin

text \<open>
  What the JSON parser does on well-formed input: quoted strings, escapes, integers, nesting;
  that its token loops always end; and where it departs from JSON.
\<close>

section \<open>Quoted strings\<close>

definition plain :: "u8 \<Rightarrow> bool" where
  "plain c \<longleftrightarrow> c \<noteq> 0x22 \<and> c \<noteq> 0x5c"

text \<open>The parser's position is that of its iterator in the input.\<close>

definition synced :: "parser \<Rightarrow> bool" where
  "synced p \<longleftrightarrow> p_pos p \<le> length (p_bytes p) \<and> p_iter p = drop (p_pos p) (p_bytes p)"

lemma synced_new [simp]: "synced (parser_new bs)"
  by (simp add: synced_def parser_new_def)

lemma synced_step:
  assumes "synced p" "p_iter p = cs @ rest"
  shows "synced (p\<lparr>p_pos := p_pos p + length cs, p_iter := rest\<rparr>)"
proof -
  from assms have d: "drop (p_pos p) (p_bytes p) = cs @ rest" "p_pos p \<le> length (p_bytes p)"
    by (auto simp: synced_def)
  then have "drop (p_pos p + length cs) (p_bytes p) = rest"
    by (metis add.commute append_eq_conv_conj drop_drop)
  moreover have "p_pos p + length cs \<le> length (p_bytes p)"
    using d(2) arg_cong [OF d(1), of length] by (simp only: length_drop length_append)
  ultimately show ?thesis
    by (simp add: synced_def)
qed

lemma next_unescaped_plain:
  "p_iter p = c # rest \<Longrightarrow> plain c \<Longrightarrow>
     next_unescaped p = (Inr (Some c), p\<lparr>p_pos := p_pos p + 1, p_iter := rest\<rparr>)"
  by (simp add: next_unescaped_def next_char_simps plain_def)

lemma next_unescaped_quote:
  "p_iter p = 0x22 # rest \<Longrightarrow>
     next_unescaped p = (Inr None, p\<lparr>p_pos := p_pos p + 1, p_iter := rest, p_is_eof := True\<rparr>)"
  by (simp add: next_unescaped_def next_char_simps)

text \<open>The parser after the contents \<open>w\<close> of a string and its closing quote.\<close>

definition past_quote :: "parser \<Rightarrow> bytes \<Rightarrow> bytes \<Rightarrow> parser" where
  "past_quote p w rest = p\<lparr>p_pos := p_pos p + length w + 1, p_iter := rest, p_is_eof := True\<rparr>"

text \<open>Over a plain string the loop runs its body on each byte until the body leaves.\<close>

fun run :: "(u8 \<Rightarrow> 's \<Rightarrow> 's + 'b) \<Rightarrow> 's \<Rightarrow> bytes \<Rightarrow> 's option" where
  "run body s [] = Some s"
| "run body s (c # w) = (case body c s of Inl s' \<Rightarrow> run body s' w | Inr _ \<Rightarrow> None)"

lemma while_unescaped_plain:
  "list_all plain w \<Longrightarrow> p_iter p = w @ 0x22 # rest \<Longrightarrow> run body s w = Some s' \<Longrightarrow>
     while_unescaped body s p = (Inr (Inl s'), past_quote p w rest)"
proof (induction w arbitrary: s p)
  case Nil
  then show ?case
    by (subst while_unescaped.simps) (simp add: next_unescaped_quote past_quote_def)
next
  case (Cons c w)
  from Cons(4) obtain s1 where "body c s = Inl s1" "run body s1 w = Some s'"
    by (auto split: sum.splits)
  with Cons show ?case
    by (subst while_unescaped.simps) (simp add: next_unescaped_plain past_quote_def)
qed

lemma while_unescaped_leaves:
  "list_all plain w \<Longrightarrow> plain c \<Longrightarrow> p_iter p = w @ c # rest \<Longrightarrow> run body s w = Some s' \<Longrightarrow> body c s' = Inr b \<Longrightarrow>
     while_unescaped body s p = (Inr (Inr b), p\<lparr>p_pos := p_pos p + length w + 1, p_iter := rest\<rparr>)"
proof (induction w arbitrary: s p)
  case Nil
  then show ?case
    by (subst while_unescaped.simps) (simp add: next_unescaped_plain)
next
  case (Cons d w)
  from Cons(5) obtain s1 where "body d s = Inl s1" "run body s1 w = Some s'"
    by (auto split: sum.splits)
  with Cons show ?case
    by (subst while_unescaped.simps) (simp add: next_unescaped_plain)
qed

text \<open>A string token is what its parser makes of the contents, when that ends at the quote.\<close>

definition in_string :: "parser \<Rightarrow> bytes \<Rightarrow> parser" where
  "in_string p cs = p\<lparr>p_pos := p_pos p + 1, p_iter := cs, p_pos_marker := p_pos p + 1, p_is_eof := False\<rparr>"

lemma next_token_string:
  assumes "p_next_ch p = None" "p_iter p = 0x22 # cs" "parse (in_string p cs) = (Inr v, q)" "p_is_eof q"
  shows "next_token pf parse p = (Inr (String v), q)"
  using assms by (simp add: next_token_def next_char_simps next_token_loop.simps in_string_def)

lemma next_token_string_error:
  assumes "p_next_ch p = None" "p_iter p = 0x22 # cs" "parse (in_string p cs) = (Inl e, q)"
  shows "next_token pf parse p = (Inl e, q)"
  using assms by (simp add: next_token_def next_char_simps next_token_loop.simps in_string_def)

section \<open>Escaped strings\<close>

text \<open>The escapes of JSON for a byte of a string.\<close>

definition json_escape_byte :: "u8 \<Rightarrow> bytes" where
  "json_escape_byte b =
     (if b = 0x22 then [0x5c, 0x22] else if b = 0x5c then [0x5c, 0x5c]
      else if b = 0x0a then [0x5c, 0x6e] else if b = 0x09 then [0x5c, 0x74]
      else if b = 0x0d then [0x5c, 0x72] else if b = 0x08 then [0x5c, 0x62]
      else if b = 0x0c then [0x5c, 0x66] else [b])"

definition json_escape :: "bytes \<Rightarrow> bytes" where
  "json_escape w = concat (map json_escape_byte w)"

lemma json_escape_simps [simp]:
  "json_escape [] = []" "json_escape (b # w) = json_escape_byte b @ json_escape w"
  by (simp_all add: json_escape_def)

lemma json_escape_byte_cases:
  obtains "json_escape_byte b = [b]" "plain b"
  | e where "json_escape_byte b = [0x5c, e]" "escaped_char e = b" "e \<noteq> 0x75"
proof -
  have "json_escape_byte b = [b] \<and> plain b \<or>
      (\<exists>e. json_escape_byte b = [0x5c, e] \<and> escaped_char e = b \<and> e \<noteq> 0x75)"
    unfolding json_escape_byte_def plain_def escaped_char_def by simp
  with that show ?thesis by metis
qed

lemma string_escaped_json:
  "p_iter p = json_escape w @ 0x22 # rest \<Longrightarrow>
     string_escaped buf False p = string_done (buf @ w) (p\<lparr>p_pos := p_pos p + length (json_escape w) + 1, p_iter := rest\<rparr>)"
proof (induction w arbitrary: buf p)
  case Nil
  then show ?case by (subst string_escaped.simps) (simp add: next_char_simps)
next
  case (Cons b w)
  show ?case
  proof (cases b rule: json_escape_byte_cases)
    case 1
    with Cons show ?thesis
      by (subst string_escaped.simps) (simp add: next_char_simps plain_def)
  next
    case (2 e)
    let ?p = "p\<lparr>p_pos := p_pos p + 1, p_iter := e # json_escape w @ 0x22 # rest\<rparr>"
    have "string_escaped buf False p = string_escaped buf True ?p"
      using Cons(2) 2 by (subst string_escaped.simps) (simp add: next_char_simps)
    also have "\<dots> = string_escaped (buf @ [b]) False
        (p\<lparr>p_pos := p_pos p + 2, p_iter := json_escape w @ 0x22 # rest\<rparr>)"
      using 2 by (subst string_escaped.simps) (simp add: next_char_simps)
    also have "\<dots> = string_done (buf @ b # w)
        (p\<lparr>p_pos := p_pos p + length (json_escape (b # w)) + 1, p_iter := rest\<rparr>)"
      using Cons(1) 2 by simp
    finally show ?thesis .
  qed
qed

lemma slice_get_snoc:
  assumes "drop n bs = b # rest" "start \<le> n" "n \<le> length bs"
  shows "slice_get bs start (Suc n) = slice_get bs start n @ [b]"
proof -
  from assms(1) have "n < length bs"
    by (metis drop_all linorder_not_less list.distinct(1))
  moreover from this assms(1) have "bs ! n = b"
    by (simp add: Cons_nth_drop_Suc [symmetric])
  ultimately show ?thesis
    using assms(2) by (simp add: slice_get_def slice_index_def Suc_diff_le take_Suc_conv_app_nth)
qed

lemma slice_index_range: "a \<le> b \<Longrightarrow> b \<le> length bs \<Longrightarrow> slice_index bs a b = Some (slice_get bs a b)"
  by (simp add: slice_get_def slice_index_def)

lemma string_plain_json:
  "synced p \<Longrightarrow> p_iter p = json_escape w @ 0x22 # rest \<Longrightarrow> start \<le> p_pos p \<Longrightarrow>
     string_plain start p = string_done (slice_get (p_bytes p) start (p_pos p) @ w)
       (p\<lparr>p_pos := p_pos p + length (json_escape w) + 1, p_iter := rest\<rparr>)"
proof (induction w arbitrary: p)
  case Nil
  then show ?case by (subst string_plain.simps) (simp add: next_char_simps)
next
  case (Cons b w)
  have r: "p_pos p \<le> length (p_bytes p)" "drop (p_pos p) (p_bytes p) = json_escape_byte b @ json_escape w @ 0x22 # rest"
    using Cons(2,3) by (auto simp: synced_def)
  show ?case
  proof (cases b rule: json_escape_byte_cases)
    case 1
    let ?p = "p\<lparr>p_pos := Suc (p_pos p), p_iter := json_escape w @ 0x22 # rest\<rparr>"
    have "synced ?p"
      using synced_step [OF Cons(2), of "[b]"] Cons(3) 1 by simp
    then have "string_plain start ?p = string_done (slice_get (p_bytes p) start (Suc (p_pos p)) @ w)
        (p\<lparr>p_pos := p_pos p + length (json_escape (b # w)) + 1, p_iter := rest\<rparr>)"
      using Cons(1) [of ?p] Cons(4) 1 by simp
    then show ?thesis
      using slice_get_snoc [of "p_pos p" "p_bytes p" b] Cons(3,4) r 1
      by (subst string_plain.simps) (simp add: next_char_simps plain_def)
  next
    case (2 e)
    then have "string_plain start p = string_escaped (slice_get (p_bytes p) start (p_pos p)) False p"
      using Cons(3,4) r(1)
      by (subst string_plain.simps, subst string_escaped.simps)
        (simp add: next_char_simps slice_index_range)
    then show ?thesis
      using string_escaped_json [OF Cons(3)] by simp
  qed
qed

lemma string_parse_json:
  assumes "synced p" "p_iter p = json_escape w @ 0x22 # rest" "from_utf8 w"
  shows "string_parse p = (Inr w, past_quote p (json_escape w) rest)"
  using string_plain_json [OF assms(1,2), of "p_pos p"] assms(3)
  by (simp add: string_parse_def slice_get_def slice_index_def string_done_def past_quote_def split: if_splits)

text \<open>C7: A JSON string token whose contents are the escaped form of a UTF-8 string is read as
  that string, and the parser stands right after the closing quote.\<close>

theorem next_token_json_string:
  assumes "synced p" "p_next_ch p = None" "p_iter p = 0x22 # json_escape w @ 0x22 # rest" "from_utf8 w"
  shows "\<exists>q. next_token pf string_parse p = (Inr (String w), q) \<and> p_iter q = rest \<and> synced q \<and> p_next_ch q = None"
proof -
  let ?p = "in_string p (json_escape w @ 0x22 # rest)"
  let ?q = "past_quote ?p (json_escape w) rest"
  have sp: "synced ?p"
    using synced_step [OF assms(1), of "[0x22]"] assms(3) by (simp add: in_string_def synced_def)
  then have "string_parse ?p = (Inr w, ?q)"
    by (rule string_parse_json) (simp_all add: in_string_def assms)
  then have "next_token pf string_parse p = (Inr (String w), ?q)"
    by (rule next_token_string [OF assms(2,3)]) (simp add: past_quote_def)
  moreover have "synced ?q"
    using synced_step [OF sp, of "json_escape w @ [0x22]" rest] by (simp add: past_quote_def in_string_def synced_def)
  ultimately show ?thesis
    using assms(2) by (auto simp: past_quote_def in_string_def)
qed

theorem next_token_json_string_witness:
  "let w = lit ''say '' @ [0x22, 0x5c, 0x0a]; p = parser_new (0x22 # json_escape w @ 0x22 # lit '','') in
   \<exists>q. next_token (\<lambda>_. None) string_parse p = (Inr (String w), q) \<and> p_iter q = lit '','' \<and> synced q \<and> p_next_ch q = None"
  unfolding Let_def
  by (rule next_token_json_string) (simp_all only: synced_new, simp_all add: parser_new_def from_utf8_ascii)

section \<open>Integers\<close>

definition is_digit :: "u8 \<Rightarrow> bool" where
  "is_digit c \<longleftrightarrow> 0x30 \<le> c \<and> c \<le> 0x39"

definition decimal :: "bytes \<Rightarrow> int" where
  "decimal ds = foldl (\<lambda>n c. n * 10 + uint (c - 0x30)) 0 ds"

lemma digit_step:
  assumes "0 \<le> v" "0 \<le> d"
  shows "i64_saturate (i64_saturate (min (2 ^ 63 - 1) v * 10) + d) = min (2 ^ 63 - 1) (v * 10 + d)"
  using assms by (simp add: i64_saturate_def)

definition delimiter :: "u8 \<Rightarrow> bool" where
  "delimiter c \<longleftrightarrow> c = 0x2c \<or> c = 0x5d \<or> c = 0x7d"

lemma decimal_nonneg: "0 \<le> v \<Longrightarrow> 0 \<le> foldl (\<lambda>n c. n * 10 + uint (c - 0x30 :: u8)) v ds"
  by (induction ds arbitrary: v) simp_all

lemma number_loop_delimiter:
  "delimiter d \<Longrightarrow> number_loop d num f neg p = (Inr (num, f, neg), p\<lparr>p_next_ch := Some d\<rparr>)"
  by (subst number_loop.simps) (auto simp: delimiter_def)

lemma number_loop_digit:
  assumes "is_digit c" "p_iter p = c' # rest" "0 \<le> v"
  shows "number_loop c (min (2 ^ 63 - 1) v) False neg p =
    number_loop c' (min (2 ^ 63 - 1) (v * 10 + uint (c - 0x30))) False neg (p\<lparr>p_pos := p_pos p + 1, p_iter := rest\<rparr>)"
proof -
  have "c \<noteq> 0x2d"
    using assms(1) by (auto simp: is_digit_def)
  with assms show ?thesis
    unfolding number_loop.simps [of c] digit_step [OF assms(3) uint_nonnegative]
    by (simp add: next_char_simps is_digit_def)
qed

lemma number_loop_digits:
  "list_all is_digit (c # ds) \<Longrightarrow> delimiter d \<Longrightarrow> p_iter p = ds @ d # rest \<Longrightarrow> 0 \<le> v \<Longrightarrow>
     number_loop c (min (2 ^ 63 - 1) v) False neg p =
       (Inr (min (2 ^ 63 - 1) (foldl (\<lambda>n c. n * 10 + uint (c - 0x30)) v (c # ds)), False, neg),
        p\<lparr>p_pos := p_pos p + length ds + 1, p_iter := rest, p_next_ch := Some d\<rparr>)"
proof (induction ds arbitrary: c v p)
  case Nil
  then show ?case
    using number_loop_digit [of c p d rest v neg] by (simp add: number_loop_delimiter)
next
  case (Cons c' ds)
  then show ?case
    using number_loop_digit [of c p c' "ds @ d # rest" v neg]
      Cons(1) [of c' "p\<lparr>p_pos := Suc (p_pos p), p_iter := ds @ d # rest\<rparr>" "v * 10 + uint (c - 0x30)"]
    by simp
qed

text \<open>A number written as a non-empty sequence of decimal digits, with an optional minus sign,
  and followed by a comma or a closing bracket is read as the integer it denotes, clamped to the
  range of a 64-bit integer (symmetrically: the smallest result is \<open>- (2 ^ 63 - 1)\<close>); the
  delimiter is put back.\<close>

theorem next_token_integer:
  assumes "p_next_ch p = None" "list_all is_digit ds" "ds \<noteq> []" "delimiter d"
    and "p_iter p = (if neg then 0x2d # ds else ds) @ d # rest"
  shows "\<exists>q. next_token pf parse p =
      (Inr (Integer (if neg then - min (2 ^ 63 - 1) (decimal ds) else min (2 ^ 63 - 1) (decimal ds))), q) \<and>
    p_iter q = rest \<and> p_next_ch q = Some d"
proof -
  obtain c cs where ds: "ds = c # cs" using assms(3) by (cases ds) auto
  let ?p = "p\<lparr>p_pos := p_pos p + (if neg then 2 else 1), p_iter := cs @ d # rest\<rparr>"
  let ?q = "?p\<lparr>p_pos := p_pos ?p + length cs + 1, p_iter := rest, p_next_ch := Some d\<rparr>"
  have loop: "number_loop c 0 False neg ?p = (Inr (min (2 ^ 63 - 1) (decimal ds), False, neg), ?q)"
    using number_loop_digits [of c cs d ?p rest 0 neg] assms by (simp add: ds decimal_def)
  have c: "is_digit c" "c \<noteq> 0x2d" "number_start c"
    using assms(2) ds by (auto simp: is_digit_def number_start_def)
  have e: "next_token_loop pf parse (Some ch) p' = next_number pf ch p'" if "number_start ch" for ch p'
    using that by (subst next_token_loop.simps) (auto simp: number_start_def)
  have "next_token pf parse p = (Inr (Integer (if neg then - min (2 ^ 63 - 1) (decimal ds)
      else min (2 ^ 63 - 1) (decimal ds))), ?q)"
  proof (cases neg)
    case True
    let ?p' = "p\<lparr>p_pos := p_pos p + 1, p_iter := c # cs @ d # rest\<rparr>"
    have "next_token pf parse p = next_number pf 0x2d ?p'"
      using assms(1,5) True ds by (simp add: next_token_def next_char_simps e number_start_def)
    moreover have "number_loop 0x2d 0 False False ?p' = number_loop c 0 False True ?p"
      using True by (subst number_loop.simps) (simp add: next_char_simps)
    ultimately show ?thesis
      using loop True by (simp add: next_number_def)
  next
    case False
    have "next_token pf parse p = next_number pf c ?p"
      using assms(1,5) False ds c by (simp add: next_token_def next_char_simps e)
    then show ?thesis
      using loop False by (simp add: next_number_def)
  qed
  then show ?thesis by auto
qed

theorem next_token_integer_witness:
  "\<exists>q. next_token (\<lambda>_. None) string_parse (parser_new (lit ''-9300000000000000000]'')) =
      (Inr (Integer (- 9223372036854775807)), q) \<and> p_iter q = [] \<and> p_next_ch q = Some 0x5d"
  using next_token_integer [where p = "parser_new (lit ''-9300000000000000000]'')" and neg = True and rest = "[]"
      and ds = "lit ''9300000000000000000''" and d = "0x5d" and pf = "\<lambda>_. None" and parse = string_parse]
  by (simp add: parser_new_def is_digit_def delimiter_def decimal_def)

section \<open>Nesting\<close>

text \<open>The states a client reaches by reading tokens, whatever they turn out to be.\<close>

inductive token_run :: "(bytes \<Rightarrow> u64 option) \<Rightarrow> parser \<Rightarrow> parser \<Rightarrow> bool" for pf where
  start: "token_run pf p p"
| string: "token_run pf p q \<Longrightarrow> token_run pf p (snd (next_token pf string_parse q))"
| key: "token_run pf p q \<Longrightarrow> token_run pf p (snd (next_token pf u64_parse q))"
| long_key: "token_run pf p q \<Longrightarrow> token_run pf p (snd (next_token pf u128_parse q))"
| ignore: "token_run pf p q \<Longrightarrow> token_run pf p (snd (next_token pf ignore_parse q))"

text \<open>C22: Whatever tokens are read, the arrays and objects open at any point never number more
  than \<^verbatim>\<open>MAX_NESTED_LEVELS\<close>: deeply nested input is refused instead of being descended into.\<close>

theorem nesting_bounded:
  assumes "token_run pf (parser_new bs) q"
  shows "unat (p_depth_array q) + unat (p_depth_dict q) \<le> unat MAX_NESTED_LEVELS"
proof -
  have d: "depth (parser_new bs) \<le> 16"
    by (simp add: depth_def parser_new_def)
  have "depth q \<le> 16"
    using assms
  proof (induction "parser_new bs" q rule: token_run.induct)
    case (string q)
    then show ?case using item_string.next_token_depth [of pf q] by (metis prod.collapse)
  next
    case (key q)
    then show ?case using item_u64.next_token_depth [of pf q] by (metis prod.collapse)
  next
    case (long_key q)
    then show ?case using item_u128.next_token_depth [of pf q] by (metis prod.collapse)
  next
    case (ignore q)
    then show ?case using item_ignore.next_token_depth [of pf q] by (metis prod.collapse)
  qed (rule d)
  then show ?thesis
    by (simp add: depth_def MAX_NESTED_LEVELS_def)
qed

theorem nesting_bounded_witness:
  "let q = snd (next_token (\<lambda>_. None) string_parse (parser_new (lit ''[[]]''))) in
   unat (p_depth_array q) + unat (p_depth_dict q) \<le> unat MAX_NESTED_LEVELS \<and> p_depth_array q = 1"
  using nesting_bounded [OF token_run.string [OF token_run.start], of "\<lambda>_. None" "lit ''[[]]''"]
  by (simp add: Let_def parser_new_def next_token_def next_char_simps next_token_loop.simps MAX_NESTED_LEVELS_def)

section \<open>The token loops end\<close>

context item_parser
begin

lemma vec_parse_loop_fuelled: "left p < n \<Longrightarrow> fuelled (vec_parse_loop n pf parse ex vec p)"
proof (induction n arbitrary: vec p)
  case (Suc n)
  have *: "fuelled (vec_parse_loop n pf parse ex v q)" if "next_token pf parse p = (Inr t, q)" for v t q
    using Suc next_token_left [OF that] by simp
  show ?case
    using * by (auto intro!: fuelled_pbind next_token_fuelled split: token.split simp: token_error_def)
qed simp

lemma bitmap_parse_loop_fuelled: "left p < n \<Longrightarrow> fuelled (bitmap_parse_loop n pf parse into bm p)"
proof (induction n arbitrary: bm p)
  case (Suc n)
  have *: "fuelled (bitmap_parse_loop n pf parse into b q)" if "next_token pf parse p = (Inr t, q)" for b t q
    using Suc next_token_left [OF that] by simp
  show ?case
    using * by (auto intro!: fuelled_pbind next_token_fuelled split: token.split simp: token_error_def)
qed simp

lemma token_assert_fuelled: "fuelled (token_assert t t' p)"
  by (simp add: token_assert_def token_error_def)

lemma next_dict_key_loop_fuelled: "left p < n \<Longrightarrow> fuelled (next_dict_key_loop n pf parse p)"
proof (induction n arbitrary: p)
  case (Suc n)
  have *: "fuelled (next_dict_key_loop n pf parse q)" if "next_token pf parse p = (Inr t, q)" for t q
    using Suc next_token_left [OF that] by simp
  show ?case
    using * by (auto intro!: fuelled_pbind next_token_fuelled token_assert_fuelled split: token.split)
qed simp

lemma next_dict_key_left:
  "next_dict_key_loop n pf parse p = (Inr k, q) \<Longrightarrow> left q < left p"
proof (induction n arbitrary: p)
  case (Suc n)
  from Suc.prems obtain t p1 where t: "next_token pf parse p = (Inr t, p1)"
    by (cases "next_token pf parse p"; cases "fst (next_token pf parse p)") auto
  have l: "left p1 < left p" using next_token_left [OF t] .
  show ?case
  proof (cases t)
    case (String s)
    with Suc.prems t obtain t' where "next_token pf parse p1 = (Inr t', q)"
      by (cases "next_token pf parse p1"; cases "fst (next_token pf parse p1)")
        (auto simp: token_assert_def split: if_splits)
    then show ?thesis using l next_token_left by fastforce
  qed (use Suc t l in fastforce)+
qed simp

end



section \<open>Departures from JSON\<close>

text \<open>The scanner that skips a string of no interest looks one byte back only: in a string that
  ends with an escaped backslash it takes the closing quote for an escaped one and runs on, so the
  valid value \<^verbatim>\<open>"a\\"\<close> is refused as unterminated although the string parser reads it.\<close>

theorem skip_string_escaped_backslash:
  "let p = parser_new [0x22, 0x61, 0x5c, 0x5c, 0x22] in
   fst (next_token pf string_parse p) = Inr (String [0x61, 0x5c]) \<and>
   fst (next_token pf ignore_parse p) = Inl (Err_unterminated 6)"
  by (simp add: parser_new_def next_token_def next_char_simps next_token_loop.simps string_parse_def
      string_plain.simps string_escaped.simps string_done_def slice_index_def escaped_char_def
      from_utf8_ascii ignore_parse_def skip_string_def skip_string_loop.simps error_unterminated_def)

text \<open>The escape of a character outside the basic multilingual plane, which JSON writes as a
  pair of surrogates, is refused.\<close>

theorem surrogate_pair_refused:
  "fst (next_token pf string_parse (parser_new (0x22 # 0x5c # lit ''ud83d'' @ 0x5c # lit ''ude00'' @ [0x22]))) =
     Inl (Err_unicode (lit ''d83d'') 7)"
  by (simp add: parser_new_def next_token_def next_char_simps next_token_loop.simps string_parse_def
      string_plain.simps string_escaped.simps slice_index_def unicode_escape_def from_utf8_ascii
      from_str_radix_16_def hex_digit_def char_from_u32_def)

end
