(* ===== verification/Leb128.thy ===== *)
theory Leb128
  imports Prelude
begin

text \<open>
  The LEB128 codec of crates/utils/src/codec/leb128.rs. The macro
  \<^verbatim>\<open>impl_unsigned_leb128\<close> generates the same code for u8, u16, u32, u64 and usize; the
  model is polymorphic in the width of the word and takes the macro's shift table as an
  argument. A \<^verbatim>\<open>usize\<close> is a 64-bit word.
\<close>

section \<open>Encoding\<close>

text \<open>The output vector is the second argument, extended at its end.\<close>

function to_leb128_bytes :: "'a::len word \<Rightarrow> bytes \<Rightarrow> bytes" where
  "to_leb128_bytes value out =
     (if unat value < 0x80 then out @ [ucast value]
      else to_leb128_bytes (drop_bit 7 value) (out @ [ucast ((value AND 0x7f) OR 0x80)]))"
  by pat_completeness auto
termination
  by (relation "measure (\<lambda>(value, out). unat value)")
     (auto simp: unat_drop_bit_eq drop_bit_eq_div [where 'a = nat])

declare to_leb128_bytes.simps [simp del]

text \<open>
  The same loop on an arbitrary \<^verbatim>\<open>Write\<close>: \<open>wr\<close> returns the number of bytes written or an
  error, which ends the loop.
\<close>

function leb128_writer_loop ::
  "('w \<Rightarrow> bytes \<Rightarrow> ('e + nat) \<times> 'w) \<Rightarrow> 'a::len word \<Rightarrow> 'w \<Rightarrow> nat \<Rightarrow> ('e + nat) \<times> 'w" where
  "leb128_writer_loop wr value w bytes_written =
     (if unat value < 0x80 then
        (case wr w [ucast value] of
           (Inl e, w') \<Rightarrow> (Inl e, w')
         | (Inr n, w') \<Rightarrow> (Inr (bytes_written + n), w'))
      else
        (case wr w [ucast ((value AND 0x7f) OR 0x80)] of
           (Inl e, w') \<Rightarrow> (Inl e, w')
         | (Inr n, w') \<Rightarrow> leb128_writer_loop wr (drop_bit 7 value) w' (bytes_written + n)))"
  by pat_completeness auto
termination
  by (relation "measure (\<lambda>(wr, value, w, n). unat value)")
     (auto simp: unat_drop_bit_eq drop_bit_eq_div [where 'a = nat])

declare leb128_writer_loop.simps [simp del]

definition to_leb128_writer ::
  "('w \<Rightarrow> bytes \<Rightarrow> ('e + nat) \<times> 'w) \<Rightarrow> 'a::len word \<Rightarrow> 'w \<Rightarrow> ('e + nat) \<times> 'w" where
  "to_leb128_writer wr value w = leb128_writer_loop wr value w 0"

text \<open>\<^verbatim>\<open>impl Write for Vec<u8>\<close>: appends everything and never fails.\<close>

definition vec_write :: "bytes \<Rightarrow> bytes \<Rightarrow> ('e + nat) \<times> bytes" where
  "vec_write v bs = (Inr (length bs), v @ bs)"

section \<open>Decoding\<close>

fun leb128_pos_loop :: "nat list \<Rightarrow> bytes \<Rightarrow> 'a::len word \<Rightarrow> nat \<Rightarrow> ('a word \<times> nat) option" where
  "leb128_pos_loop (shift # shifts) (byte # bs) result pos =
     (if byte AND 0x80 = 0
      then Some (result OR push_bit shift (ucast byte), pos + 1)
      else leb128_pos_loop shifts bs (result OR push_bit shift (ucast (byte AND 0x7f))) (pos + 1))"
| "leb128_pos_loop _ _ _ _ = None"

definition from_leb128_bytes_pos :: "nat list \<Rightarrow> bytes \<Rightarrow> ('a::len word \<times> nat) option" where
  "from_leb128_bytes_pos shifts bs = leb128_pos_loop shifts bs 0 0"

fun leb128_bytes_loop :: "nat list \<Rightarrow> bytes \<Rightarrow> 'a::len word \<Rightarrow> 'a word option" where
  "leb128_bytes_loop (shift # shifts) (byte # bs) result =
     (if byte AND 0x80 = 0 then Some (result OR push_bit shift (ucast byte))
      else leb128_bytes_loop shifts bs (result OR push_bit shift (ucast (byte AND 0x7f))))"
| "leb128_bytes_loop _ _ _ = None"

definition from_leb128_bytes :: "nat list \<Rightarrow> bytes \<Rightarrow> 'a::len word option" where
  "from_leb128_bytes shifts bs = leb128_bytes_loop shifts bs 0"

text \<open>
  On an iterator with state: \<open>next it\<close> is the next item, if any, and the iterator after
  the call. The shift table is asked first, so a value that is too long leaves the byte
  after the last shift unread.
\<close>

fun leb128_it_loop ::
  "('it \<Rightarrow> u8 option \<times> 'it) \<Rightarrow> nat list \<Rightarrow> 'it \<Rightarrow> 'a::len word \<Rightarrow> 'a word option \<times> 'it" where
  "leb128_it_loop next [] it result = (None, it)"
| "leb128_it_loop next (shift # shifts) it result =
     (case next it of
        (None, it') \<Rightarrow> (None, it')
      | (Some byte, it') \<Rightarrow>
          if byte AND 0x80 = 0 then (Some (result OR push_bit shift (ucast byte)), it')
          else leb128_it_loop next shifts it' (result OR push_bit shift (ucast (byte AND 0x7f))))"

definition from_leb128_it ::
  "('it \<Rightarrow> u8 option \<times> 'it) \<Rightarrow> nat list \<Rightarrow> 'it \<Rightarrow> 'a::len word option \<times> 'it" where
  "from_leb128_it next shifts it = leb128_it_loop next shifts it 0"

text \<open>The slice iterator, and skipping one value of a reader.\<close>

fun slice_next :: "bytes \<Rightarrow> u8 option \<times> bytes" where
  "slice_next [] = (None, [])"
| "slice_next (b # bs) = (Some b, bs)"

fun skip_leb128_it :: "bytes \<Rightarrow> unit option \<times> bytes" where
  "skip_leb128_it [] = (None, [])"
| "skip_leb128_it (byte # bs) = (if byte AND 0x80 = 0 then (Some (), bs) else skip_leb128_it bs)"

fun skip_leb128_loop :: "bytes \<Rightarrow> nat \<Rightarrow> nat option" where
  "skip_leb128_loop [] pos = None"
| "skip_leb128_loop (byte # bs) pos =
     (if byte AND 0x80 = 0 then Some (pos + 1) else skip_leb128_loop bs (pos + 1))"

definition skip_leb128 :: "bytes \<Rightarrow> nat option" where
  "skip_leb128 bs = skip_leb128_loop bs 0"

text \<open>The instantiations of the macro, and the trait methods that forward to them.\<close>

definition u8_shifts :: "nat list" where "u8_shifts = [0]"
definition u16_shifts :: "nat list" where "u16_shifts = [0, 7, 14]"
definition u32_shifts :: "nat list" where "u32_shifts = [0, 7, 14, 21, 28]"
definition u64_shifts :: "nat list" where "u64_shifts = [0, 7, 14, 21, 28, 35, 42, 49, 56, 63]"
definition usize_shifts :: "nat list" where "usize_shifts = [0, 7, 14, 21, 28, 35, 42, 49, 56, 63]"

definition push_leb128 :: "bytes \<Rightarrow> 'a::len word \<Rightarrow> bytes" where
  "push_leb128 buf value = to_leb128_bytes value buf"

definition next_leb128_u32 :: "bytes \<Rightarrow> u32 option \<times> bytes" where
  "next_leb128_u32 = from_leb128_it slice_next u32_shifts"

definition next_leb128_u64 :: "bytes \<Rightarrow> u64 option \<times> bytes" where
  "next_leb128_u64 = from_leb128_it slice_next u64_shifts"

definition next_leb128_usize :: "bytes \<Rightarrow> u64 option \<times> bytes" where
  "next_leb128_usize = from_leb128_it slice_next usize_shifts"

section \<open>The encoder\<close>

lemma to_leb128_bytes_small [simp]:
  "unat v < 0x80 \<Longrightarrow> to_leb128_bytes v out = out @ [ucast v]"
  by (simp add: to_leb128_bytes.simps)

lemma unat_drop_bit_7: "unat (drop_bit 7 v) = unat v div 128" for v :: "'a::len word"
  by (simp add: unat_drop_bit_eq drop_bit_eq_div [where 'a = nat])

lemma to_leb128_bytes_out: "to_leb128_bytes v out = out @ to_leb128_bytes v []"
proof (induction "unat v" arbitrary: v out rule: less_induct)
  case less
  show ?case
  proof (cases "unat v < 0x80")
    case False
    let ?b = "ucast ((v AND 0x7f) OR 0x80) :: u8"
    from False have "unat (drop_bit 7 v) < unat v" by (simp add: unat_drop_bit_7)
    note IH = less [OF this]
    from False IH [of "out @ [?b]"] IH [of "[?b]"] show ?thesis
      by (simp add: to_leb128_bytes.simps [of v])
  qed simp
qed

lemma to_leb128_bytes_large:
  assumes "\<not> unat v < 0x80"
  shows "to_leb128_bytes v [] = ucast ((v AND 0x7f) OR 0x80) # to_leb128_bytes (drop_bit 7 v) []"
  using assms to_leb128_bytes_out [of "drop_bit 7 v" "[ucast ((v AND 0x7f) OR 0x80)]"]
  by (simp add: to_leb128_bytes.simps [of v])

lemma push_leb128_append: "push_leb128 buf v = buf @ push_leb128 [] v"
  unfolding push_leb128_def by (rule to_leb128_bytes_out)

context byte_sink
begin

text \<open>Into such a sink the writer puts exactly the bytes of the encoder, and counts them.\<close>

lemma leb128_writer_loop_sink:
  "leb128_writer_loop wr v w n
     = (Inr (n + length (to_leb128_bytes v [])), foldl push w (to_leb128_bytes v []))"
proof (induction "unat v" arbitrary: v w n rule: less_induct)
  case less
  show ?case
  proof (cases "unat v < 0x80")
    case True
    then show ?thesis by (simp add: leb128_writer_loop.simps wr_one)
  next
    case False
    then have "unat (drop_bit 7 v) < unat v" by (simp add: unat_drop_bit_7)
    from False less [OF this] show ?thesis
      by (simp add: leb128_writer_loop.simps [of wr v] wr_one to_leb128_bytes_large)
  qed
qed

lemma to_leb128_writer_sink:
  "to_leb128_writer wr v w
     = (Inr (length (to_leb128_bytes v [])), foldl push w (to_leb128_bytes v []))"
  by (simp add: to_leb128_writer_def leb128_writer_loop_sink)

end

interpretation vec_sink: byte_sink "vec_write :: bytes \<Rightarrow> bytes \<Rightarrow> ('e + nat) \<times> bytes" "\<lambda>w b. w @ [b]"
  by unfold_locales (simp add: vec_write_def)

lemma foldl_snoc: "foldl (\<lambda>w b. w @ [b]) w bs = w @ bs"
  by (induction bs arbitrary: w) simp_all

section \<open>The decoders\<close>

text \<open>
  The decoder's loop, entered at the shift of the first byte, ors the encoded value into
  its result and stops right after the encoding.
\<close>

context byte_source
begin

lemma leb128_it_loop_encoded:
  fixes v :: "'a::len word"
  assumes "8 \<le> LENGTH('a)" and "unat v < 2 ^ (7 * n)" and "0 < n"
    and "holds it (to_leb128_bytes v [] @ rest)"
  shows "\<exists>it'. leb128_it_loop nx (map (\<lambda>i. s + 7 * i) [0..<n]) it acc = (Some (acc OR push_bit s v), it')
           \<and> holds it' rest"
  using assms(2,3,4)
proof (induction n arbitrary: v s acc it)
  case 0
  then show ?case by simp
next
  case (Suc n)
  have shifts: "map (\<lambda>i. s + 7 * i) [0..<Suc n] = s # map (\<lambda>i. (s + 7) + 7 * i) [0..<n]"
    by (simp add: map_upt_Suc add.assoc del: upt_Suc)
  show ?case
  proof (cases "unat v < 0x80")
    case True
    then show ?thesis
      using Suc.prems(3) nx_holds by (fastforce simp: shifts low_byte_last simp del: upt_Suc)
  next
    case False
    from Suc.prems(3) False obtain it1
      where it1: "nx it = (Some (ucast ((v AND 0x7f) OR 0x80)), it1)"
        "holds it1 (to_leb128_bytes (drop_bit 7 v) [] @ rest)"
      using nx_holds by (fastforce simp: to_leb128_bytes_large)
    have "unat (drop_bit 7 v) < 2 ^ (7 * n)"
      using Suc.prems(1)
      by (simp add: unat_drop_bit_7 power_add div_less_iff_less_mult mult.commute)
    moreover have "0 < n"
      using Suc.prems False by (cases n) auto
    ultimately obtain it' where it': "holds it' rest"
      "leb128_it_loop nx (map (\<lambda>i. (s + 7) + 7 * i) [0..<n]) it1 (acc OR push_bit s (v AND 0x7f))
         = (Some ((acc OR push_bit s (v AND 0x7f)) OR push_bit (s + 7) (drop_bit 7 v)), it')"
      using Suc.IH [OF _ _ it1(2)] by blast
    have "leb128_it_loop nx (map (\<lambda>i. s + 7 * i) [0..<Suc n]) it acc
        = (Some ((acc OR push_bit s (v AND 0x7f)) OR push_bit (s + 7) (drop_bit 7 v)), it')"
      unfolding shifts using it'(2) by (simp add: it1(1) low_byte_continues low_byte_7 assms(1))
    then have "leb128_it_loop nx (map (\<lambda>i. s + 7 * i) [0..<Suc n]) it acc
        = (Some (acc OR push_bit s v), it')"
      by (simp only: word_split_7 [of s v] or.assoc)
    with it'(1) show ?thesis by blast
  qed
qed

lemma from_leb128_it_encoded:
  fixes v :: "'a::len word"
  assumes "shifts = map (\<lambda>i. 7 * i) [0..<n]" and "8 \<le> LENGTH('a)" and "unat v < 2 ^ (7 * n)" and "0 < n"
    and "holds it (to_leb128_bytes v [] @ rest)"
  shows "\<exists>it'. from_leb128_it nx shifts it = (Some v, it') \<and> holds it' rest"
  using leb128_it_loop_encoded [of v n it rest 0 0] assms by (simp add: from_leb128_it_def)

end

interpretation slice_source: byte_source slice_next "(=)"
  by unfold_locales auto

lemma leb128_it_loop_Nil [simp]: "leb128_it_loop slice_next shifts [] acc = (None, [])"
  by (cases shifts) simp_all

text \<open>The three decoders agree: positions and values are those of the iterator's loop.\<close>

lemma leb128_pos_loop_it:
  "leb128_pos_loop shifts bs acc pos =
     (case leb128_it_loop slice_next shifts bs acc of
        (Some v, bs') \<Rightarrow> Some (v, pos + (length bs - length bs')) | (None, _) \<Rightarrow> None)"
  and leb128_it_loop_length: "length (snd (leb128_it_loop slice_next shifts bs acc)) \<le> length bs"
proof (induction shifts bs acc pos rule: leb128_pos_loop.induct)
  case (1 shift shifts byte bs acc pos)
  show "length (snd (leb128_it_loop slice_next (shift # shifts) (byte # bs) acc)) \<le> length (byte # bs)"
    using "1"(2) by (auto simp: le_SucI)
  show "leb128_pos_loop (shift # shifts) (byte # bs) acc pos =
     (case leb128_it_loop slice_next (shift # shifts) (byte # bs) acc of
        (Some v, bs') \<Rightarrow> Some (v, pos + (length (byte # bs) - length bs')) | (None, _) \<Rightarrow> None)"
    using 1 by (auto split: prod.splits option.splits simp: Suc_diff_le)
qed auto

lemma leb128_bytes_loop_it:
  "leb128_bytes_loop shifts bs acc = fst (leb128_it_loop slice_next shifts bs acc)"
  by (induction shifts bs acc rule: leb128_bytes_loop.induct) auto


lemma shift_tables:
  "u8_shifts = map (\<lambda>i. 7 * i) [0..<1]" "u16_shifts = map (\<lambda>i. 7 * i) [0..<3]"
  "u32_shifts = map (\<lambda>i. 7 * i) [0..<5]" "u64_shifts = map (\<lambda>i. 7 * i) [0..<10]"
  "usize_shifts = map (\<lambda>i. 7 * i) [0..<10]"
  by (simp_all add: u8_shifts_def u16_shifts_def u32_shifts_def u64_shifts_def usize_shifts_def upt_rec)

lemma unat_less_exp: "LENGTH('a) \<le> k \<Longrightarrow> unat (v :: 'a::len word) < 2 ^ k"
  by (rule less_le_trans [OF unsigned_less]) (simp add: power_increasing)

lemma from_leb128_it_width:
  fixes v :: "'a::len word"
  assumes "shifts = map (\<lambda>i. 7 * i) [0..<n]" and "8 \<le> LENGTH('a)" and "LENGTH('a) \<le> 7 * n"
  shows "from_leb128_it slice_next shifts (to_leb128_bytes v [] @ rest) = (Some v, rest)"
  using slice_source.from_leb128_it_encoded [OF assms(1,2) unat_less_exp [OF assms(3)] _ refl] assms
  by fastforce

lemma from_leb128_it_u16: "from_leb128_it slice_next u16_shifts (to_leb128_bytes v [] @ rest) = (Some v, rest)"
  for v :: u16
  by (rule from_leb128_it_width [OF shift_tables(2)]) simp_all

interpretation leb_u32: stream_codec "push_leb128 [] :: u32 \<Rightarrow> bytes" next_leb128_u32
  unfolding push_leb128_def next_leb128_u32_def
  by unfold_locales (rule from_leb128_it_width [OF shift_tables(3)], simp_all)

interpretation leb_u64: stream_codec "push_leb128 [] :: u64 \<Rightarrow> bytes" next_leb128_u64
  unfolding push_leb128_def next_leb128_u64_def
  by unfold_locales (rule from_leb128_it_width [OF shift_tables(4)], simp_all)

interpretation leb_usize: stream_codec "push_leb128 [] :: u64 \<Rightarrow> bytes" next_leb128_usize
  unfolding push_leb128_def next_leb128_usize_def
  by unfold_locales (rule from_leb128_it_width [OF shift_tables(5)], simp_all)

text \<open>The number of bytes an encoding takes, exactly.\<close>

lemma length_to_leb128_bytes:
  "0 < n \<Longrightarrow> length (to_leb128_bytes v []) \<le> n \<longleftrightarrow> unat v < 2 ^ (7 * n)"
proof (induction n arbitrary: v)
  case 0
  then show ?case by simp
next
  case (Suc n)
  show ?case
  proof (cases "unat v < 0x80")
    case True
    have "(2::nat) ^ 7 \<le> 2 ^ (7 * Suc n)" by (rule power_increasing) simp_all
    with True show ?thesis by simp
  next
    case False
    then have ne: "to_leb128_bytes (drop_bit 7 v) [] \<noteq> []"
      by (metis append_is_Nil_conv list.distinct(1) to_leb128_bytes_large to_leb128_bytes_small)
    show ?thesis
    proof (cases n)
      case 0
      with False ne show ?thesis by (simp add: to_leb128_bytes_large)
    next
      case (Suc m)
      with False Suc.IH [of "drop_bit 7 v"] show ?thesis
        by (simp add: to_leb128_bytes_large unat_drop_bit_7 power_add div_less_iff_less_mult mult.commute)
    qed
  qed
qed

lemma skip_leb128_loop_encoded:
  fixes v :: "'a::len word"
  assumes "8 \<le> LENGTH('a)"
  shows "skip_leb128_loop (to_leb128_bytes v [] @ rest) pos = Some (pos + length (to_leb128_bytes v []))"
proof (induction "unat v" arbitrary: v pos rule: less_induct)
  case less
  show ?case
  proof (cases "unat v < 0x80")
    case True
    then show ?thesis by (simp add: low_byte_last)
  next
    case False
    then have "unat (drop_bit 7 v) < unat v" by (simp add: unat_drop_bit_7)
    from False less [OF this] assms show ?thesis
      by (simp add: to_leb128_bytes_large low_byte_continues)
  qed
qed

lemma from_leb128_bytes_pos_width:
  fixes v :: "'a::len word"
  assumes "shifts = map (\<lambda>i. 7 * i) [0..<n]" and "8 \<le> LENGTH('a)" and "LENGTH('a) \<le> 7 * n"
  shows "from_leb128_bytes_pos shifts (to_leb128_bytes v [] @ rest) = Some (v, length (to_leb128_bytes v []))"
  using from_leb128_it_width [OF assms, of v rest]
  by (simp add: from_leb128_bytes_pos_def leb128_pos_loop_it from_leb128_it_def)

section \<open>Properties\<close>

text \<open>
  C11. Round trip: for u16, u32, u64 and usize, decoding a buffer that starts with the
  encoding of a value returns that value and the length of its encoding, whatever follows.
\<close>

theorem leb128_roundtrip:
  fixes a :: u16 and b :: u32 and c :: u64
  shows "from_leb128_bytes_pos u16_shifts (to_leb128_bytes a [] @ rest) = Some (a, length (to_leb128_bytes a []))
     \<and> from_leb128_bytes_pos u32_shifts (to_leb128_bytes b [] @ rest) = Some (b, length (to_leb128_bytes b []))
     \<and> from_leb128_bytes_pos u64_shifts (to_leb128_bytes c [] @ rest) = Some (c, length (to_leb128_bytes c []))
     \<and> from_leb128_bytes_pos usize_shifts (to_leb128_bytes c [] @ rest) = Some (c, length (to_leb128_bytes c []))"
  by (intro conjI from_leb128_bytes_pos_width [OF shift_tables(2)] from_leb128_bytes_pos_width [OF shift_tables(3)]
      from_leb128_bytes_pos_width [OF shift_tables(4)] from_leb128_bytes_pos_width [OF shift_tables(5)]) simp_all

text \<open>
  The u8 instance has a shift table of one entry, so a u8 of 128 or more is encoded in
  two bytes that its decoder rejects: it round-trips exactly below 128.
\<close>

theorem leb128_u8_decodes_below_128:
  "from_leb128_bytes u8_shifts (to_leb128_bytes v []) = (if unat v < 128 then Some v else None)"
  for v :: u8
proof (cases "unat v < 128")
  case True
  with low_byte_last(1) [of v] show ?thesis
    by (simp add: from_leb128_bytes_def u8_shifts_def)
next
  case False
  then show ?thesis
    using low_byte_continues [of v]
    by (simp add: from_leb128_bytes_def u8_shifts_def to_leb128_bytes_large)
qed

text \<open>
  C35. Size: an encoding takes at most n bytes exactly when the value fits 7n bits; so a
  u32 takes at most five bytes, a u64 at most ten, and \<^verbatim>\<open>skip_leb128\<close> skips all of them.
\<close>

theorem leb128_size:
  fixes b :: u32 and c :: u64
  shows "(\<forall>n. length (to_leb128_bytes c []) \<le> Suc n \<longleftrightarrow> unat c < 2 ^ (7 * Suc n))
     \<and> length (to_leb128_bytes b []) \<le> 5 \<and> length (to_leb128_bytes c []) \<le> 10
     \<and> skip_leb128 (to_leb128_bytes c [] @ rest) = Some (length (to_leb128_bytes c []))"
proof (intro conjI allI)
  show "length (to_leb128_bytes c []) \<le> Suc n \<longleftrightarrow> unat c < 2 ^ (7 * Suc n)" for n
    by (rule length_to_leb128_bytes) simp
  show "length (to_leb128_bytes b []) \<le> 5"
    using length_to_leb128_bytes [of 5 b] unat_less_exp [of "7 * 5" b] by simp
  show "length (to_leb128_bytes c []) \<le> 10"
    using length_to_leb128_bytes [of 10 c] unat_less_exp [of "7 * 10" c] by simp
  show "skip_leb128 (to_leb128_bytes c [] @ rest) = Some (length (to_leb128_bytes c []))"
    by (simp add: skip_leb128_def skip_leb128_loop_encoded)
qed

end
