(* ===== verification/JmapTypes.thy ===== *)
theory JmapTypes
  imports JsonProps Leb128
begin

text \<open>
  The enumerations of crates/jmap-proto/src/types: access rights (\<^verbatim>\<open>acl.rs\<close>), data types
  (\<^verbatim>\<open>type_state.rs\<close>), collections (\<^verbatim>\<open>collection.rs\<close>) and message keywords (\<^verbatim>\<open>keyword.rs\<close>),
  with their names, their JSON parsers, their numbers in bitmaps and their stored form. The
  parsers compare the bytes of a name packed into a 128-bit integer.
\<close>

section \<open>Packed names\<close>

text \<open>The loop body that packs the next byte, and leaves after sixteen.\<close>

definition pack_byte :: "u8 \<Rightarrow> 128 word \<times> nat \<Rightarrow> (128 word \<times> nat) + 128 word" where
  "pack_byte ch s = (case s of (hash, shift) \<Rightarrow>
     if shift < 128 then Inl (hash OR push_bit shift (ucast ch), shift + 8) else Inr hash)"

section \<open>Access rights\<close>

datatype acl =
    A_Read | A_Modify | A_Delete | A_ReadItems | A_AddItems | A_ModifyItems | A_RemoveItems
  | A_CreateChild | A_Administer | A_Submit | A_None

definition acl_of_hash :: "128 word \<Rightarrow> acl option" where
  "acl_of_hash hash =
     (if hash = 0x64616572 then Some A_Read
      else if hash = 0x796669646f6d then Some A_Modify
      else if hash = 0x6574656c6564 then Some A_Delete
      else if hash = 0x00736d65744964616572 then Some A_ReadItems
      else if hash = 0x736d657449646461 then Some A_AddItems
      else if hash = 0x00736d657449796669646f6d then Some A_ModifyItems
      else if hash = 0x00736d65744965766f6d6572 then Some A_RemoveItems
      else if hash = 0x00646c696843657461657263 then Some A_CreateChild
      else if hash = 0x72657473696e696d6461 then Some A_Administer
      else if hash = 0x74696d627573 then Some A_Submit
      else None)"

definition acl_parse :: "parser \<Rightarrow> acl presult" where
  "acl_parse p =
     pbind (while_unescaped pack_byte (0, 0) p) (\<lambda>r p.
       case r of
         Inr _ \<Rightarrow> fail_value p
       | Inl (hash, _) \<Rightarrow> (case acl_of_hash hash of Some a \<Rightarrow> (Inr a, p) | None \<Rightarrow> fail_value p))"

fun acl_as_str :: "acl \<Rightarrow> bytes" where
  "acl_as_str A_Read = lit ''read''"
| "acl_as_str A_Modify = lit ''modify''"
| "acl_as_str A_Delete = lit ''delete''"
| "acl_as_str A_ReadItems = lit ''readItems''"
| "acl_as_str A_AddItems = lit ''addItems''"
| "acl_as_str A_ModifyItems = lit ''modifyItems''"
| "acl_as_str A_RemoveItems = lit ''removeItems''"
| "acl_as_str A_CreateChild = lit ''createChild''"
| "acl_as_str A_Administer = lit ''administer''"
| "acl_as_str A_Submit = lit ''submit''"
| "acl_as_str A_None = lit []"

fun acl_into_u64 :: "acl \<Rightarrow> u64" where
  "acl_into_u64 A_Read = 0"
| "acl_into_u64 A_Modify = 1"
| "acl_into_u64 A_Delete = 2"
| "acl_into_u64 A_ReadItems = 3"
| "acl_into_u64 A_AddItems = 4"
| "acl_into_u64 A_ModifyItems = 5"
| "acl_into_u64 A_RemoveItems = 6"
| "acl_into_u64 A_CreateChild = 7"
| "acl_into_u64 A_Administer = 8"
| "acl_into_u64 A_Submit = 9"
| "acl_into_u64 A_None = 10"

definition acl_from_u64 :: "u64 \<Rightarrow> acl" where
  "acl_from_u64 v =
     (if v = 0 then A_Read else if v = 1 then A_Modify else if v = 2 then A_Delete
      else if v = 3 then A_ReadItems else if v = 4 then A_AddItems else if v = 5 then A_ModifyItems
      else if v = 6 then A_RemoveItems else if v = 7 then A_CreateChild
      else if v = 8 then A_Administer else if v = 9 then A_Submit else A_None)"

definition acl_max :: u64 where
  "acl_max = acl_into_u64 A_None"

definition acl_is_valid :: "acl \<Rightarrow> bool" where
  "acl_is_valid a \<longleftrightarrow> a \<noteq> A_None"

section \<open>Data types\<close>

datatype data_type =
    D_Email | D_EmailDelivery | D_EmailSubmission | D_Mailbox | D_Thread | D_Identity | D_Core
  | D_PushSubscription | D_SearchSnippet | D_VacationResponse | D_Mdn | D_Quota | D_SieveScript | D_None


definition data_type_of_hash :: "128 word \<Rightarrow> data_type option" where
  "data_type_of_hash hash =
     (if hash = 0x006c69616d45 then Some D_Email
      else if hash = 0x0079726576696c65446c69616d45 then Some D_EmailDelivery
      else if hash = 0x006e6f697373696d6275536c69616d45 then Some D_EmailSubmission
      else if hash = 0x00786f626c69614d then Some D_Mailbox
      else if hash = 0x646165726854 then Some D_Thread
      else if hash = 0x797469746e656449 then Some D_Identity
      else if hash = 0x65726f43 then Some D_Core
      else if hash = 0x6e6f6974706972637362755368737550 then Some D_PushSubscription
      else if hash = 0x0074657070696e53686372616553 then Some D_SearchSnippet
      else if hash = 0x65736e6f707365526e6f697461636156 then Some D_VacationResponse
      else if hash = 0x004e444d then Some D_Mdn
      else if hash = 0x0061746f7551 then Some D_Quota
      else if hash = 0x007470697263536576656953 then Some D_SieveScript
      else None)"

definition data_type_parse :: "parser \<Rightarrow> data_type presult" where
  "data_type_parse p =
     pbind (while_unescaped pack_byte (0, 0) p) (\<lambda>r p.
       case r of
         Inr _ \<Rightarrow> fail_value p
       | Inl (hash, _) \<Rightarrow>
           (case data_type_of_hash hash of Some d \<Rightarrow> (Inr d, p) | None \<Rightarrow> fail_value p))"

fun pack_str :: "bytes \<Rightarrow> 128 word \<times> nat \<Rightarrow> 128 word option" where
  "pack_str [] (hash, shift) = Some hash"
| "pack_str (ch # value) (hash, shift) =
     (if shift < 128 then pack_str value (hash OR push_bit shift (ucast ch), shift + 8) else None)"

definition data_type_try_from :: "bytes \<Rightarrow> data_type option" where
  "data_type_try_from value =
     (case pack_str value (0, 0) of None \<Rightarrow> None | Some hash \<Rightarrow> data_type_of_hash hash)"

fun data_type_as_str :: "data_type \<Rightarrow> bytes" where
  "data_type_as_str D_Email = lit ''Email''"
| "data_type_as_str D_EmailDelivery = lit ''EmailDelivery''"
| "data_type_as_str D_EmailSubmission = lit ''EmailSubmission''"
| "data_type_as_str D_Mailbox = lit ''Mailbox''"
| "data_type_as_str D_Thread = lit ''Thread''"
| "data_type_as_str D_Identity = lit ''Identity''"
| "data_type_as_str D_Core = lit ''Core''"
| "data_type_as_str D_PushSubscription = lit ''PushSubscription''"
| "data_type_as_str D_SearchSnippet = lit ''SearchSnippet''"
| "data_type_as_str D_VacationResponse = lit ''VacationResponse''"
| "data_type_as_str D_Mdn = lit ''MDN''"
| "data_type_as_str D_Quota = lit ''Quota''"
| "data_type_as_str D_SieveScript = lit ''SieveScript''"
| "data_type_as_str D_None = lit []"

fun data_type_into_u64 :: "data_type \<Rightarrow> u64" where
  "data_type_into_u64 D_Email = 0"
| "data_type_into_u64 D_EmailDelivery = 1"
| "data_type_into_u64 D_EmailSubmission = 2"
| "data_type_into_u64 D_Mailbox = 3"
| "data_type_into_u64 D_Thread = 4"
| "data_type_into_u64 D_Identity = 5"
| "data_type_into_u64 D_Core = 6"
| "data_type_into_u64 D_PushSubscription = 7"
| "data_type_into_u64 D_SearchSnippet = 8"
| "data_type_into_u64 D_VacationResponse = 9"
| "data_type_into_u64 D_Mdn = 10"
| "data_type_into_u64 D_Quota = 11"
| "data_type_into_u64 D_SieveScript = 12"
| "data_type_into_u64 D_None = 13"

definition data_type_from_u64 :: "u64 \<Rightarrow> data_type" where
  "data_type_from_u64 v =
     (if v = 0 then D_Email
      else if v = 1 then D_EmailDelivery
      else if v = 2 then D_EmailSubmission
      else if v = 3 then D_Mailbox
      else if v = 4 then D_Thread
      else if v = 5 then D_Identity
      else if v = 6 then D_Core
      else if v = 7 then D_PushSubscription
      else if v = 8 then D_SearchSnippet
      else if v = 9 then D_VacationResponse
      else if v = 10 then D_Mdn
      else if v = 11 then D_Quota
      else if v = 12 then D_SieveScript
      else D_None)"

definition data_type_max :: u64 where
  "data_type_max = data_type_into_u64 D_None"

definition data_type_is_valid :: "data_type \<Rightarrow> bool" where
  "data_type_is_valid d \<longleftrightarrow> d \<noteq> D_None"

definition data_type_serialize_into :: "data_type \<Rightarrow> bytes \<Rightarrow> bytes" where
  "data_type_serialize_into d buf = buf @ [ucast (data_type_into_u64 d)]"

definition data_type_deserialize_from :: "bytes \<Rightarrow> data_type option \<times> bytes" where
  "data_type_deserialize_from bytes =
     (case bytes of
        [] \<Rightarrow> (None, [])
      | b # bytes' \<Rightarrow>
          ((if b = 0 then Some D_Email else if b = 1 then Some D_EmailDelivery
            else if b = 2 then Some D_EmailSubmission else if b = 3 then Some D_Mailbox
            else if b = 4 then Some D_Thread else if b = 5 then Some D_Identity
            else if b = 6 then Some D_Core else if b = 7 then Some D_PushSubscription
            else if b = 8 then Some D_SearchSnippet else if b = 9 then Some D_VacationResponse
            else if b = 10 then Some D_Mdn else if b = 11 then Some D_Quota
            else if b = 12 then Some D_SieveScript else None), bytes'))"

section \<open>Collections\<close>

datatype collection =
    C_Email | C_Mailbox | C_Thread | C_Identity | C_EmailSubmission | C_SieveScript
  | C_PushSubscription | C_Principal | C_None

definition collection_from_u8 :: "u8 \<Rightarrow> collection" where
  "collection_from_u8 v =
     (if v = 0 then C_Email
      else if v = 1 then C_Mailbox
      else if v = 2 then C_Thread
      else if v = 3 then C_Identity
      else if v = 4 then C_EmailSubmission
      else if v = 5 then C_SieveScript
      else if v = 6 then C_PushSubscription
      else if v = 7 then C_Principal
      else C_None)"

definition collection_from_u64 :: "u64 \<Rightarrow> collection" where
  "collection_from_u64 v =
     (if v = 0 then C_Email
      else if v = 1 then C_Mailbox
      else if v = 2 then C_Thread
      else if v = 3 then C_Identity
      else if v = 4 then C_EmailSubmission
      else if v = 5 then C_SieveScript
      else if v = 6 then C_PushSubscription
      else if v = 7 then C_Principal
      else C_None)"

fun collection_discr :: "collection \<Rightarrow> nat" where
  "collection_discr C_Email = 0"
| "collection_discr C_Mailbox = 1"
| "collection_discr C_Thread = 2"
| "collection_discr C_Identity = 3"
| "collection_discr C_EmailSubmission = 4"
| "collection_discr C_SieveScript = 5"
| "collection_discr C_PushSubscription = 6"
| "collection_discr C_Principal = 7"
| "collection_discr C_None = 8"

definition collection_into_u8 :: "collection \<Rightarrow> u8" where
  "collection_into_u8 v = of_nat (collection_discr v)"

definition collection_into_u64 :: "collection \<Rightarrow> u64" where
  "collection_into_u64 v = of_nat (collection_discr v)"

fun collection_data_type :: "collection \<Rightarrow> data_type option" where
  "collection_data_type C_Email = Some D_Email"
| "collection_data_type C_Mailbox = Some D_Mailbox"
| "collection_data_type C_Thread = Some D_Thread"
| "collection_data_type C_Identity = Some D_Identity"
| "collection_data_type C_EmailSubmission = Some D_EmailSubmission"
| "collection_data_type C_SieveScript = Some D_SieveScript"
| "collection_data_type C_PushSubscription = Some D_PushSubscription"
| "collection_data_type _ = None"

fun collection_display :: "collection \<Rightarrow> bytes" where
  "collection_display C_PushSubscription = lit ''pushSubscription''"
| "collection_display C_Email = lit ''email''"
| "collection_display C_Mailbox = lit ''mailbox''"
| "collection_display C_Thread = lit ''thread''"
| "collection_display C_Identity = lit ''identity''"
| "collection_display C_EmailSubmission = lit ''emailSubmission''"
| "collection_display C_SieveScript = lit ''sieveScript''"
| "collection_display C_Principal = lit ''principal''"
| "collection_display C_None = lit []"

definition collection_max :: u64 where
  "collection_max = collection_into_u64 C_None"

definition collection_is_valid :: "collection \<Rightarrow> bool" where
  "collection_is_valid c \<longleftrightarrow> c \<noteq> C_None"

section \<open>Items of bitmaps\<close>

lemma u64_less_range:
  "unat (v::u64) < 10 \<Longrightarrow> v \<in> {0, 1, 2, 3, 4, 5, 6, 7, 8, 9}"
  "unat (v::u64) < 13 \<Longrightarrow> v \<in> {0, 1, 2, 3, 4, 5, 6, 7, 8, 9, 10, 11, 12}"
  "unat (v::u64) < 8 \<Longrightarrow> v \<in> {0, 1, 2, 3, 4, 5, 6, 7}"
proof -
  have "n < 13 \<Longrightarrow> n \<in> {0, 1, 2, 3, 4, 5, 6, 7, 8, 9, 10, 11, 12}" for n :: nat
    unfolding insert_iff empty_iff by presburger
  note n = this [of "unat v"]
  show "unat v < 13 \<Longrightarrow> v \<in> {0, 1, 2, 3, 4, 5, 6, 7, 8, 9, 10, 11, 12}"
    "unat v < 10 \<Longrightarrow> v \<in> {0, 1, 2, 3, 4, 5, 6, 7, 8, 9}" "unat v < 8 \<Longrightarrow> v \<in> {0, 1, 2, 3, 4, 5, 6, 7}"
    using n by (auto simp: word_unat_eq_iff)
qed

interpretation acl_bitmap: bitmap_item acl_max acl_into_u64 acl_from_u64 acl_is_valid
proof
  show "unat (acl_into_u64 t) < unat acl_max" "acl_from_u64 (acl_into_u64 t) = t" if "acl_is_valid t" for t
    using that by (cases t; simp add: acl_is_valid_def acl_max_def acl_from_u64_def)+
  show "acl_into_u64 (acl_from_u64 v) = v" "acl_is_valid (acl_from_u64 v)" if "unat v < unat acl_max" for v
    using u64_less_range(1) [of v] that by (auto simp: acl_max_def acl_from_u64_def acl_is_valid_def)
qed (simp_all add: acl_max_def)

interpretation data_type_bitmap: bitmap_item data_type_max data_type_into_u64 data_type_from_u64 data_type_is_valid
proof
  show "unat (data_type_into_u64 t) < unat data_type_max" "data_type_from_u64 (data_type_into_u64 t) = t"
    if "data_type_is_valid t" for t
    using that by (cases t; simp add: data_type_is_valid_def data_type_max_def data_type_from_u64_def)+
  show "data_type_into_u64 (data_type_from_u64 v) = v" "data_type_is_valid (data_type_from_u64 v)"
    if "unat v < unat data_type_max" for v
    using u64_less_range(2) [of v] that
    by (auto simp: data_type_max_def data_type_from_u64_def data_type_is_valid_def)
qed (simp_all add: data_type_max_def)

interpretation collection_bitmap: bitmap_item collection_max collection_into_u64 collection_from_u64 collection_is_valid
proof
  show "unat (collection_into_u64 t) < unat collection_max" "collection_from_u64 (collection_into_u64 t) = t"
    if "collection_is_valid t" for t
    using that
    by (cases t; simp add: collection_is_valid_def collection_max_def collection_from_u64_def collection_into_u64_def)+
  show "collection_into_u64 (collection_from_u64 v) = v" "collection_is_valid (collection_from_u64 v)"
    if "unat v < unat collection_max" for v
    using u64_less_range(3) [of v] that
    by (auto simp: collection_max_def collection_from_u64_def collection_into_u64_def collection_is_valid_def)
qed (simp_all add: collection_max_def collection_into_u64_def)

section \<open>Names and their packed form\<close>

fun pack_from :: "nat \<Rightarrow> bytes \<Rightarrow> 128 word" where
  "pack_from s [] = 0"
| "pack_from s (c # w) = push_bit s (ucast c) OR pack_from (s + 8) w"

lemma run_pack_byte:
  "s + 8 * length w \<le> 128 \<Longrightarrow> run pack_byte (h, s) w = Some (h OR pack_from s w, s + 8 * length w)"
  by (induction w arbitrary: h s) (simp_all add: pack_byte_def or.assoc)

lemma pack_str_pack:
  "s + 8 * length w \<le> 128 \<Longrightarrow> pack_str w (h, s) = Some (h OR pack_from s w)"
  by (induction w arbitrary: h s) (simp_all add: or.assoc)

lemma pack_str_long: "128 < s + 8 * length w \<Longrightarrow> s \<le> 128 \<Longrightarrow> 8 dvd s \<Longrightarrow> pack_str w (h, s) = None"
  by (induction w arbitrary: h s) (auto elim!: dvdE)

definition byte_at :: "bytes \<Rightarrow> nat \<Rightarrow> u8" where
  "byte_at w k = (if k < length w then w ! k else 0)"

lemma bit_pack_from:
  "bit (pack_from s w) i \<longleftrightarrow> i < 128 \<and> s \<le> i \<and> bit (byte_at w ((i - s) div 8)) ((i - s) mod 8)"
proof (induction w arbitrary: s)
  case (Cons c w)
  consider "i < s" | "s \<le> i" "i < s + 8" | "s + 8 \<le> i" by linarith
  then show ?case
  proof cases
    case 2
    then have "(i - s) div 8 = 0" "(i - s) mod 8 = i - s" "i - s < 8" by auto
    with 2 Cons show ?thesis
      by (auto simp: bit_simps byte_at_def)
  next
    case 3
    then have "(i - s) div 8 = Suc ((i - (s + 8)) div 8)" "(i - s) mod 8 = (i - (s + 8)) mod 8"
      using div_add_self2 [of 8 "i - (s + 8)"] mod_add_self2 [of "i - (s + 8)" 8] by simp_all
    with 3 Cons show ?thesis
      using bit_imp_le_length [of c "i - s"] by (auto simp: bit_simps byte_at_def)
  qed (auto simp: Cons bit_simps)
qed (simp add: byte_at_def)

lemma pack_inject:
  assumes "pack_from 0 w = pack_from 0 v" "k < 16"
  shows "byte_at w k = byte_at v k"
proof (rule bit_word_eqI)
  fix n :: nat assume "n < LENGTH(8)"
  then have "n < 8" by simp
  with assms(2) have "8 * k + n < 128" "(8 * k + n) div 8 = k" "(8 * k + n) mod 8 = n"
    by auto
  then show "bit (byte_at w k) n \<longleftrightarrow> bit (byte_at v k) n"
    using bit_pack_from [of 0 w "8 * k + n"] bit_pack_from [of 0 v "8 * k + n"] assms(1) by simp
qed

text \<open>Two strings of at most sixteen bytes pack alike iff they differ in trailing zero bytes.\<close>

lemma pack_eq_iff:
  assumes "length w \<le> 16" "length v \<le> 16" "0 \<notin> set v"
  shows "pack_from 0 w = pack_from 0 v \<longleftrightarrow> (\<exists>n. w = v @ replicate n 0)"
proof
  assume e: "pack_from 0 w = pack_from 0 v"
  have k: "byte_at w k = byte_at v k" for k
    using pack_inject [OF e] assms by (cases "k < 16") (auto simp: byte_at_def)
  have len: "length v \<le> length w"
  proof (rule ccontr)
    assume "\<not> length v \<le> length w"
    then have "byte_at w (length v - 1) = 0" "byte_at v (length v - 1) \<in> set v"
      by (auto simp: byte_at_def)
    with k assms(3) show False by metis
  qed
  have "w = v @ replicate (length w - length v) 0"
  proof (rule nth_equalityI)
    show "length w = length (v @ replicate (length w - length v) 0)" using len by simp
    show "w ! i = (v @ replicate (length w - length v) 0) ! i" if "i < length w" for i
      using k [of i] that len by (auto simp: byte_at_def nth_append split: if_splits)
  qed
  then show "\<exists>n. w = v @ replicate n 0" ..
next
  assume "\<exists>n. w = v @ replicate n 0"
  then obtain n where w: "w = v @ replicate n 0" ..
  have "byte_at w k = byte_at v k" for k
    by (auto simp: w byte_at_def nth_append)
  then show "pack_from 0 w = pack_from 0 v"
    by (intro bit_word_eqI) (simp add: bit_pack_from)
qed

text \<open>
  The interface of a table of packed names: the table maps exactly the packed names to their
  values, and a name is at most sixteen plain bytes, none of them zero.
\<close>

locale packed_names =
  fixes of_hash :: "128 word \<Rightarrow> 'a option"
    and name :: "'a \<Rightarrow> bytes"
    and named :: "'a \<Rightarrow> bool"
  assumes of_hash_iff: "of_hash h = Some a \<longleftrightarrow> named a \<and> h = pack_from 0 (name a)"
    and name_length: "named a \<Longrightarrow> length (name a) \<le> 16"
    and name_plain: "named a \<Longrightarrow> list_all plain (name a)"
    and name_nonzero: "named a \<Longrightarrow> 0 \<notin> set (name a)"
begin

definition parse :: "parser \<Rightarrow> 'a presult" where
  "parse p =
     pbind (while_unescaped pack_byte (0, 0) p) (\<lambda>r p.
       case r of
         Inr _ \<Rightarrow> fail_value p
       | Inl (hash, _) \<Rightarrow> (case of_hash hash of Some a \<Rightarrow> (Inr a, p) | None \<Rightarrow> fail_value p))"

lemma parse_keeps: "keeps p (snd (parse p))"
  unfolding parse_def
  by (rule keeps_pbind) (auto simp: while_unescaped_keeps fail_value_keeps split: sum.split option.split)

lemma parse_fuelled: "fuelled (parse p)"
  unfolding parse_def
  by (rule fuelled_pbind) (auto simp: while_unescaped_fuelled fail_value_fuelled split: sum.split option.split)

lemma of_hash_pack:
  "length w \<le> 16 \<Longrightarrow> of_hash (pack_from 0 w) = Some a \<longleftrightarrow> named a \<and> (\<exists>n. w = name a @ replicate n 0)"
  using pack_eq_iff [of w "name a"] name_length [of a] name_nonzero [of a] by (auto simp: of_hash_iff)

lemma fail_value_error: "fst (fail_value p) = Inl (fst (error_value p))"
  by (cases "error_value p") simp

lemma parse_short:
  assumes "list_all plain w" "length w \<le> 16" "p_iter p = w @ 0x22 # rest"
  shows "parse p = (case of_hash (pack_from 0 w) of
      Some a \<Rightarrow> (Inr a, past_quote p w rest) | None \<Rightarrow> fail_value (past_quote p w rest))"
  using while_unescaped_plain [OF assms(1,3) run_pack_byte [of 0 w 0]] assms(2)
  by (simp add: parse_def split: option.split)

lemma parse_long:
  assumes "list_all plain w" "16 < length w" "p_iter p = w @ 0x22 # rest"
  shows "\<exists>e. fst (parse p) = Inl e"
proof -
  let ?v = "take 16 w"
  obtain c u where w: "w = ?v @ c # u"
    using assms(2) by (metis id_take_nth_drop)
  have plain: "list_all plain ?v" "plain c"
    using assms(1) by (subst (asm) w, simp)+
  have len: "length ?v = 16" using assms(2) by simp
  have "run pack_byte (0, 0) ?v = Some (pack_from 0 ?v, 128)"
    using run_pack_byte [of 0 ?v 0] len by simp
  moreover have "pack_byte c (pack_from 0 ?v, 128) = Inr (pack_from 0 ?v)"
    by (simp add: pack_byte_def)
  moreover have "p_iter p = ?v @ c # u @ 0x22 # rest"
    using assms(3) w by simp
  ultimately have "\<exists>q. while_unescaped pack_byte (0, 0) p = (Inr (Inr (pack_from 0 ?v)), q)"
    using while_unescaped_leaves [OF plain, of p "u @ 0x22 # rest" pack_byte "(0, 0)" "(pack_from 0 ?v, 128)"]
    by simp
  then show ?thesis
    by (auto simp: parse_def fail_value_error)
qed

text \<open>A string token is accepted iff it is a name, up to zero bytes after it.\<close>

lemma next_token_parse_iff:
  assumes "p_next_ch p = None" "p_iter p = 0x22 # w @ 0x22 # rest" "list_all plain w"
  shows "fst (next_token pf parse p) = Inr (String a) \<longleftrightarrow>
    named a \<and> length w \<le> 16 \<and> (\<exists>n. w = name a @ replicate n 0)"
proof -
  let ?p = "in_string p (w @ 0x22 # rest)"
  have it: "p_iter ?p = w @ 0x22 # rest" by (simp add: in_string_def)
  have err: "fst (next_token pf parse p) \<noteq> Inr (String a)" if "fst (parse ?p) = Inl e" for e
    using next_token_string_error [OF assms(1,2), of parse e "snd (parse ?p)"] that by (metis fst_conv prod.collapse sum.distinct(1))
  show ?thesis
  proof (cases "length w \<le> 16")
    case True
    show ?thesis
    proof (cases "of_hash (pack_from 0 w)")
      case None
      then have "\<exists>e. fst (parse ?p) = Inl e"
        using parse_short [OF assms(3) True it] by (simp add: fail_value_error)
      with None show ?thesis
        using err of_hash_pack [OF True, of a] by auto
    next
      case (Some b)
      then have "parse ?p = (Inr b, past_quote ?p w rest)"
        using parse_short [OF assms(3) True it] by simp
      then have "next_token pf parse p = (Inr (String b), past_quote ?p w rest)"
        by (rule next_token_string [OF assms(1,2)]) (simp add: past_quote_def)
      then show ?thesis
        using of_hash_pack [OF True, of a] Some True by auto
    qed
  next
    case False
    then show ?thesis
      using err parse_long [OF assms(3) _ it] by auto
  qed
qed

text \<open>Reading a name moves the parser past its closing quote.\<close>

lemma next_token_name:
  assumes "p_next_ch p = None" "p_iter p = 0x22 # name a @ 0x22 # rest" "named a"
  shows "next_token pf parse p = (Inr (String a), past_quote (in_string p (name a @ 0x22 # rest)) (name a) rest)"
proof -
  have "of_hash (pack_from 0 (name a)) = Some a"
    using assms(3) by (simp add: of_hash_iff)
  then have "parse (in_string p (name a @ 0x22 # rest)) = (Inr a, past_quote (in_string p (name a @ 0x22 # rest)) (name a) rest)"
    using parse_short [OF name_plain name_length, of a "in_string p (name a @ 0x22 # rest)" rest] assms(3)
    by (simp add: in_string_def)
  then show ?thesis
    by (rule next_token_string [OF assms(1,2)]) (simp add: past_quote_def)
qed

end

lemma acl_packs:
  "pack_from 0 (acl_as_str A_Read) = 0x64616572"
  "pack_from 0 (acl_as_str A_Modify) = 0x796669646f6d"
  "pack_from 0 (acl_as_str A_Delete) = 0x6574656c6564"
  "pack_from 0 (acl_as_str A_ReadItems) = 0x00736d65744964616572"
  "pack_from 0 (acl_as_str A_AddItems) = 0x736d657449646461"
  "pack_from 0 (acl_as_str A_ModifyItems) = 0x00736d657449796669646f6d"
  "pack_from 0 (acl_as_str A_RemoveItems) = 0x00736d65744965766f6d6572"
  "pack_from 0 (acl_as_str A_CreateChild) = 0x00646c696843657461657263"
  "pack_from 0 (acl_as_str A_Administer) = 0x72657473696e696d6461"
  "pack_from 0 (acl_as_str A_Submit) = 0x74696d627573"
  by simp_all

lemma data_type_packs:
  "pack_from 0 (data_type_as_str D_Email) = 0x006c69616d45"
  "pack_from 0 (data_type_as_str D_EmailDelivery) = 0x0079726576696c65446c69616d45"
  "pack_from 0 (data_type_as_str D_EmailSubmission) = 0x006e6f697373696d6275536c69616d45"
  "pack_from 0 (data_type_as_str D_Mailbox) = 0x00786f626c69614d"
  "pack_from 0 (data_type_as_str D_Thread) = 0x646165726854"
  "pack_from 0 (data_type_as_str D_Identity) = 0x797469746e656449"
  "pack_from 0 (data_type_as_str D_Core) = 0x65726f43"
  "pack_from 0 (data_type_as_str D_PushSubscription) = 0x6e6f6974706972637362755368737550"
  "pack_from 0 (data_type_as_str D_SearchSnippet) = 0x0074657070696e53686372616553"
  "pack_from 0 (data_type_as_str D_VacationResponse) = 0x65736e6f707365526e6f697461636156"
  "pack_from 0 (data_type_as_str D_Mdn) = 0x004e444d"
  "pack_from 0 (data_type_as_str D_Quota) = 0x0061746f7551"
  "pack_from 0 (data_type_as_str D_SieveScript) = 0x007470697263536576656953"
  by simp_all

lemma acl_of_hash_Some: "acl_of_hash h = Some a \<Longrightarrow> acl_is_valid a \<and> h = pack_from 0 (acl_as_str a)"
  unfolding acl_of_hash_def
  by (simp only: acl_is_valid_def split: if_split_asm)
    (simp_all only: option.inject option.distinct;
     (drule sym, simp only: acl_packs acl.distinct not_False_eq_True simp_thms)?)+

lemma acl_of_hash_pack: "acl_is_valid a \<Longrightarrow> acl_of_hash (pack_from 0 (acl_as_str a)) = Some a"
  by (cases a; simp only: acl_packs acl_of_hash_def acl_is_valid_def; simp)

interpretation acl_names: packed_names acl_of_hash acl_as_str acl_is_valid
proof
  show "acl_of_hash h = Some a \<longleftrightarrow> acl_is_valid a \<and> h = pack_from 0 (acl_as_str a)" for h a
    using acl_of_hash_Some acl_of_hash_pack by blast
  show "length (acl_as_str a) \<le> 16" "list_all plain (acl_as_str a)" "0 \<notin> set (acl_as_str a)" for a
    by (cases a; simp add: plain_def)+
qed

lemma data_type_of_hash_Some: "data_type_of_hash h = Some a \<Longrightarrow> data_type_is_valid a \<and> h = pack_from 0 (data_type_as_str a)"
  unfolding data_type_of_hash_def
  by (simp only: data_type_is_valid_def split: if_split_asm)
    (simp_all only: option.inject option.distinct;
     (drule sym, simp only: data_type_packs data_type.distinct not_False_eq_True simp_thms)?)+

lemma data_type_of_hash_pack: "data_type_is_valid a \<Longrightarrow> data_type_of_hash (pack_from 0 (data_type_as_str a)) = Some a"
  by (cases a; simp only: data_type_packs data_type_of_hash_def data_type_is_valid_def; simp)

interpretation data_type_names: packed_names data_type_of_hash data_type_as_str data_type_is_valid
proof
  show "data_type_of_hash h = Some a \<longleftrightarrow> data_type_is_valid a \<and> h = pack_from 0 (data_type_as_str a)" for h a
    using data_type_of_hash_Some data_type_of_hash_pack by blast
  show "length (data_type_as_str a) \<le> 16" "list_all plain (data_type_as_str a)" "0 \<notin> set (data_type_as_str a)" for a
    by (cases a; simp add: plain_def)+
qed

lemma acl_parse_names: "acl_parse = acl_names.parse" and data_type_parse_names: "data_type_parse = data_type_names.parse"
  by (simp_all add: fun_eq_iff acl_parse_def acl_names.parse_def data_type_parse_def data_type_names.parse_def)

interpretation item_acl: item_parser acl_parse
  by unfold_locales (simp_all add: acl_parse_names acl_names.parse_keeps acl_names.parse_fuelled)

interpretation item_data_type: item_parser data_type_parse
  by unfold_locales (simp_all add: data_type_parse_names data_type_names.parse_keeps data_type_names.parse_fuelled)

section \<open>Lists of names\<close>

fun json_strings :: "bytes list \<Rightarrow> bytes" where
  "json_strings [] = []"
| "json_strings [w] = 0x22 # w @ [0x22]"
| "json_strings (w # ws) = 0x22 # w @ 0x22 # 0x2c # json_strings ws"

lemma next_token_comma:
  "p_next_ch p = None \<Longrightarrow> p_iter p = 0x2c # rest \<Longrightarrow>
     next_token pf parse p = (Inr Comma, p\<lparr>p_pos := p_pos p + 1, p_iter := rest\<rparr>)"
  by (simp add: next_token_def next_char_simps next_token_loop.simps)

lemma next_token_array_end:
  "p_next_ch p = None \<Longrightarrow> p_iter p = 0x5d # rest \<Longrightarrow> p_depth_array p \<noteq> 0 \<Longrightarrow>
     next_token pf parse p =
       (Inr ArrayEnd, p\<lparr>p_pos := p_pos p + 1, p_iter := rest, p_depth_array := p_depth_array p - 1\<rparr>)"
  by (simp add: next_token_def next_char_simps next_token_loop.simps)

lemma next_token_array_start:
  "p_next_ch p = None \<Longrightarrow> p_iter p = 0x5b # rest \<Longrightarrow> p_depth_array p + p_depth_dict p < MAX_NESTED_LEVELS \<Longrightarrow>
     next_token pf parse p =
       (Inr ArrayStart, p\<lparr>p_pos := p_pos p + 1, p_iter := rest, p_depth_array := p_depth_array p + 1\<rparr>)"
  by (simp add: next_token_def next_char_simps next_token_loop.simps)

context packed_names
begin

lemma bitmap_parse_loop_names:
  "list_all named as \<Longrightarrow> p_next_ch p = None \<Longrightarrow> p_iter p = json_strings (map name as) @ 0x5d # rest \<Longrightarrow>
     p_depth_array p \<noteq> 0 \<Longrightarrow> length (p_iter p) < n \<Longrightarrow>
     \<exists>q. bitmap_parse_loop n pf parse into bm p = (Inr (foldl (bitmap_insert into) bm as), q) \<and>
       p_iter q = rest \<and> p_next_ch q = None"
proof (induction "map name as" arbitrary: as bm p n rule: json_strings.induct)
  case 1
  then obtain n' where "n = Suc n'" by (cases n) auto
  with 1 show ?case
    by (simp add: next_token_array_end)
next
  case (2 w)
  then obtain a n' where a: "as = [a]" "n = Suc (Suc n')"
    by (cases n; cases "n - 1") auto
  let ?q = "past_quote (in_string p (name a @ 0x22 # 0x5d # rest)) (name a) (0x5d # rest)"
  have "next_token pf parse p = (Inr (String a), ?q)"
    using next_token_name [of p a "0x5d # rest" pf] 2 a by simp
  moreover have "p_next_ch ?q = None" "p_iter ?q = 0x5d # rest" "p_depth_array ?q \<noteq> 0"
    using 2 by (simp_all add: past_quote_def in_string_def)
  ultimately show ?case
    using a by (simp add: next_token_array_end)
next
  case (3 w w' ws)
  then obtain a as' where a: "as = a # as'" "map name as' = w' # ws" by auto
  with 3 obtain n' where n: "n = Suc (Suc n')"
    by (cases n; cases "n - 1") auto
  let ?rest = "json_strings (map name as') @ 0x5d # rest"
  let ?q = "past_quote (in_string p (name a @ 0x22 # 0x2c # ?rest)) (name a) (0x2c # ?rest)"
  let ?q' = "?q\<lparr>p_pos := p_pos ?q + 1, p_iter := ?rest\<rparr>"
  have it: "p_iter p = 0x22 # name a @ 0x22 # 0x2c # ?rest"
    using 3 a by simp
  have "next_token pf parse p = (Inr (String a), ?q)"
    using next_token_name [of p a "0x2c # ?rest" pf] 3 a it by simp
  moreover have q: "p_next_ch ?q = None" "p_iter ?q = 0x2c # ?rest" "p_depth_array ?q \<noteq> 0"
    using 3 by (simp_all add: past_quote_def in_string_def)
  ultimately have "bitmap_parse_loop n pf parse into bm p = bitmap_parse_loop n' pf parse into (bitmap_insert into bm a) ?q'"
    using n by (simp add: next_token_comma)
  moreover have "\<exists>q. bitmap_parse_loop n' pf parse into (bitmap_insert into bm a) ?q' =
      (Inr (foldl (bitmap_insert into) (bitmap_insert into bm a) as'), q) \<and> p_iter q = rest \<and> p_next_ch q = None"
    using 3 a q n it by (intro "3.hyps"(1)) auto
  ultimately show ?case
    using a by simp
qed

lemma bitmap_parse_names:
  assumes "list_all named as" "p_next_ch p = None" "p_iter p = 0x5b # json_strings (map name as) @ 0x5d # rest"
    and "depth p < 16"
  shows "\<exists>q. bitmap_parse pf parse into p = (Inr (foldl (bitmap_insert into) bitmap_new as), q) \<and>
    p_iter q = rest \<and> p_next_ch q = None"
proof -
  let ?p = "p\<lparr>p_pos := p_pos p + 1, p_iter := json_strings (map name as) @ 0x5d # rest, p_depth_array := p_depth_array p + 1\<rparr>"
  have "p_depth_array p + p_depth_dict p < MAX_NESTED_LEVELS" "p_depth_array p + 1 \<noteq> 0"
    using assms(4) by (auto simp: depth_def MAX_NESTED_LEVELS_def word_less_nat_alt word_unat_eq_iff unat_word_ariths)
  then show ?thesis
    using bitmap_parse_loop_names [OF assms(1), of ?p rest "Suc (left ?p)" pf into bitmap_new] assms(2)
    by (simp add: bitmap_parse_def next_token_array_start [OF assms(2,3)] left_def del: bitmap_parse_loop.simps)
qed

end

lemma foldl_bitmap_insert:
  "list_all acl_is_valid as \<Longrightarrow>
     acl_bitmap.items (foldl (bitmap_insert acl_into_u64) b as) = acl_bitmap.items b \<union> set as"
  by (induction as arbitrary: b) (auto simp: acl_bitmap.items_insert)

section \<open>Properties\<close>

text \<open>C20: A set of access rights written as a JSON array of their names is read as the bitmap that
  contains exactly the listed rights, whatever their order and repetition, and the parser stands
  after the array.\<close>

theorem acl_set_parse:
  assumes "list_all acl_is_valid as" "p_next_ch p = None"
    and "p_iter p = 0x5b # json_strings (map acl_as_str as) @ 0x5d # rest"
    and "unat (p_depth_array p) + unat (p_depth_dict p) < 16"
  shows "\<exists>b q. bitmap_parse pf acl_parse acl_into_u64 p = (Inr b, q) \<and> p_iter q = rest \<and>
    {a. acl_is_valid a \<and> bitmap_contains acl_into_u64 b a} = set as"
proof -
  let ?b = "foldl (bitmap_insert acl_into_u64) bitmap_new as"
  obtain q where q: "bitmap_parse pf acl_parse acl_into_u64 p = (Inr ?b, q)" "p_iter q = rest"
    using acl_names.bitmap_parse_names [OF assms(1-3), of pf acl_into_u64] assms(4)
    by (auto simp: acl_parse_names depth_def)
  have "acl_bitmap.items ?b = set as"
    by (simp add: foldl_bitmap_insert assms(1))
  then have "{a. acl_is_valid a \<and> bitmap_contains acl_into_u64 ?b a} = set as"
    using assms(1) by (auto simp: acl_bitmap.contains_items list_all_iff)
  with q show ?thesis by blast
qed

theorem acl_set_parse_witness:
  "\<exists>b q. bitmap_parse (\<lambda>_. None) acl_parse acl_into_u64
      (parser_new (0x5b # json_strings (map acl_as_str [A_Submit, A_Read, A_Submit]) @ 0x5d # lit '','')) = (Inr b, q) \<and>
    p_iter q = lit '','' \<and> {a. acl_is_valid a \<and> bitmap_contains acl_into_u64 b a} = {A_Read, A_Submit}"
  using acl_set_parse [where as = "[A_Submit, A_Read, A_Submit]" and rest = "lit '',''" and pf = "\<lambda>_. None"
      and p = "parser_new (0x5b # json_strings (map acl_as_str [A_Submit, A_Read, A_Submit]) @ 0x5d # lit '','')"]
  by (simp add: acl_is_valid_def parser_new_def insert_commute)

text \<open>A JSON string token is accepted as an access right iff its contents are the name of the
  right, except that zero bytes after the name are ignored up to sixteen bytes in total.\<close>

theorem acl_token_iff:
  assumes "p_next_ch p = None" "p_iter p = 0x22 # w @ 0x22 # rest" "list_all plain w"
  shows "fst (next_token pf acl_parse p) = Inr (String a) \<longleftrightarrow>
    acl_is_valid a \<and> length w \<le> 16 \<and> (\<exists>n. w = acl_as_str a @ replicate n 0)"
  unfolding acl_parse_names by (rule acl_names.next_token_parse_iff [OF assms])

theorem acl_token_iff_witness:
  "fst (next_token (\<lambda>_. None) acl_parse (parser_new (0x22 # lit ''submit'' @ [0x22]))) = Inr (String A_Submit)"
  using acl_token_iff [of "parser_new (0x22 # lit ''submit'' @ [0x22])" "lit ''submit''" "[]" "\<lambda>_. None" A_Submit]
  by (simp add: parser_new_def plain_def acl_is_valid_def)

text \<open>A string converts to a data type iff it is the type's name, except that zero bytes after
  the name are ignored up to sixteen bytes in total.\<close>

theorem data_type_try_from_iff:
  "data_type_try_from w = Some d \<longleftrightarrow>
     data_type_is_valid d \<and> length w \<le> 16 \<and> (\<exists>n. w = data_type_as_str d @ replicate n 0)"
proof (cases "length w \<le> 16")
  case True
  then show ?thesis
    using data_type_names.of_hash_pack [of w d] by (simp add: data_type_try_from_def pack_str_pack)
next
  case False
  then show ?thesis
    by (simp add: data_type_try_from_def pack_str_long)
qed

text \<open>C0: The stored form of a data type is one byte from which it is read back.\<close>

theorem data_type_stored_roundtrip:
  "data_type_deserialize_from (data_type_serialize_into d [] @ rest) = ((if d = D_None then None else Some d), rest)"
  by (cases d) (simp_all add: data_type_serialize_into_def data_type_deserialize_from_def)

text \<open>Removing an item from a bitmap that does not contain it adds it.\<close>

theorem remove_absent_inserts:
  assumes "acl_is_valid a" "\<not> bitmap_contains acl_into_u64 b a"
  shows "bitmap_remove acl_into_u64 b a = bitmap_insert acl_into_u64 b a"
proof (rule bit_word_eqI)
  have "\<not> bit b (unat (acl_into_u64 a))"
    using assms by (simp add: acl_bitmap.contains_items acl_bitmap.items_def)
  then show "bit (bitmap_remove acl_into_u64 b a) i \<longleftrightarrow> bit (bitmap_insert acl_into_u64 b a) i" for i
    using acl_bitmap.valid_64 [OF assms(1)]
    by (auto simp: bitmap_remove_def bitmap_insert_def bit_xor_iff bit_or_iff bit_shl64_1)
qed

theorem remove_absent_inserts_witness:
  "bitmap_remove acl_into_u64 0 A_Delete = bitmap_insert acl_into_u64 0 A_Delete"
  by (rule remove_absent_inserts) (simp_all add: acl_is_valid_def bitmap_contains_def)

end
