(* ===== verification/Keyword.thy ===== *)
theory Keyword
  imports JmapTypes
begin

text \<open>
  Message keywords (crates/jmap-proto/src/types/keyword.rs): the JSON parser, the conversion
  from a string, the two stored forms and the tag of a keyword in the bitmap index.
\<close>

section \<open>Definitions\<close>

datatype keyword =
    K_Seen | K_Draft | K_Flagged | K_Answered | K_Recent | K_Important | K_Phishing | K_Junk
  | K_NotJunk | K_Deleted | K_Forwarded | K_MdnSent | K_Other bytes

definition keyword_of_hash :: "128 word \<Rightarrow> keyword option" where
  "keyword_of_hash hash =
     (if hash = 0x6e656573 then Some K_Seen
      else if hash = 0x007466617264 then Some K_Draft
      else if hash = 0x0064656767616c66 then Some K_Flagged
      else if hash = 0x6465726577736e61 then Some K_Answered
      else if hash = 0x746e65636572 then Some K_Recent
      else if hash = 0x00746e6174726f706d69 then Some K_Important
      else if hash = 0x676e696873696870 then Some K_Phishing
      else if hash = 0x6b6e756a then Some K_Junk
      else if hash = 0x006b6e756a746f6e then Some K_NotJunk
      else if hash = 0x00646574656c6564 then Some K_Deleted
      else if hash = 0x00646564726177726f66 then Some K_Forwarded
      else if hash = 0x00746e65736e646d then Some K_MdnSent
      else None)"

definition keyword_other :: "nat \<Rightarrow> parser \<Rightarrow> keyword presult" where
  "keyword_other pos p =
     (let (found, p) = (if p_is_eof p then (True, p) else skip_string p) in
      if found then
        (case slice_index (p_bytes p) pos (p_pos p - 1) of
           None \<Rightarrow> (Inl Panic, p)
         | Some s \<Rightarrow> (Inr (K_Other (from_utf8_lossy s)), p))
      else (Inl (error_unterminated p), p))"

definition keyword_parse :: "parser \<Rightarrow> keyword presult" where
  "keyword_parse p =
     (let pos = p_pos p in
      pbind (next_unescaped p) (\<lambda>ch p.
        case ch of
          None \<Rightarrow> fail_value p
        | Some ch \<Rightarrow>
            if ch = 0x24 then
              pbind (while_unescaped pack_byte (0, 0) p) (\<lambda>r p.
                let hash = (case r of Inl (hash, _) \<Rightarrow> hash | Inr hash \<Rightarrow> hash) in
                case keyword_of_hash hash of
                  Some k \<Rightarrow> (Inr k, p)
                | None \<Rightarrow> keyword_other pos p)
            else keyword_other pos p))"

text \<open>The packing loop of the conversion from a string, which stops after sixteen bytes.\<close>

fun pack_prefix :: "bytes \<Rightarrow> 128 word \<times> nat \<Rightarrow> 128 word" where
  "pack_prefix [] (hash, shift) = hash"
| "pack_prefix (ch # value) (hash, shift) =
     (if shift < 128 then pack_prefix value (hash OR push_bit shift (ucast ch), shift + 8) else hash)"

definition keyword_from :: "bytes \<Rightarrow> keyword" where
  "keyword_from value =
     (if value \<noteq> [] \<and> hd value = 0x24 then
        (case keyword_of_hash (pack_prefix value (0, 0)) of Some k \<Rightarrow> k | None \<Rightarrow> K_Other value)
      else K_Other value)"

fun keyword_display :: "keyword \<Rightarrow> bytes" where
  "keyword_display K_Seen = lit ''$seen''"
| "keyword_display K_Draft = lit ''$draft''"
| "keyword_display K_Flagged = lit ''$flagged''"
| "keyword_display K_Answered = lit ''$answered''"
| "keyword_display K_Recent = lit ''$recent''"
| "keyword_display K_Important = lit ''$important''"
| "keyword_display K_Phishing = lit ''$phishing''"
| "keyword_display K_Junk = lit ''$junk''"
| "keyword_display K_NotJunk = lit ''$notjunk''"
| "keyword_display K_Deleted = lit ''$deleted''"
| "keyword_display K_Forwarded = lit ''$forwarded''"
| "keyword_display K_MdnSent = lit ''$mdnsent''"
| "keyword_display (K_Other s) = s"

fun keyword_id :: "keyword \<Rightarrow> bytes + u32" where
  "keyword_id K_Seen = Inr 0"
| "keyword_id K_Draft = Inr 1"
| "keyword_id K_Flagged = Inr 2"
| "keyword_id K_Answered = Inr 3"
| "keyword_id K_Recent = Inr 4"
| "keyword_id K_Important = Inr 5"
| "keyword_id K_Phishing = Inr 6"
| "keyword_id K_Junk = Inr 7"
| "keyword_id K_NotJunk = Inr 8"
| "keyword_id K_Deleted = Inr 9"
| "keyword_id K_Forwarded = Inr 10"
| "keyword_id K_MdnSent = Inr 11"
| "keyword_id (K_Other s) = Inl s"

fun keyword_serialize :: "keyword \<Rightarrow> bytes" where
  "keyword_serialize K_Seen = [0]"
| "keyword_serialize K_Draft = [1]"
| "keyword_serialize K_Flagged = [2]"
| "keyword_serialize K_Answered = [3]"
| "keyword_serialize K_Recent = [4]"
| "keyword_serialize K_Important = [5]"
| "keyword_serialize K_Phishing = [6]"
| "keyword_serialize K_Junk = [7]"
| "keyword_serialize K_NotJunk = [8]"
| "keyword_serialize K_Deleted = [9]"
| "keyword_serialize K_Forwarded = [10]"
| "keyword_serialize K_MdnSent = [11]"
| "keyword_serialize (K_Other s) = s"

fun keyword_serialize_into :: "keyword \<Rightarrow> bytes \<Rightarrow> bytes" where
  "keyword_serialize_into K_Seen buf = buf @ [0]"
| "keyword_serialize_into K_Draft buf = buf @ [1]"
| "keyword_serialize_into K_Flagged buf = buf @ [2]"
| "keyword_serialize_into K_Answered buf = buf @ [3]"
| "keyword_serialize_into K_Recent buf = buf @ [4]"
| "keyword_serialize_into K_Important buf = buf @ [5]"
| "keyword_serialize_into K_Phishing buf = buf @ [6]"
| "keyword_serialize_into K_Junk buf = buf @ [7]"
| "keyword_serialize_into K_NotJunk buf = buf @ [8]"
| "keyword_serialize_into K_Deleted buf = buf @ [9]"
| "keyword_serialize_into K_Forwarded buf = buf @ [10]"
| "keyword_serialize_into K_MdnSent buf = buf @ [11]"
| "keyword_serialize_into (K_Other s) buf =
     (let buf = push_leb128 buf (12 + of_nat (length s) :: u64) in if s \<noteq> [] then buf @ s else buf)"

definition take_bytes :: "nat \<Rightarrow> bytes \<Rightarrow> bytes option \<times> bytes" where
  "take_bytes n bytes = (if n \<le> length bytes then (Some (take n bytes), drop n bytes) else (None, []))"

definition keyword_deserialize_from :: "bytes \<Rightarrow> keyword option \<times> bytes" where
  "keyword_deserialize_from bytes =
     (case next_leb128_usize bytes of
        (None, bytes) \<Rightarrow> (None, bytes)
      | (Some v, bytes) \<Rightarrow>
          if v = 0 then (Some K_Seen, bytes)
          else if v = 1 then (Some K_Draft, bytes)
          else if v = 2 then (Some K_Flagged, bytes)
          else if v = 3 then (Some K_Answered, bytes)
          else if v = 4 then (Some K_Recent, bytes)
          else if v = 5 then (Some K_Important, bytes)
          else if v = 6 then (Some K_Phishing, bytes)
          else if v = 7 then (Some K_Junk, bytes)
          else if v = 8 then (Some K_NotJunk, bytes)
          else if v = 9 then (Some K_Deleted, bytes)
          else if v = 10 then (Some K_Forwarded, bytes)
          else if v = 11 then (Some K_MdnSent, bytes)
          else
            (case take_bytes (unat (v - 12)) bytes of
               (None, bytes) \<Rightarrow> (None, bytes)
             | (Some keyword, bytes) \<Rightarrow>
                 (if from_utf8 keyword then Some (K_Other keyword) else None, bytes)))"

section \<open>The stored form\<close>

lemma next_leb128_usize_small:
  "unat (v::u64) < 128 \<Longrightarrow> next_leb128_usize (ucast v # rest) = (Some v, rest)"
  using leb_usize.nxt_enc [of v rest] by (simp add: push_leb128_def)

text \<open>C33: A keyword appended to a record is read back from it, followed by whatever comes next,
  provided the text of a user-defined keyword is UTF-8 (as every Rust string is).\<close>

theorem keyword_stored_roundtrip:
  assumes "\<And>s. k = K_Other s \<Longrightarrow> from_utf8 s \<and> length s < 2 ^ 63"
  shows "\<exists>enc. keyword_serialize_into k buf = buf @ enc \<and> keyword_deserialize_from (enc @ rest) = (Some k, rest)"
proof (cases k)
  case (K_Other s)
  with assms have s: "from_utf8 s" "length s < 2 ^ 63" by auto
  let ?v = "12 + of_nat (length s) :: u64"
  have len: "unat (of_nat (length s) :: u64) = length s"
    using s(2) by (simp add: unsigned_of_nat take_bit_nat_eq_self)
  have v: "unat ?v = 12 + length s"
    using s(2) len by (simp add: unat_word_ariths)
  have neq: "?v \<noteq> i" if "unat i < 12" for i
    using v that by (metis not_add_less1)
  have "keyword_serialize_into k buf = buf @ push_leb128 [] ?v @ s"
    using push_leb128_append [of buf ?v] by (simp add: K_Other Let_def)
  moreover have "keyword_deserialize_from ((push_leb128 [] ?v @ s) @ rest) = (Some k, rest)"
    using neq [of 0] neq [of 1] neq [of 2] neq [of 3] neq [of 4] neq [of 5] neq [of 6] neq [of 7] neq [of 8]
      neq [of 9] neq [of 10] neq [of 11] s len
    by (simp add: keyword_deserialize_from_def leb_usize.nxt_enc take_bytes_def K_Other)
  ultimately show ?thesis by blast
qed (simp_all add: keyword_deserialize_from_def
    next_leb128_usize_small [of 0, simplified] next_leb128_usize_small [of 1, simplified]
    next_leb128_usize_small [of 2, simplified] next_leb128_usize_small [of 3, simplified]
    next_leb128_usize_small [of 4, simplified] next_leb128_usize_small [of 5, simplified]
    next_leb128_usize_small [of 6, simplified] next_leb128_usize_small [of 7, simplified]
    next_leb128_usize_small [of 8, simplified] next_leb128_usize_small [of 9, simplified]
    next_leb128_usize_small [of 10, simplified] next_leb128_usize_small [of 11, simplified])

theorem keyword_stored_roundtrip_witness:
  "\<exists>enc. keyword_serialize_into (K_Other (lit ''todo'')) [1] = [1] @ enc \<and>
     keyword_deserialize_from (enc @ [2]) = (Some (K_Other (lit ''todo'')), [2])"
  by (rule keyword_stored_roundtrip) (simp add: from_utf8_ascii)

section \<open>The conversion from a string\<close>

lemma pack_prefix_take: "8 dvd sh \<Longrightarrow> sh \<le> 128 \<Longrightarrow> pack_prefix w (h, sh) = h OR pack_from sh (take ((128 - sh) div 8) w)"
proof (induction w arbitrary: h sh)
  case (Cons c w)
  show ?case
  proof (cases "sh < 128")
    case True
    with Cons.prems obtain k where k: "sh = 8 * k" "k < 16" by (auto elim!: dvdE)
    then have "(128 - sh) div 8 = Suc ((128 - (sh + 8)) div 8)" by simp
    with True Cons k show ?thesis
      by (simp add: or.assoc)
  qed (use Cons in simp)
qed simp

lemma pack_from_low_byte: "ucast (pack_from 0 (c # w)) = c"
  using bit_pack_from [of 0 "c # w"] by (intro bit_word_eqI) (simp add: bit_ucast_iff byte_at_def)

lemma keyword_of_hash_low_byte: "keyword_of_hash h = Some k \<Longrightarrow> (ucast h :: u8) \<noteq> 0x24"
  unfolding keyword_of_hash_def by (auto split: if_splits)

text \<open>The conversion from a string never yields a standard keyword: it packs the leading dollar
  sign too, while the table has the names without it, so \<^verbatim>\<open>$seen\<close> becomes a user-defined keyword
  that differs from the one the JSON parser gives for the same text.\<close>

theorem keyword_from_never_standard: "keyword_from s = K_Other s"
proof (cases "s \<noteq> [] \<and> hd s = 0x24")
  case True
  then obtain w where s: "s = 0x24 # w" by (cases s) auto
  have "keyword_of_hash (pack_prefix s (0, 0)) = None"
    using keyword_of_hash_low_byte [of "pack_prefix s (0, 0)"] pack_from_low_byte [of "0x24" "take 15 w"]
    by (cases "keyword_of_hash (pack_prefix s (0, 0))") (auto simp: pack_prefix_take s)
  with True show ?thesis by (simp add: keyword_from_def)
qed (auto simp: keyword_from_def)

section \<open>The JSON parser\<close>

definition standard :: "keyword \<Rightarrow> bool" where
  "standard k \<longleftrightarrow> (\<forall>s. k \<noteq> K_Other s)"

lemma keyword_display_standard:
  assumes "standard k"
  shows "\<exists>w. keyword_display k = 0x24 # w \<and> list_all plain w \<and> length w \<le> 16 \<and> keyword_of_hash (pack_from 0 w) = Some k"
  using assms by (cases k) (simp_all add: standard_def plain_def keyword_of_hash_def)

lemma skip_string_loop_plain:
  "list_all plain w \<Longrightarrow> last_ch \<noteq> 0x5c \<Longrightarrow> p_iter p = w @ 0x22 # rest \<Longrightarrow>
     skip_string_loop last_ch p = (True, past_quote p w rest)"
proof (induction w arbitrary: last_ch p)
  case Nil
  then show ?case by (subst skip_string_loop.simps) (simp add: next_char_simps past_quote_def)
next
  case (Cons c w)
  then show ?case
    by (subst skip_string_loop.simps) (simp add: next_char_simps past_quote_def plain_def)
qed

lemma slice_index_synced:
  "synced p \<Longrightarrow> p_iter p = s @ rest \<Longrightarrow> slice_index (p_bytes p) (p_pos p) (p_pos p + length s) = Some s"
  using synced_step [of p s rest] by (simp add: slice_index_def synced_def) (metis append_eq_conv_conj)

lemma keyword_parse_standard:
  assumes "standard k" "p_iter p = keyword_display k @ 0x22 # rest"
  shows "keyword_parse p = (Inr k, past_quote p (keyword_display k) rest)"
proof -
  from keyword_display_standard [OF assms(1)] obtain w where w: "keyword_display k = 0x24 # w"
    "list_all plain w" "length w \<le> 16" "keyword_of_hash (pack_from 0 w) = Some k" by blast
  let ?p = "p\<lparr>p_pos := p_pos p + 1, p_iter := w @ 0x22 # rest\<rparr>"
  have "next_unescaped p = (Inr (Some 0x24), ?p)"
    using assms(2) w(1) by (subst next_unescaped_plain [of p "0x24" "w @ 0x22 # rest"]) (simp_all add: plain_def)
  moreover have "while_unescaped pack_byte (0, 0) ?p = (Inr (Inl (pack_from 0 w, 8 * length w)), past_quote ?p w rest)"
    using while_unescaped_plain [OF w(2) _ run_pack_byte [of 0 w 0], of ?p rest] w(3) by simp
  ultimately show ?thesis
    using w by (simp add: keyword_parse_def past_quote_def)
qed

lemma keyword_parse_other:
  assumes "synced p" "p_iter p = s @ 0x22 # rest" "from_utf8 s" "list_all plain s" "s \<noteq> []" "hd s \<noteq> 0x24" "\<not> p_is_eof p"
  shows "keyword_parse p = (Inr (K_Other s), past_quote p s rest)"
proof -
  obtain c w where s: "s = c # w" using assms(5) by (cases s) auto
  let ?p = "p\<lparr>p_pos := p_pos p + 1, p_iter := w @ 0x22 # rest\<rparr>"
  have "next_unescaped p = (Inr (Some c), ?p)"
    using assms s by (subst next_unescaped_plain [of p c "w @ 0x22 # rest"]) simp_all
  moreover have "skip_string ?p = (True, past_quote ?p w rest)"
    using skip_string_loop_plain [of w 0 ?p rest] assms(4) s by (simp add: skip_string_def)
  moreover have "slice_index (p_bytes p) (p_pos p) (p_pos p + length s) = Some s"
    by (rule slice_index_synced [OF assms(1,2)])
  ultimately show ?thesis
    using assms(3,6,7) s by (simp add: keyword_parse_def keyword_other_def past_quote_def from_utf8_lossy_valid)
qed

text \<open>The JSON parser reads the name of a standard keyword as that keyword, and a plain UTF-8
  string that does not start with a dollar sign as the user-defined keyword of that text.\<close>

theorem keyword_token:
  assumes "synced p" "p_next_ch p = None" "p_iter p = 0x22 # keyword_display k @ 0x22 # rest"
    and "\<And>s. k = K_Other s \<Longrightarrow> from_utf8 s \<and> list_all plain s \<and> s \<noteq> [] \<and> hd s \<noteq> 0x24"
  shows "\<exists>q. next_token pf keyword_parse p = (Inr (String k), q) \<and> p_iter q = rest"
proof -
  let ?p = "in_string p (keyword_display k @ 0x22 # rest)"
  let ?q = "past_quote ?p (keyword_display k) rest"
  have "synced ?p"
    using synced_step [OF assms(1), of "[0x22]"] assms(3) by (simp add: in_string_def synced_def)
  then have "keyword_parse ?p = (Inr k, ?q)"
    using assms(4) keyword_parse_standard [of k ?p rest] keyword_parse_other [of ?p _ rest]
    by (cases k) (simp_all add: standard_def in_string_def)
  then have "next_token pf keyword_parse p = (Inr (String k), ?q)"
    by (rule next_token_string [OF assms(2,3)]) (simp add: past_quote_def)
  then show ?thesis
    by (simp add: past_quote_def)
qed

theorem keyword_token_witness:
  "\<exists>q. next_token (\<lambda>_. None) keyword_parse (parser_new (0x22 # keyword_display K_Flagged @ 0x22 # [])) = (Inr (String K_Flagged), q) \<and> p_iter q = []"
  by (rule keyword_token) (simp_all only: synced_new, simp_all add: parser_new_def)

end
