(* ===== verification/Base32.thy ===== *)
theory Base32
  imports Leb128
begin

text \<open>
  The base32 writer and reader of crates/utils/src/codec/base32_custom.rs. A \<^verbatim>\<open>String\<close>
  is the list of its UTF-8 bytes; the writer's capacity is not modelled.
\<close>

section \<open>Alphabet\<close>

definition BASE32_ALPHABET :: bytes where
  "BASE32_ALPHABET = map (\<lambda>c. of_char c) ''abcdefghijklmnopqrstuvwxyz792013''"

definition BASE32_INVERSE :: "u8 list" where
  "BASE32_INVERSE =
    replicate 48 255 @ [29, 30, 28, 31, 255, 255, 255, 26, 255, 27] @ replicate 17 255 @
    [10, 11, 12, 13, 14, 15, 16, 17, 18, 19, 20, 21, 22, 23, 24, 25] @ replicate 6 255 @
    [0, 1, 2, 3, 4, 5, 6, 7, 8, 9, 10, 11, 12, 13, 14, 15, 16, 17, 18, 19, 20, 21, 22, 23, 24, 25] @
    replicate 133 255"

section \<open>Writer\<close>

record base32_writer =
  w_last_byte :: u8
  w_pos :: nat
  w_result :: bytes

definition with_raw_capacity :: base32_writer where
  "with_raw_capacity = \<lparr>w_last_byte = 0, w_pos = 0, w_result = []\<rparr>"

definition push_char :: "base32_writer \<Rightarrow> u8 \<Rightarrow> base32_writer" where
  "push_char w ch = w\<lparr>w_result := w_result w @ [ch]\<rparr>"

definition push_string :: "base32_writer \<Rightarrow> bytes \<Rightarrow> base32_writer" where
  "push_string w s = w\<lparr>w_result := w_result w @ s\<rparr>"

text \<open>The one or two five-bit groups that a byte completes; 255 stands for no second group.\<close>

definition push_groups :: "nat \<Rightarrow> u8 \<Rightarrow> u8 \<Rightarrow> u8 \<times> u8" where
  "push_groups pos last_byte byte =
     (if pos mod 5 = 0 then (drop_bit 3 (byte AND 0xF8), 255)
      else if pos mod 5 = 1 then
        (push_bit 2 (last_byte AND 0x07) OR drop_bit 6 (byte AND 0xC0), drop_bit 1 (byte AND 0x3E))
      else if pos mod 5 = 2 then
        (push_bit 4 (last_byte AND 0x01) OR drop_bit 4 (byte AND 0xF0), 255)
      else if pos mod 5 = 3 then
        (push_bit 1 (last_byte AND 0x0F) OR drop_bit 7 byte, drop_bit 2 (byte AND 0x7C))
      else
        (push_bit 3 (last_byte AND 0x03) OR drop_bit 5 (byte AND 0xE0), byte AND 0x1F))"

definition push_byte :: "base32_writer \<Rightarrow> u8 \<Rightarrow> bool \<Rightarrow> base32_writer" where
  "push_byte w byte is_remainder =
     (let (ch1, ch2) = push_groups (w_pos w) (w_last_byte w) byte;
          w1 = w\<lparr>w_result := w_result w @ [BASE32_ALPHABET ! unat ch1]\<rparr>
      in if is_remainder then w1
         else (if ch2 \<noteq> 255 then w1\<lparr>w_result := w_result w1 @ [BASE32_ALPHABET ! unat ch2]\<rparr> else w1)
                \<lparr>w_last_byte := byte, w_pos := w_pos w + 1\<rparr>)"

definition finalize :: "base32_writer \<Rightarrow> bytes" where
  "finalize w = w_result (if w_pos w mod 5 \<noteq> 0 then push_byte w 0 True else w)"

text \<open>\<^verbatim>\<open>impl std::io::Write for Base32Writer\<close>\<close>

definition base32_write :: "base32_writer \<Rightarrow> bytes \<Rightarrow> (unit + nat) \<times> base32_writer" where
  "base32_write w bs =
     (let w' = foldl (\<lambda>w b. push_byte w b False) w bs in (Inr (w_pos w' - w_pos w), w'))"

definition base32_from_bytes :: "bytes \<Rightarrow> base32_writer" where
  "base32_from_bytes bs = snd (base32_write with_raw_capacity bs)"

section \<open>Reader\<close>

record base32_reader =
  r_bytes :: bytes
  r_last_byte :: u8
  r_pos :: nat

definition base32_reader_new :: "bytes \<Rightarrow> base32_reader" where
  "base32_reader_new bs = \<lparr>r_bytes = bs, r_last_byte = 0, r_pos = 0\<rparr>"

definition map_byte :: "base32_reader \<Rightarrow> u8 option \<times> base32_reader" where
  "map_byte r =
     (case r_bytes r of
        [] \<Rightarrow> (None, r)
      | byte # bs \<Rightarrow>
          (let inv = BASE32_INVERSE ! unat byte
           in if inv \<noteq> 255 then (Some inv, r\<lparr>r_bytes := bs, r_last_byte := inv\<rparr>)
              else (None, r\<lparr>r_bytes := bs\<rparr>)))"

definition unwrap_or_0 :: "u8 option \<Rightarrow> u8" where
  "unwrap_or_0 x = (case x of Some b \<Rightarrow> b | None \<Rightarrow> 0)"

definition base32_next :: "base32_reader \<Rightarrow> u8 option \<times> base32_reader" where
  "base32_next r =
     (let pos = r_pos r mod 5; last_byte = r_last_byte r
      in case map_byte r of
           (None, r1) \<Rightarrow> (None, r1)
         | (Some byte, r1) \<Rightarrow>
             (let r2 = r1\<lparr>r_pos := r_pos r1 + 1\<rparr>; (nb, r3) = map_byte r2; n = unwrap_or_0 nb
              in if pos = 0 then (Some (push_bit 3 byte OR drop_bit 2 n), r3)
                 else if pos = 1 then
                   (Some (push_bit 6 last_byte OR push_bit 1 byte OR drop_bit 4 n), r3)
                 else if pos = 2 then (Some (push_bit 4 last_byte OR drop_bit 1 byte), r2)
                 else if pos = 3 then
                   (Some (push_bit 7 last_byte OR push_bit 2 byte OR drop_bit 3 n), r3)
                 else (Some (push_bit 5 last_byte OR byte), r2)))"

lemma map_byte_length: "length (r_bytes (snd (map_byte r))) \<le> length (r_bytes r)"
  by (auto simp: map_byte_def Let_def split: list.splits)

lemma map_byte_Some_length: "map_byte r = (Some b, r') \<Longrightarrow> length (r_bytes r') < length (r_bytes r)"
  by (auto simp: map_byte_def Let_def split: list.splits if_splits)

lemma base32_next_Some_length:
  assumes "base32_next r = (Some b, r')"
  shows "length (r_bytes r') < length (r_bytes r)"
proof -
  obtain byte r1 where m: "map_byte r = (Some byte, r1)"
    using assms by (auto simp: base32_next_def Let_def split: prod.splits option.splits)
  then have l: "length (r_bytes r1) < length (r_bytes r)" by (rule map_byte_Some_length)
  have "length (r_bytes r') \<le> length (r_bytes r1)"
    using assms m map_byte_length [of "r1\<lparr>r_pos := r_pos r1 + 1\<rparr>"]
    by (auto simp: base32_next_def Let_def split: prod.splits if_splits)
  with l show ?thesis by simp
qed

text \<open>Collecting the iterator: items up to the first \<^verbatim>\<open>None\<close>.\<close>

function base32_collect :: "base32_reader \<Rightarrow> bytes" where
  "base32_collect r = (case base32_next r of (None, _) \<Rightarrow> [] | (Some b, r') \<Rightarrow> b # base32_collect r')"
  by pat_completeness auto
termination
  by (relation "measure (\<lambda>r. length (r_bytes r))") (auto intro: base32_next_Some_length [OF sym])

declare base32_collect.simps [simp del]

section \<open>The groups a byte is split into\<close>

lemma u8_eqI: "(\<And>n. n \<in> {0, 1, 2, 3, 4, 5, 6, 7} \<Longrightarrow> bit x n = bit y n) \<Longrightarrow> x = y" for x y :: u8
proof (rule bit_word_eqI)
  fix n assume "\<And>n. n \<in> {0, 1, 2, 3, 4, 5, 6, 7} \<Longrightarrow> bit x n = bit y n" and "n < LENGTH(8)"
  moreover from \<open>n < LENGTH(8)\<close> have "n \<in> {0, 1, 2, 3, 4, 5, 6, 7}" by auto
  ultimately show "bit x n = bit y n" by blast
qed

lemma u8_bit_high: "8 \<le> n \<Longrightarrow> \<not> bit b n" for b :: u8
  using bit_imp_le_length by fastforce

lemma take_bit_5_less: "take_bit 5 g = g \<Longrightarrow> unat g < 32" for g :: u8
  using take_bit_nat_less_exp [of 5 "unat g"] unsigned_take_bit_eq [of 5 g, where ?'a = nat] by simp

lemma groups_less_32:
  "unat (fst (push_groups p l b)) < 32"
  "snd (push_groups p l b) \<noteq> 255 \<Longrightarrow> unat (snd (push_groups p l b)) < 32"
  by (rule take_bit_5_less, rule u8_eqI,
      auto simp: push_groups_def bit_simps u8_bit_high split: if_splits)+

lemma second_group:
  "snd (push_groups p l b) \<noteq> 255 \<longleftrightarrow> p mod 5 \<noteq> 0 \<and> p mod 5 \<noteq> 2"
proof -
  have ne: "g \<noteq> 255" if "\<not> bit g 7" for g :: u8
    using that by auto
  show ?thesis
    by (auto simp: push_groups_def bit_simps u8_bit_high intro!: ne)
qed

text \<open>
  What the reader computes at each position from the group it read before, the one or two
  groups it reads now, and the group that follows (which begins with the low bits of the
  byte \<open>b\<close>, whatever byte \<open>c\<close> comes next).
\<close>

lemma split_join:
  fixes b c l :: u8
  shows "push_bit 3 (drop_bit 3 (b AND 0xF8))
      OR drop_bit 2 (push_bit 2 (b AND 0x07) OR drop_bit 6 (c AND 0xC0)) = b"
    and "push_bit 6 (push_bit 2 (l AND 0x07) OR drop_bit 6 (b AND 0xC0)) OR push_bit 1 (drop_bit 1 (b AND 0x3E))
      OR drop_bit 4 (push_bit 4 (b AND 0x01) OR drop_bit 4 (c AND 0xF0)) = b"
    and "push_bit 4 (push_bit 4 (l AND 0x01) OR drop_bit 4 (b AND 0xF0))
      OR drop_bit 1 (push_bit 1 (b AND 0x0F) OR drop_bit 7 c) = b"
    and "push_bit 7 (push_bit 1 (l AND 0x0F) OR drop_bit 7 b) OR push_bit 2 (drop_bit 2 (b AND 0x7C))
      OR drop_bit 3 (push_bit 3 (b AND 0x03) OR drop_bit 5 (c AND 0xE0)) = b"
    and "push_bit 5 (push_bit 3 (l AND 0x03) OR drop_bit 5 (b AND 0xE0)) OR (b AND 0x1F) = b"
  by (rule u8_eqI, simp only: bit_or_iff bit_and_iff bit_push_bit_iff bit_drop_bit_eq o_apply,
      elim insertE emptyE; simp add: u8_bit_high flip: numeral_2_eq_2 numeral_3_eq_3)+

lemma mod_5_next:
  "p mod 5 = 0 \<Longrightarrow> (p + 1) mod 5 = 1" "p mod 5 = 1 \<Longrightarrow> (p + 1) mod 5 = 2"
  "p mod 5 = 2 \<Longrightarrow> (p + 1) mod 5 = 3" "p mod 5 = 3 \<Longrightarrow> (p + 1) mod 5 = 4"
  "p mod 5 = 4 \<Longrightarrow> (p + 1) mod 5 = 0" for p :: nat
  by presburger+

lemma push_groups_mod:
  "p mod 5 = 0 \<Longrightarrow> push_groups p l b = (drop_bit 3 (b AND 0xF8), 255)"
  "p mod 5 = 1 \<Longrightarrow> push_groups p l b =
     (push_bit 2 (l AND 0x07) OR drop_bit 6 (b AND 0xC0), drop_bit 1 (b AND 0x3E))"
  "p mod 5 = 2 \<Longrightarrow> push_groups p l b = (push_bit 4 (l AND 0x01) OR drop_bit 4 (b AND 0xF0), 255)"
  "p mod 5 = 3 \<Longrightarrow> push_groups p l b =
     (push_bit 1 (l AND 0x0F) OR drop_bit 7 b, drop_bit 2 (b AND 0x7C))"
  "p mod 5 = 4 \<Longrightarrow> push_groups p l b =
     (push_bit 3 (l AND 0x03) OR drop_bit 5 (b AND 0xE0), b AND 0x1F)"
  by (simp_all add: push_groups_def)

lemma groups_join:
  "p mod 5 = 0 \<Longrightarrow>
     push_bit 3 (fst (push_groups p l b)) OR drop_bit 2 (fst (push_groups (p + 1) b c)) = b"
  "p mod 5 = 1 \<Longrightarrow>
     push_bit 6 (fst (push_groups p l b)) OR push_bit 1 (snd (push_groups p l b))
       OR drop_bit 4 (fst (push_groups (p + 1) b c)) = b"
  "p mod 5 = 2 \<Longrightarrow>
     push_bit 4 (fst (push_groups p l b)) OR drop_bit 1 (fst (push_groups (p + 1) b c)) = b"
  "p mod 5 = 3 \<Longrightarrow>
     push_bit 7 (fst (push_groups p l b)) OR push_bit 2 (snd (push_groups p l b))
       OR drop_bit 3 (fst (push_groups (p + 1) b c)) = b"
  "p mod 5 = 4 \<Longrightarrow>
     push_bit 5 (fst (push_groups p l b)) OR snd (push_groups p l b) = b"
  by (simp_all only: push_groups_mod mod_5_next split_join fst_conv snd_conv)

section \<open>What the writer emits\<close>

text \<open>The groups still to come from a writer at \<open>pos\<close> with \<open>last_byte\<close>, fed \<open>bs\<close> and finalized.\<close>

fun emit :: "nat \<Rightarrow> u8 \<Rightarrow> bytes \<Rightarrow> u8 list" where
  "emit p l [] = (if p mod 5 \<noteq> 0 then [fst (push_groups p l 0)] else [])"
| "emit p l (b # bs) =
     fst (push_groups p l b) # (if p mod 5 \<noteq> 0 \<and> p mod 5 \<noteq> 2 then [snd (push_groups p l b)] else [])
       @ emit (p + 1) b bs"

abbreviation alpha :: "u8 \<Rightarrow> u8" where
  "alpha g \<equiv> BASE32_ALPHABET ! unat g"

lemma push_byte_simps:
  "push_byte w b True = w\<lparr>w_result := w_result w @ [alpha (fst (push_groups (w_pos w) (w_last_byte w) b))]\<rparr>"
  "push_byte w b False =
     w\<lparr>w_result := w_result w @ alpha (fst (push_groups (w_pos w) (w_last_byte w) b)) #
        (if w_pos w mod 5 \<noteq> 0 \<and> w_pos w mod 5 \<noteq> 2
         then [alpha (snd (push_groups (w_pos w) (w_last_byte w) b))] else []),
       w_last_byte := b, w_pos := w_pos w + 1\<rparr>"
  using second_group [of "w_pos w" "w_last_byte w" b]
  by (auto simp: push_byte_def Let_def split: prod.splits)

lemma finalize_emit:
  "finalize (foldl (\<lambda>w b. push_byte w b False) w bs)
     = w_result w @ map alpha (emit (w_pos w) (w_last_byte w) bs)"
  by (induction bs arbitrary: w) (auto simp: finalize_def push_byte_simps)

lemma emit_first:
  "p mod 5 \<noteq> 0 \<Longrightarrow> \<exists>c gs. emit p l bs = fst (push_groups p l c) # gs"
  by (cases bs) auto

section \<open>What the reader makes of it\<close>

lemma alphabet_inverse:
  assumes "unat g < 32"
  shows "BASE32_INVERSE ! unat (alpha g) = g" and "g \<noteq> 255"
proof -
  have "list_all (\<lambda>i. BASE32_INVERSE ! unat (BASE32_ALPHABET ! i) = of_nat i) [0..<32]"
    by code_simp
  then have "BASE32_INVERSE ! unat (alpha g) = of_nat (unat g)"
    using assms by (simp add: list_all_iff del: upt_rec_numeral)
  then show "BASE32_INVERSE ! unat (alpha g) = g" by simp
  show "g \<noteq> 255" using assms by auto
qed

lemma map_byte_alpha:
  assumes "r_bytes r = alpha g # bs" and "unat g < 32"
  shows "map_byte r = (Some g, r\<lparr>r_bytes := bs, r_last_byte := g\<rparr>)"
  using assms alphabet_inverse [OF assms(2)] by (simp add: map_byte_def)

lemma map_byte_Nil: "r_bytes r = [] \<Longrightarrow> map_byte r = (None, r)"
  by (simp add: map_byte_def)

text \<open>
  A reader that has produced the bytes up to position \<open>p\<close> has read one group beyond them,
  except at a multiple of five.
\<close>

definition reader_at :: "nat \<Rightarrow> u8 \<Rightarrow> bytes \<Rightarrow> base32_reader \<Rightarrow> bool" where
  "reader_at p l bs r \<longleftrightarrow> r_pos r = p \<and>
     (if p mod 5 = 0 then r_bytes r = map alpha (emit p l bs)
      else \<exists>g gs. emit p l bs = g # gs \<and> r_last_byte r = g \<and> r_bytes r = map alpha gs)"

lemmas next_simps = reader_at_def base32_next_def map_byte_alpha unwrap_or_0_def mod_5_next
  groups_less_32(1) groups_less_32(2) [OF second_group [THEN iffD2]]

lemma base32_next_reader_at:
  assumes "reader_at p l (b # bs) r"
  shows "\<exists>r'. base32_next r = (Some b, r') \<and> reader_at (p + 1) b bs r'"
proof (cases "p mod 5 = 4")
  case True
  let ?r = "r\<lparr>r_bytes := map alpha (emit (p + 1) b bs), r_last_byte := snd (push_groups p l b), r_pos := p + 1\<rparr>"
  have "base32_next r = (Some b, ?r)"
    using True assms groups_join(5) [OF True, of l b] by (simp add: next_simps)
  moreover have "reader_at (p + 1) b bs ?r"
    using mod_5_next(5) [OF True] by (simp add: reader_at_def)
  ultimately show ?thesis by blast
next
  case False
  then have "(p + 1) mod 5 \<noteq> 0" by presburger
  then obtain c gs where rest: "emit (p + 1) b bs = fst (push_groups (p + 1) b c) # gs"
    using emit_first by blast
  let ?r = "r\<lparr>r_bytes := map alpha gs, r_last_byte := fst (push_groups (p + 1) b c), r_pos := p + 1\<rparr>"
  consider "p mod 5 = 0" | "p mod 5 = 1" | "p mod 5 = 2" | "p mod 5 = 3"
    using False by linarith
  then have "base32_next r = (Some b, ?r)"
    using assms rest groups_join(1-4) [of p l b c] by cases (simp_all add: next_simps)
  moreover have "reader_at (p + 1) b bs ?r"
    using \<open>(p + 1) mod 5 \<noteq> 0\<close> rest by (simp add: reader_at_def)
  ultimately show ?thesis by blast
qed

lemma base32_collect_reader_at: "reader_at p l bs r \<Longrightarrow> base32_collect r = bs"
proof (induction bs arbitrary: p l r)
  case Nil
  then have "r_bytes r = []" by (auto simp: reader_at_def split: if_splits)
  then show ?case
    by (simp add: base32_collect.simps base32_next_def map_byte_Nil)
next
  case (Cons b bs)
  then obtain r' where "base32_next r = (Some b, r')" and "base32_collect r' = bs"
    using base32_next_reader_at by blast
  then show ?case by (simp add: base32_collect.simps)
qed

interpretation base32_sink: byte_sink base32_write "\<lambda>w b. push_byte w b False"
  by unfold_locales (simp add: base32_write_def push_byte_simps)

interpretation base32_source: byte_source base32_next "\<lambda>r bs. \<exists>p l. reader_at p l bs r"
  using base32_next_reader_at by unfold_locales blast

section \<open>Properties\<close>

text \<open>
  C28. Round trip: reading back what the writer produced for any bytes yields those bytes
  and nothing more.
\<close>

theorem base32_roundtrip:
  "base32_collect (base32_reader_new (finalize (base32_from_bytes bs))) = bs"
proof (rule base32_collect_reader_at)
  show "reader_at 0 0 bs (base32_reader_new (finalize (base32_from_bytes bs)))"
    using finalize_emit [of with_raw_capacity bs]
    by (simp add: reader_at_def base32_reader_new_def base32_from_bytes_def base32_write_def
        with_raw_capacity_def Let_def)
qed

text \<open>
  The inverse table is not symmetric in case: it takes the upper-case letters K to Z
  for their lower-case forms, and rejects A to J, so a reader stops at the latter.
\<close>

theorem base32_upper_case_A_to_J_rejected:
  "map (\<lambda>c. BASE32_INVERSE ! unat (of_char c :: u8)) ''ABCDEFGHIJ'' = replicate 10 255
   \<and> map (\<lambda>c. BASE32_INVERSE ! unat (of_char c :: u8)) ''KLMNOPQRSTUVWXYZ''
     = map (\<lambda>c. BASE32_INVERSE ! unat (of_char c :: u8)) ''klmnopqrstuvwxyz''
   \<and> base32_collect (base32_reader_new (map of_char ''Aa'')) = []"
  by code_simp

end
