(* ===== verification/JmapId.thy ===== *)
theory JmapId
  imports JsonProps Base32
begin

text \<open>
  JMAP identifiers (crates/jmap-proto/src/types/id.rs): a 64-bit number, written in base 32
  with the alphabet of the base32 codec and no leading zeros. The printing loop has no counter:
  it runs until a marker bit reaches bit 60, and is a partial function here.
\<close>

section \<open>Definitions\<close>

partial_function (option) id_loop :: "u64 \<Rightarrow> bytes \<Rightarrow> bytes option" where
  "id_loop n buf =
     (if n \<noteq> push_bit 60 1
      then id_loop (push_bit 5 n) (buf @ [BASE32_ALPHABET ! unat (drop_bit 59 n)])
      else Some buf)"

definition id_as_string :: "u64 \<Rightarrow> bytes option" where
  "id_as_string jid =
     (if jid = 0 then Some (lit ''a'')
      else
        (let i = drop_bit 60 jid in
         if i = 0 then
           (let n = push_bit 4 jid OR 1 in id_loop (push_bit (leading_zeros n div 5 * 5) n) [])
         else
           (let n = push_bit 4 jid OR 1 in id_loop n [BASE32_ALPHABET ! unat i])))"

fun id_bytes_loop :: "bytes \<Rightarrow> u64 \<Rightarrow> u64 option" where
  "id_bytes_loop [] jid = Some jid"
| "id_bytes_loop (ch # bytes) jid =
     (let i = BASE32_INVERSE ! unat ch in
      if i \<noteq> 255 then id_bytes_loop bytes (push_bit 5 jid OR ucast i) else None)"

definition id_from_bytes :: "bytes \<Rightarrow> u64 option" where
  "id_from_bytes bytes = id_bytes_loop bytes 0"

definition id_parse :: "parser \<Rightarrow> u64 presult" where
  "id_parse p =
     pbind (while_unescaped (\<lambda>ch jid.
         let i = BASE32_INVERSE ! unat ch in if i \<noteq> 255 then Inl (push_bit 5 jid OR ucast i) else Inr ()) 0 p)
       (\<lambda>r p. case r of Inl jid \<Rightarrow> (Inr jid, p) | Inr _ \<Rightarrow> fail_value p)"

definition id_from_parts :: "u32 \<Rightarrow> u32 \<Rightarrow> u64" where
  "id_from_parts prefix_id doc_id = push_bit 32 (ucast prefix_id) OR ucast doc_id"

definition id_document_id :: "u64 \<Rightarrow> u32" where
  "id_document_id jid = ucast (jid AND 0xFFFFFFFF)"

definition id_prefix_id :: "u64 \<Rightarrow> u32" where
  "id_prefix_id jid = ucast (drop_bit 32 jid)"

definition id_singleton :: u64 where
  "id_singleton = 20080258862541"

definition id_is_singleton :: "u64 \<Rightarrow> bool" where
  "id_is_singleton jid \<longleftrightarrow> jid = 20080258862541"

definition id_is_valid :: "u64 \<Rightarrow> bool" where
  "id_is_valid jid \<longleftrightarrow> jid \<noteq> - 1"

section \<open>Printing and reading\<close>

text \<open>
  After \<open>k\<close> groups of five bits the loop variable holds the remaining \<open>60 - 5 * k\<close> bits of the
  identifier on top, then the marker.
\<close>

definition id_state :: "nat \<Rightarrow> nat \<Rightarrow> u64 \<Rightarrow> bool" where
  "id_state k r n \<longleftrightarrow> k \<le> 12 \<and> r < 2 ^ (60 - 5 * k) \<and> unat n = r * 2 ^ (4 + 5 * k) + 2 ^ (5 * k)"

fun base32_digits :: "nat \<Rightarrow> nat \<Rightarrow> nat list" where
  "base32_digits 0 r = []"
| "base32_digits (Suc m) r = r div 32 ^ m # base32_digits m (r mod 32 ^ m)"

lemma id_state_stop: "id_state k r n \<Longrightarrow> n = push_bit 60 1 \<longleftrightarrow> k = 12"
proof -
  assume n: "id_state k r n"
  have s: "unat (push_bit 60 1 :: u64) = 2 ^ 60" by simp
  show ?thesis
  proof
    assume "n = push_bit 60 1"
    then have e: "r * 2 ^ (4 + 5 * k) + 2 ^ (5 * k) = 2 ^ 60"
      using n s by (simp add: id_state_def)
    show "k = 12"
    proof (rule ccontr)
      assume "k \<noteq> 12"
      with n have "k < 12" by (simp add: id_state_def)
      then have "(2::nat) ^ 60 = 2 ^ (5 * k) * 2 ^ (60 - 5 * k)" by (simp flip: power_add)
      with e have "2 ^ (5 * k) * (r * 16 + 1) = 2 ^ (5 * k) * (2::nat) ^ (60 - 5 * k)"
        by (simp add: algebra_simps power_add)
      then have "r * 16 + 1 = (2::nat) ^ (60 - 5 * k)"
        by (subst (asm) mult_left_cancel) simp_all
      moreover have "even ((2::nat) ^ (60 - 5 * k))" using \<open>k < 12\<close> by simp
      ultimately show False by presburger
    qed
  next
    assume "k = 12"
    with n show "n = push_bit 60 1"
      by (simp add: id_state_def word_unat_eq_iff)
  qed
qed

lemma id_state_step:
  assumes "id_state k r n" "k < 12"
  shows "unat (drop_bit 59 n) = r div 32 ^ (11 - k)" "id_state (Suc k) (r mod 32 ^ (11 - k)) (push_bit 5 n)"
proof -
  define M P where "M = (2::nat) ^ (5 * k)" and "P = (32::nat) ^ (11 - k)"
  have P: "P = 2 ^ (55 - 5 * k)"
    using power_mult [of "2::nat" 5 "11 - k"] by (simp add: P_def diff_mult_distrib2)
  have PM: "P * (16 * M) = 2 ^ 59"
  proof -
    have "P * M = 2 ^ 55"
      using assms(2) by (simp add: P M_def flip: power_add)
    then show ?thesis by (simp add: mult.commute)
  qed
  define q t where "q = r div P" and "t = r mod P"
  have r: "r = q * P + t" by (simp add: q_def t_def)
  have "t < P" by (simp add: t_def P_def)
  then have "Suc t * (16 * M) \<le> 2 ^ 59"
    unfolding PM [symmetric] by (intro mult_right_mono) simp_all
  moreover have "0 < M" by (simp add: M_def)
  ultimately have low: "t * (16 * M) + M < 2 ^ 59" by simp
  have "unat n = r * (16 * M) + M"
    using assms(1) by (simp add: id_state_def M_def power_add)
  also have "\<dots> = q * (P * (16 * M)) + (t * (16 * M) + M)"
    by (simp add: r algebra_simps)
  finally have n: "unat n = q * 2 ^ 59 + (t * (16 * M) + M)"
    unfolding PM .
  show "unat (drop_bit 59 n) = r div 32 ^ (11 - k)"
    using low by (simp add: unat_drop_bit n q_def P_def)
  have "unat (push_bit 5 n) = (unat n * 32) mod 2 ^ 64"
    by (simp add: unsigned_push_bit_eq push_bit_eq_mult [where 'a = nat] take_bit_eq_mod [where 'a = nat])
  also have "unat n * 32 = 32 * (t * (16 * M) + M) + q * 2 ^ 64"
    by (simp add: n)
  also have "\<dots> mod 2 ^ 64 = 32 * (t * (16 * M) + M)"
    using low by (subst mod_mult_self1, intro mod_less) simp
  finally have p: "unat (push_bit 5 n) = 32 * (t * (16 * M) + M)" .
  have "60 - 5 * Suc k = 55 - 5 * k" by simp
  then show "id_state (Suc k) (r mod 32 ^ (11 - k)) (push_bit 5 n)"
    using assms(2) \<open>t < P\<close> p by (simp add: id_state_def P t_def [symmetric, unfolded P_def] M_def power_add)
qed

lemma id_loop_digits:
  "id_state k r n \<Longrightarrow>
     id_loop n buf = Some (buf @ map (\<lambda>d. BASE32_ALPHABET ! d) (base32_digits (12 - k) r))"
proof (induction "12 - k" arbitrary: k r n buf)
  case 0
  then have "k = 12" by (simp add: id_state_def)
  with 0 show ?case
    using id_state_stop [of k r n] by (simp add: id_loop.simps)
next
  case (Suc m)
  then have k: "k < 12" "12 - k = Suc (11 - k)" "12 - Suc k = 11 - k" by auto
  then have "n \<noteq> push_bit 60 1"
    using id_state_stop [OF Suc.prems] by auto
  moreover have "id_loop (push_bit 5 n) (buf @ [BASE32_ALPHABET ! unat (drop_bit 59 n)]) =
      Some ((buf @ [BASE32_ALPHABET ! unat (drop_bit 59 n)]) @
        map (\<lambda>d. BASE32_ALPHABET ! d) (base32_digits (11 - k) (r mod 32 ^ (11 - k))))"
    using Suc.hyps(1) [of "Suc k", OF _ id_state_step(2) [OF Suc.prems k(1)]] Suc.hyps(2) k by simp
  ultimately show ?case
    using id_state_step(1) [OF Suc.prems k(1)] k(2) by (subst id_loop.simps) simp
qed

lemma base32_digits_less: "r < 32 ^ m \<Longrightarrow> d \<in> set (base32_digits m r) \<Longrightarrow> d < 32"
proof (induction m arbitrary: r)
  case (Suc m)
  then show ?case
    using Suc.IH [of "r mod 32 ^ m"] by (auto simp: less_mult_imp_div_less)
qed simp

lemma append_digit:
  fixes v :: u64
  assumes "d < 32"
  shows "push_bit 5 v OR of_nat d = of_nat (unat v * 32 + d)"
proof -
  have d: "take_bit 5 (of_nat d) = (of_nat d :: u64)"
    using assms by (simp add: take_bit_of_nat take_bit_nat_eq_self)
  have "push_bit 5 v OR take_bit 5 (of_nat d) = push_bit 5 v + take_bit 5 (of_nat d)"
    by (rule disjunctive_add [symmetric]) (auto simp: bit_simps)
  also have "\<dots> = v * 32 + of_nat d"
    by (simp only: d push_bit_eq_mult) simp
  finally show ?thesis
    by (simp only: d) simp
qed

lemma id_bytes_loop_digit:
  assumes "d < 32" "unat v * 32 + d < 2 ^ 64"
  shows "id_bytes_loop (BASE32_ALPHABET ! d # bs) v = id_bytes_loop bs (of_nat (unat v * 32 + d))"
proof -
  have d: "unat (of_nat d :: u8) = d"
    using assms(1) by (simp add: unsigned_of_nat take_bit_nat_eq_self)
  then have "BASE32_INVERSE ! unat (BASE32_ALPHABET ! d) = of_nat d" "(of_nat d :: u8) \<noteq> 255"
    using alphabet_inverse [of "of_nat d"] assms(1) by simp_all
  moreover have "(ucast (of_nat d :: u8) :: u64) = of_nat d"
    using d by (metis of_nat_unat)
  ultimately show ?thesis
    using append_digit [OF assms(1)] by simp
qed

lemma id_bytes_loop_digits:
  "r < 32 ^ m \<Longrightarrow> unat v * 32 ^ m + r < 2 ^ 64 \<Longrightarrow>
     id_bytes_loop (map (\<lambda>d. BASE32_ALPHABET ! d) (base32_digits m r) @ bs) v = id_bytes_loop bs (of_nat (unat v * 32 ^ m + r))"
proof (induction m arbitrary: r v)
  case (Suc m)
  let ?d = "r div 32 ^ m" and ?t = "r mod 32 ^ m"
  have d: "?d < 32" using Suc.prems(1) by (simp add: less_mult_imp_div_less)
  have r: "r = ?d * 32 ^ m + ?t" by (rule div_mult_mod_eq [symmetric])
  have e: "(unat v * 32 + ?d) * 32 ^ m + ?t = unat v * 32 ^ Suc m + r"
    by (subst (3) r) (simp add: algebra_simps)
  have "unat v * 32 + ?d \<le> (unat v * 32 + ?d) * 32 ^ m + ?t"
    using mult_le_mono2 [of 1 "32 ^ m" "unat v * 32 + ?d"] by (intro trans_le_add1) simp
  also have "\<dots> < 2 ^ 64"
    unfolding e by (rule Suc.prems(2))
  finally have b: "unat v * 32 + ?d < 2 ^ 64" .
  then have u: "unat (of_nat (unat v * 32 + ?d) :: u64) = unat v * 32 + ?d"
    by (intro unat_of_nat_less) simp
  show ?case
    using Suc.IH [of ?t "of_nat (unat v * 32 + ?d)"] Suc.prems(2)
    by (simp only: base32_digits.simps list.map append_Cons id_bytes_loop_digit [OF d b] u e) simp
qed simp

text \<open>The string of an identifier: its digits, from the first group that is kept.\<close>

lemma id_state_start:
  fixes jid :: u64
  assumes "unat jid mod 2 ^ 60 = r"
  shows "id_state 0 r (push_bit 4 jid OR 1)"
proof -
  have "unat (push_bit 4 jid) = (unat jid * 16) mod 2 ^ 64"
    by (simp add: unsigned_push_bit_eq push_bit_eq_mult [where 'a = nat] take_bit_eq_mod [where 'a = nat])
  also have "\<dots> = r * 16"
    using assms mod_mult_mult2 [of "unat jid" 16 "2 ^ 60"] by simp
  finally have p: "unat (push_bit 4 jid) = r * 16" .
  have "r < 2 ^ 60" using assms by auto
  have "push_bit 4 jid OR 1 = push_bit 4 jid + 1"
    by (rule disjunctive_add [symmetric]) (auto simp: bit_simps)
  then have "unat (push_bit 4 jid OR 1) = r * 16 + 1"
    using p \<open>r < 2 ^ 60\<close> by (simp add: unat_word_ariths)
  with \<open>r < 2 ^ 60\<close> show ?thesis by (simp add: id_state_def)
qed

lemma leading_zeros_bound:
  assumes "n \<noteq> 0"
  shows "unat n < 2 ^ (64 - leading_zeros n)"
proof -
  from leading_zeros_top [OF assms] obtain m where m: "m < 64" "leading_zeros n = 63 - m"
    "\<forall>i. bit n i \<longrightarrow> i \<le> m" by blast
  then have "take_bit (Suc m) n = n"
    by (intro bit_word_eqI) (auto simp: bit_take_bit_iff less_Suc_eq_le)
  then have "unat n = unat n mod 2 ^ Suc m"
    using m(1) by (metis unsigned_take_bit_eq take_bit_eq_mod)
  also have "\<dots> < 2 ^ Suc m" by simp
  finally show ?thesis using m(1,2) by (simp add: Suc_diff_le)
qed

lemma id_state_skip:
  assumes "id_state 0 r n" "0 < r"
  shows "id_state (leading_zeros n div 5) r (push_bit (leading_zeros n div 5 * 5) n)"
proof -
  define k where "k = leading_zeros n div 5"
  have n: "unat n = r * 16 + 1" "n \<noteq> 0"
    using assms(1) by (auto simp: id_state_def)
  have "unat n < 2 ^ (64 - leading_zeros n)"
    using leading_zeros_bound [OF n(2)] .
  also have "\<dots> \<le> 2 ^ (64 - 5 * k)"
    by (rule power_increasing) (auto simp: k_def)
  finally have b: "r * 16 + 1 < 2 ^ (64 - 5 * k)" using n(1) by simp
  have k: "k \<le> 11"
  proof (rule ccontr)
    assume "\<not> k \<le> 11"
    then have "(2::nat) ^ (64 - 5 * k) \<le> 2 ^ 4" by (intro power_increasing) auto
    with b assms(2) show False by simp
  qed
  then have e: "64 - 5 * k = 4 + (60 - 5 * k)" by simp
  have r: "r * 16 + 1 < 16 * 2 ^ (60 - 5 * k)"
    using b unfolding e power_add by simp
  have "unat n * 2 ^ (5 * k) < 2 ^ (64 - 5 * k) * 2 ^ (5 * k)"
    using b unfolding n(1) [symmetric] by (rule mult_strict_right_mono) simp
  also have "\<dots> = 2 ^ 64"
    using k by (simp flip: power_add)
  finally have "unat (push_bit (5 * k) n) = unat n * 2 ^ (5 * k)"
    by (simp add: unsigned_push_bit_eq push_bit_eq_mult [where 'a = nat] take_bit_eq_mod [where 'a = nat])
  then show ?thesis
    using n(1) k r unfolding k_def [symmetric] mult.commute [of k]
    by (simp add: id_state_def power_add add_mult_distrib)
qed

lemma id_roundtrip_aux: "\<exists>s. id_as_string jid = Some s \<and> id_from_bytes s = Some jid"
proof (cases "jid = 0")
  case True
  then show ?thesis
    using id_bytes_loop_digit [of 0 0 "[]"] by (simp add: id_as_string_def id_from_bytes_def BASE32_ALPHABET_def)
next
  case False
  let ?n = "push_bit 4 jid OR 1" and ?v = "unat jid" and ?A = "\<lambda>ds. map (\<lambda>d. BASE32_ALPHABET ! d) ds"
  have v: "?v < 2 ^ 64" "0 < ?v"
    using False unsigned_less [of jid] by (auto simp: unat_gt_0)
  have top: "unat (drop_bit 60 jid) = ?v div 2 ^ 60" by (simp add: unat_drop_bit)
  show ?thesis
  proof (cases "drop_bit 60 jid = 0")
    case True
    then have small: "?v mod 2 ^ 60 = ?v"
      using top by (metis div_eq_0_iff mod_less unsigned_0 power_not_zero zero_neq_numeral)
    let ?k = "leading_zeros ?n div 5"
    have st: "id_state ?k ?v (push_bit (?k * 5) ?n)"
      using id_state_skip [OF id_state_start [OF small]] v(2) by blast
    then have "id_as_string jid = Some (?A (base32_digits (12 - ?k) ?v))"
      using False True by (simp add: id_as_string_def id_loop_digits)
    moreover have "?v < 32 ^ (12 - ?k)"
      using st power_mult [of "2::nat" 5 "12 - ?k"] by (simp add: id_state_def diff_mult_distrib2)
    then have "id_from_bytes (?A (base32_digits (12 - ?k) ?v)) = Some jid"
      using id_bytes_loop_digits [of ?v "12 - ?k" 0 "[]"] v(1) by (simp add: id_from_bytes_def)
    ultimately show ?thesis by blast
  next
    case high: False
    let ?d = "?v div 2 ^ 60" and ?r = "?v mod 2 ^ 60"
    have "id_as_string jid = Some (BASE32_ALPHABET ! ?d # ?A (base32_digits 12 ?r))"
      using False high id_loop_digits [OF id_state_start [of jid ?r]] by (simp add: id_as_string_def top)
    moreover have "id_from_bytes (BASE32_ALPHABET ! ?d # ?A (base32_digits 12 ?r)) = Some jid"
    proof -
      have d: "?d < 32" using v(1) by (simp add: less_mult_imp_div_less)
      have u: "unat (of_nat ?d :: u64) = ?d"
        using d by (intro unat_of_nat_less) simp
      have "?d * 32 ^ 12 + ?r = ?v"
        using div_mult_mod_eq [of ?v "2 ^ 60"] by simp
      then show ?thesis
        using id_bytes_loop_digit [of ?d 0 "?A (base32_digits 12 ?r)"] d u v(1)
          id_bytes_loop_digits [of ?r 12 "of_nat ?d" "[]"]
        by (simp add: id_from_bytes_def del: of_nat_add of_nat_mult)
    qed
    ultimately show ?thesis by blast
  qed
qed

text \<open>C16: The printed form of an identifier always exists (the printing loop ends) and reads back as
  that identifier.\<close>

theorem id_roundtrip: "\<exists>s. id_as_string jid = Some s \<and> id_from_bytes s = Some jid"
  by (rule id_roundtrip_aux)

text \<open>The two halves of an identifier are recovered from it, and determine it.\<close>

theorem id_parts_roundtrip:
  "id_prefix_id (id_from_parts prefix doc) = prefix \<and> id_document_id (id_from_parts prefix doc) = doc \<and>
   id_from_parts (id_prefix_id jid) (id_document_id jid) = jid"
proof (intro conjI)
  have m: "(0xFFFFFFFF :: u64) = mask 32" by (simp add: mask_eq_exp_minus_1)
  show "id_prefix_id (id_from_parts prefix doc) = prefix"
    by (rule bit_word_eqI) (auto simp: id_prefix_id_def id_from_parts_def bit_simps dest: bit_imp_le_length)
  show "id_document_id (id_from_parts prefix doc) = doc"
    by (rule bit_word_eqI) (auto simp: id_document_id_def id_from_parts_def m bit_simps)
  show "id_from_parts (id_prefix_id jid) (id_document_id jid) = jid"
    by (rule bit_word_eqI) (auto simp: id_prefix_id_def id_document_id_def id_from_parts_def m bit_simps)
qed

section \<open>Identifiers in JSON\<close>

abbreviation id_body :: "u8 \<Rightarrow> u64 \<Rightarrow> u64 + unit" where
  "id_body ch jid \<equiv>
     (let i = BASE32_INVERSE ! unat ch in if i \<noteq> 255 then Inl (push_bit 5 jid OR ucast i) else Inr ())"

lemma run_id: "run id_body v bs = id_bytes_loop bs v"
  by (induction bs arbitrary: v) (simp_all add: Let_def)

lemma id_bytes_plain: "id_bytes_loop bs v = Some w \<Longrightarrow> list_all plain bs"
proof (induction bs arbitrary: v)
  case (Cons c bs)
  have "BASE32_INVERSE ! unat (0x22::u8) = 255 \<and> BASE32_INVERSE ! unat (0x5c::u8) = 255"
    by code_simp
  then have "plain c"
    using Cons.prems by (auto simp: plain_def Let_def split: if_splits)
  with Cons show ?case by (auto simp: Let_def split: if_splits)
qed simp

interpretation item_id: item_parser id_parse
  by unfold_locales
    (auto simp: id_parse_def split: sum.split intro!: item_parser_intros)

text \<open>The JSON parser reads the printed form of an identifier, between quotes, as that
  identifier, and stands after the closing quote.\<close>

theorem id_token:
  assumes "id_as_string jid = Some s" "p_next_ch p = None" "p_iter p = 0x22 # s @ 0x22 # rest"
  shows "\<exists>q. next_token pf id_parse p = (Inr (String jid), q) \<and> p_iter q = rest"
proof -
  let ?p = "in_string p (s @ 0x22 # rest)" and ?q = "past_quote (in_string p (s @ 0x22 # rest)) s rest"
  have r: "id_bytes_loop s 0 = Some jid"
    using id_roundtrip_aux [of jid] assms(1) by (simp add: id_from_bytes_def)
  have "while_unescaped id_body 0 ?p = (Inr (Inl jid), ?q)"
    by (rule while_unescaped_plain [OF id_bytes_plain [OF r]]) (simp_all add: run_id r in_string_def)
  then have "id_parse ?p = (Inr jid, ?q)"
    by (simp add: id_parse_def)
  then have "next_token pf id_parse p = (Inr (String jid), ?q)"
    by (rule next_token_string [OF assms(2,3)]) (simp add: past_quote_def)
  then show ?thesis by (simp add: past_quote_def)
qed

theorem id_token_witness:
  "\<exists>q. next_token (\<lambda>_. None) id_parse (parser_new (0x22 # lit ''a'' @ 0x22 # [])) = (Inr (String 0), q) \<and> p_iter q = []"
  by (rule id_token) (simp_all add: id_as_string_def parser_new_def)

end
