(* ===== verification/JmapState.thy ===== *)
theory JmapState
  imports Keyword JmapId
begin

text \<open>
  Base32 inside JSON strings (crates/jmap-proto/src/parser/base32.rs), the state strings of
  JMAP (crates/jmap-proto/src/types/state.rs) and blob identifiers
  (crates/jmap-proto/src/types/blob.rs). A state or blob identifier is a LEB128 record in base32;
  the JSON reader pulls its characters straight from the parser.
\<close>

section \<open>The base32 reader over a JSON parser\<close>

record json_base32_reader =
  j_parser :: parser
  j_last_byte :: u8
  j_pos :: nat

definition json_base32_new :: "parser \<Rightarrow> json_base32_reader" where
  "json_base32_new p = \<lparr> j_parser = p, j_last_byte = 0, j_pos = 0 \<rparr>"

definition json_map_byte :: "json_base32_reader \<Rightarrow> u8 option \<times> json_base32_reader" where
  "json_map_byte r =
     (case next_unescaped (j_parser r) of
        (Inr (Some byte), p) \<Rightarrow>
          (let decoded_byte = BASE32_INVERSE ! unat byte in
           if decoded_byte \<noteq> 255 then (Some decoded_byte, r\<lparr>j_parser := p, j_last_byte := decoded_byte\<rparr>)
           else (None, r\<lparr>j_parser := p\<rparr>))
      | (_, p) \<Rightarrow> (None, r\<lparr>j_parser := p\<rparr>))"

definition json_base32_next :: "json_base32_reader \<Rightarrow> u8 option \<times> json_base32_reader" where
  "json_base32_next r =
     (let pos = j_pos r mod 5; last_byte = j_last_byte r in
      case json_map_byte r of
        (None, r1) \<Rightarrow> (None, r1)
      | (Some byte, r1) \<Rightarrow>
          (let r2 = r1\<lparr>j_pos := j_pos r1 + 1\<rparr>; (nb, r3) = json_map_byte r2; n = unwrap_or_0 nb in
           if pos = 0 then (Some (push_bit 3 byte OR drop_bit 2 n), r3)
           else if pos = 1 then (Some (push_bit 6 last_byte OR push_bit 1 byte OR drop_bit 4 n), r3)
           else if pos = 2 then (Some (push_bit 4 last_byte OR drop_bit 1 byte), r2)
           else if pos = 3 then (Some (push_bit 7 last_byte OR push_bit 2 byte OR drop_bit 3 n), r3)
           else (Some (push_bit 5 last_byte OR byte), r2)))"

text \<open>
  It follows the reader over a slice as long as that one does not reach the end: \<open>sim p rest\<close>
  says that it has the slice before it, then a closing quote and \<open>rest\<close>, in a parser that was \<open>p\<close>.
\<close>

definition sim :: "parser \<Rightarrow> bytes \<Rightarrow> json_base32_reader \<Rightarrow> base32_reader \<Rightarrow> bool" where
  "sim p rest j r \<longleftrightarrow> j_last_byte j = r_last_byte r \<and> j_pos j = r_pos r \<and>
     p_iter (j_parser j) = r_bytes r @ 0x22 # rest \<and> keeps p (j_parser j) \<and> \<not> p_is_eof (j_parser j)"

lemma json_map_byte_sim:
  assumes "sim p rest j r" "map_byte r = (Some b, r')"
  shows "\<exists>j'. json_map_byte j = (Some b, j') \<and> sim p rest j' r'"
proof -
  obtain c cs where c: "r_bytes r = c # cs" "BASE32_INVERSE ! unat c = b" "b \<noteq> 255"
      "r' = r\<lparr>r_bytes := cs, r_last_byte := b\<rparr>"
    using assms(2) by (auto simp: map_byte_def Let_def split: list.splits if_splits)
  have "BASE32_INVERSE ! unat (0x22::u8) = 255 \<and> BASE32_INVERSE ! unat (0x5c::u8) = 255"
    by code_simp
  then have "plain c"
    using c by (auto simp: plain_def)
  then show ?thesis
    using assms(1) c
    by (simp add: sim_def json_map_byte_def next_unescaped_plain keeps_iter Let_def)
qed

lemma sim_pos: "sim p rest j r \<Longrightarrow> sim p rest (j\<lparr>j_pos := n\<rparr>) (r\<lparr>r_pos := n\<rparr>)"
  by (simp add: sim_def)

lemma json_base32_next_sim:
  assumes "sim p rest j r" "base32_next r = (Some b, r')"
    and second: "\<And>byte r1. map_byte r = (Some byte, r1) \<Longrightarrow> r_pos r mod 5 \<notin> {2, 4} \<Longrightarrow>
      \<exists>n r3. map_byte (r1\<lparr>r_pos := r_pos r1 + 1\<rparr>) = (Some n, r3)"
  shows "\<exists>j'. json_base32_next j = (Some b, j') \<and> sim p rest j' r'"
proof -
  obtain byte r1 where r1: "map_byte r = (Some byte, r1)"
    using assms(2) by (auto simp: base32_next_def Let_def split: prod.splits option.splits)
  obtain j1 where j1: "json_map_byte j = (Some byte, j1)" "sim p rest j1 r1"
    using json_map_byte_sim [OF assms(1) r1] by blast
  let ?r2 = "r1\<lparr>r_pos := r_pos r1 + 1\<rparr>" and ?j2 = "j1\<lparr>j_pos := j_pos j1 + 1\<rparr>"
  have pos: "j_pos j = r_pos r" "j_last_byte j = r_last_byte r" "j_pos j1 = r_pos r1"
    using assms(1) j1(2) by (simp_all add: sim_def)
  have s2: "sim p rest ?j2 ?r2"
    using sim_pos [OF j1(2)] pos(3) by simp
  show ?thesis
  proof (cases "r_pos r mod 5 \<in> {2, 4}")
    case True
    then show ?thesis
      using assms(2) r1 j1(1) s2 by (auto simp: base32_next_def json_base32_next_def Let_def pos split: prod.splits)
  next
    case False
    from second [OF r1 this] obtain n r3 where r3: "map_byte ?r2 = (Some n, r3)" by blast
    obtain j3 where j3: "json_map_byte ?j2 = (Some n, j3)" "sim p rest j3 r3"
      using json_map_byte_sim [OF s2 r3] by blast
    have "r_pos r mod 5 = 0 \<or> r_pos r mod 5 = 1 \<or> r_pos r mod 5 = 3"
      using False mod_less_divisor [of 5 "r_pos r"] by auto
    then show ?thesis
      using assms(2) r1 j1(1) r3 j3 by (elim disjE) (simp_all add: base32_next_def json_base32_next_def Let_def pos)
  qed
qed

lemma emit_less: "g \<in> set (emit p l bs) \<Longrightarrow> unat g < 32"
proof (induction bs arbitrary: p l)
  case Nil
  then show ?case by (auto simp: groups_less_32 split: if_splits)
next
  case (Cons b bs)
  then show ?case using groups_less_32 second_group [of p l b] by (auto split: if_splits)
qed

lemma reader_at_second:
  assumes "reader_at p l (b # bs) r" "map_byte r = (Some byte, r1)" "p mod 5 \<notin> {2, 4}"
  shows "\<exists>n r3. map_byte (r1\<lparr>r_pos := r_pos r1 + 1\<rparr>) = (Some n, r3)"
proof -
  have "(p + 1) mod 5 \<noteq> 0"
    using assms(3) by (simp, presburger)
  then obtain c gs where rest: "emit (p + 1) b bs = fst (push_groups (p + 1) b c) # gs"
    using emit_first by blast
  obtain g1 g2 gs' where g: "r_bytes r = alpha g1 # alpha g2 # map alpha gs'" "unat g1 < 32" "unat g2 < 32"
    using assms(1,3) rest emit_less [of _ p l "b # bs"] by (auto simp: reader_at_def split: if_splits)
  then have "r1 = r\<lparr>r_bytes := alpha g2 # map alpha gs', r_last_byte := g1\<rparr>"
    using assms(2) map_byte_alpha [of r g1] by auto
  then show ?thesis
    using map_byte_alpha [of "r1\<lparr>r_pos := r_pos r1 + 1\<rparr>" g2] g(3) by simp
qed

text \<open>The reader before the base32 form of \<open>bs\<close>.\<close>

definition json_holds :: "parser \<Rightarrow> bytes \<Rightarrow> json_base32_reader \<Rightarrow> bytes \<Rightarrow> bool" where
  "json_holds p rest j bs \<longleftrightarrow> (\<exists>q l r. reader_at q l bs r \<and> sim p rest j r)"

interpretation json_source: byte_source json_base32_next "json_holds p rest"
proof
  fix j b bs
  assume "json_holds p rest j (b # bs)"
  then obtain q l r where r: "reader_at q l (b # bs) r" "sim p rest j r"
    by (auto simp: json_holds_def)
  then obtain r' where r': "base32_next r = (Some b, r')" "reader_at (q + 1) b bs r'"
    using base32_next_reader_at by blast
  then obtain j' where "json_base32_next j = (Some b, j')" "sim p rest j' r'"
    using json_base32_next_sim [OF r(2)] reader_at_second [OF r(1)] r(1) by (auto simp: reader_at_def)
  with r' show "\<exists>j'. json_base32_next j = (Some b, j') \<and> json_holds p rest j' bs"
    by (auto simp: json_holds_def)
qed

lemma json_holds_start:
  assumes "p_iter p = map alpha (emit 0 0 bs) @ 0x22 # rest" "\<not> p_is_eof p"
  shows "json_holds p rest (json_base32_new p) bs"
  using assms unfolding json_holds_def
  by (intro exI [of _ 0] exI [of _ "base32_reader_new (map alpha (emit 0 0 bs))"])
    (simp add: sim_def json_base32_new_def base32_reader_new_def reader_at_def)

lemma json_holds_end:
  assumes "json_holds p rest j []"
  shows "p_iter (j_parser j) = 0x22 # rest" "keeps p (j_parser j)" "\<not> p_is_eof (j_parser j)"
proof -
  obtain q l r where r: "reader_at q l [] r" "sim p rest j r"
    using assms by (auto simp: json_holds_def)
  then have "r_bytes r = []" by (auto simp: reader_at_def split: if_splits)
  with r(2) show "p_iter (j_parser j) = 0x22 # rest" "keeps p (j_parser j)" "\<not> p_is_eof (j_parser j)"
    by (auto simp: sim_def)
qed

section \<open>States\<close>

record intermediate_state =
  from_id :: u64
  to_id :: u64
  items_sent :: u64

datatype state = Initial | Exact u64 | Intermediate intermediate_state

definition new_intermediate :: "u64 \<Rightarrow> u64 \<Rightarrow> u64 \<Rightarrow> state" where
  "new_intermediate from to sent = Intermediate \<lparr>from_id = from, to_id = to, items_sent = sent\<rparr>"

definition state_from :: "u64 option \<Rightarrow> state" where
  "state_from change_id = (case change_id of Some c \<Rightarrow> Exact c | None \<Rightarrow> Initial)"

definition get_change_id :: "state \<Rightarrow> u64" where
  "get_change_id st = (case st of Exact c \<Rightarrow> c | Intermediate i \<Rightarrow> to_id i | Initial \<Rightarrow> -1)"

text \<open>\<^verbatim>\<open>writer.write_leb128(..).unwrap()\<close>: writing into the base32 writer does not fail.\<close>

definition write_leb128 :: "'a::len word \<Rightarrow> base32_writer \<Rightarrow> base32_writer" where
  "write_leb128 v w = snd (to_leb128_writer base32_write v w)"

definition state_display :: "state \<Rightarrow> bytes" where
  "state_display st =
     (let writer = with_raw_capacity in
      finalize (case st of
        Initial \<Rightarrow> push_char writer 0x6e
      | Exact c \<Rightarrow> write_leb128 c (push_char writer 0x73)
      | Intermediate i \<Rightarrow>
          write_leb128 (items_sent i)
            (write_leb128 (to_id i - from_id i)
              (write_leb128 (from_id i) (push_char writer 0x72)))))"

definition u64_saturating_add :: "u64 \<Rightarrow> u64 \<Rightarrow> u64" where
  "u64_saturating_add a b = (if unat a + unat b < 2 ^ 64 then a + b else -1)"

abbreviation json_leb128 :: "nat list \<Rightarrow> json_base32_reader \<Rightarrow> u64 option \<times> json_base32_reader" where
  "json_leb128 \<equiv> from_leb128_it json_base32_next"

text \<open>All three numbers of an intermediate state are read before any of them is looked at.\<close>

definition state_parse :: "parser \<Rightarrow> state presult" where
  "state_parse p =
     pbind (next_unescaped p) (\<lambda>c p.
       case c of
         None \<Rightarrow> fail_value p
       | Some ch \<Rightarrow>
           if ch = 0x6e then (Inr Initial, p)
           else if ch = 0x73 then
             (case json_leb128 u64_shifts (json_base32_new p) of
                (Some c, reader) \<Rightarrow> (Inr (Exact c), j_parser reader)
              | (None, reader) \<Rightarrow> fail_value (j_parser reader))
           else if ch = 0x72 then
             (let (from, it) = json_leb128 u64_shifts (json_base32_new p);
                  (to, it) = json_leb128 u64_shifts it;
                  (sent, it) = json_leb128 usize_shifts it
              in case (from, to, sent) of
                   (Some from, Some to, Some sent) \<Rightarrow>
                     if sent > 0
                     then (Inr (Intermediate \<lparr>from_id = from, to_id = u64_saturating_add from to, items_sent = sent\<rparr>),
                           j_parser it)
                     else fail_value (j_parser it)
                 | _ \<Rightarrow> fail_value (j_parser it))
           else fail_value p)"

section \<open>State changes\<close>

record state_change =
  c_account_id :: u32
  c_types :: "(data_type \<times> u64) list"

definition state_change_new :: "u32 \<Rightarrow> state_change" where
  "state_change_new acc = \<lparr>c_account_id = acc, c_types = []\<rparr>"

fun set_first :: "data_type \<Rightarrow> u64 \<Rightarrow> (data_type \<times> u64) list \<Rightarrow> (data_type \<times> u64) list option" where
  "set_first ts c [] = None"
| "set_first ts c ((t, v) # xs) = (if t = ts then Some ((t, c) # xs) else map_option ((#) (t, v)) (set_first ts c xs))"

definition with_change :: "state_change \<Rightarrow> data_type \<Rightarrow> u64 \<Rightarrow> state_change" where
  "with_change s ts c =
     (case set_first ts c (c_types s) of
        Some xs \<Rightarrow> s\<lparr>c_types := xs\<rparr>
      | None \<Rightarrow> s\<lparr>c_types := c_types s @ [(ts, c)]\<rparr>)"

definition has_changes :: "state_change \<Rightarrow> bool" where
  "has_changes s \<longleftrightarrow> c_types s \<noteq> []"

section \<open>Reading a state back\<close>

definition leb :: "'a::len word \<Rightarrow> bytes" where
  "leb v = to_leb128_bytes v []"

lemma write_leb128_foldl: "write_leb128 v w = foldl (\<lambda>w b. push_byte w b False) w (leb v)"
  by (simp add: write_leb128_def base32_sink.to_leb128_writer_sink leb_def)

lemma state_display_emit:
  "state_display Initial = [0x6e]"
  "state_display (Exact c) = 0x73 # map alpha (emit 0 0 (leb c))"
  "state_display (Intermediate i) =
     0x72 # map alpha (emit 0 0 (leb (from_id i) @ leb (to_id i - from_id i) @ leb (items_sent i)))"
  using finalize_emit [of "push_char with_raw_capacity 0x6e" "[]"]
  by (simp_all add: state_display_def Let_def write_leb128_foldl finalize_emit push_char_def with_raw_capacity_def
      flip: foldl_append)

lemma json_leb128_encoded:
  assumes "json_holds p rest it (leb v @ bs)" "shifts = u64_shifts \<or> shifts = usize_shifts"
  obtains it' where "json_leb128 shifts it = (Some v, it')" "json_holds p rest it' bs"
  using json_source.from_leb128_it_encoded [of shifts 10 v p rest it bs] assms unat_less_exp [of 70 v] shift_tables(4,5)
  by (auto simp: leb_def)

lemma skip_to_quote:
  assumes "p_iter p = 0x22 # rest"
  shows "skip_string p = (True, past_quote p [] rest)"
  using assms by (simp add: skip_string_def skip_string_loop_plain)

lemma next_token_string_before_quote:
  assumes "p_next_ch p = None" "p_iter p = 0x22 # cs" "parse (in_string p cs) = (Inr v, q)"
    and "\<not> p_is_eof q" "p_iter q = 0x22 # rest"
  shows "next_token pf parse p = (Inr (String v), past_quote q [] rest)"
  using assms skip_to_quote [OF assms(5)]
  by (simp add: next_token_def next_char_simps next_token_loop.simps in_string_def)

text \<open>The states that the code builds: a client is sent at least one item of a range of changes.\<close>

fun state_wf :: "state \<Rightarrow> bool" where
  "state_wf (Intermediate i) \<longleftrightarrow> from_id i \<le> to_id i \<and> items_sent i > 0"
| "state_wf _ \<longleftrightarrow> True"

lemma saturating_diff: "a \<le> b \<Longrightarrow> u64_saturating_add a (b - a) = b"
proof -
  assume "a \<le> b"
  then have "unat a + unat (b - a) = unat b"
    by (simp add: unat_sub word_le_nat_alt)
  then show ?thesis
    using unsigned_less [of b, where ?'a = nat] by (simp add: u64_saturating_add_def)
qed

lemma state_parse_display:
  assumes "state_wf st" "p_iter p = state_display st @ 0x22 # rest" "\<not> p_is_eof p"
  shows "\<exists>q. state_parse p = (Inr st, q) \<and> \<not> p_is_eof q \<and> p_iter q = 0x22 # rest"
proof -
  obtain c w where w: "state_display st = c # w" "plain c"
    by (cases st) (auto simp: state_display_emit plain_def)
  let ?p = "p\<lparr>p_pos := p_pos p + 1, p_iter := w @ 0x22 # rest\<rparr>"
  have nu: "next_unescaped p = (Inr (Some c), ?p)"
    using assms(2) w by (simp add: next_unescaped_plain)
  have start: "json_holds ?p rest (json_base32_new ?p) bs" if "w = map alpha (emit 0 0 bs)" for bs
    using that assms(3) by (intro json_holds_start) simp_all
  show ?thesis
  proof (cases st)
    case Initial
    then show ?thesis using nu w assms(3) by (simp add: state_parse_def state_display_emit)
  next
    case (Exact i)
    with w have "json_holds ?p rest (json_base32_new ?p) (leb i @ [])"
      using start [of "leb i"] by (simp add: state_display_emit)
    then obtain it where it: "json_leb128 u64_shifts (json_base32_new ?p) = (Some i, it)" "json_holds ?p rest it []"
      by (rule json_leb128_encoded [OF _ disjI1 [OF refl]])
    with json_holds_end [OF it(2)] show ?thesis
      using nu w Exact by (simp add: state_parse_def state_display_emit)
  next
    case (Intermediate i)
    with w have "json_holds ?p rest (json_base32_new ?p) (leb (from_id i) @ leb (to_id i - from_id i) @ leb (items_sent i) @ [])"
      by (intro start) (simp add: state_display_emit)
    then obtain it where it: "json_leb128 u64_shifts (json_base32_new ?p) = (Some (from_id i), it)"
        "json_holds ?p rest it (leb (to_id i - from_id i) @ leb (items_sent i) @ [])"
      by (rule json_leb128_encoded [OF _ disjI1 [OF refl]])
    from it(2) obtain it' where it': "json_leb128 u64_shifts it = (Some (to_id i - from_id i), it')"
        "json_holds ?p rest it' (leb (items_sent i) @ [])"
      by (rule json_leb128_encoded [OF _ disjI1 [OF refl]])
    from it'(2) obtain it'' where it'': "json_leb128 usize_shifts it' = (Some (items_sent i), it'')"
        "json_holds ?p rest it'' []"
      by (rule json_leb128_encoded [OF _ disjI2 [OF refl]])
    with it(1) it'(1) json_holds_end [OF it''(2)] show ?thesis
      using nu w Intermediate assms(1) by (simp add: state_parse_def state_display_emit saturating_diff)
  qed
qed

section \<open>Properties\<close>

text \<open>C29: The JSON parser reads the printed form of a state, between quotes, as that state, and stands
  after the closing quote.\<close>

theorem state_token:
  assumes "state_wf st" "p_next_ch p = None" "p_iter p = 0x22 # state_display st @ 0x22 # rest"
  shows "\<exists>q. next_token pf state_parse p = (Inr (String st), q) \<and> p_iter q = rest"
proof -
  let ?p = "in_string p (state_display st @ 0x22 # rest)"
  obtain q where q: "state_parse ?p = (Inr st, q)" "\<not> p_is_eof q" "p_iter q = 0x22 # rest"
    using state_parse_display [OF assms(1), of ?p rest] by (auto simp: in_string_def)
  then have "next_token pf state_parse p = (Inr (String st), past_quote q [] rest)"
    by (rule next_token_string_before_quote [OF assms(2,3)])
  then show ?thesis by (simp add: past_quote_def)
qed

theorem state_token_witness:
  "\<exists>q. next_token (\<lambda>_. None) state_parse
        (parser_new (0x22 # state_display (new_intermediate 200 1000 7) @ 0x22 # lit '',''))
      = (Inr (String (new_intermediate 200 1000 7)), q) \<and> p_iter q = lit '',''"
  by (rule state_token) (simp_all add: parser_new_def new_intermediate_def)


lemma set_first_None: "set_first ts c xs = None \<longleftrightarrow> ts \<notin> fst ` set xs"
  by (induction xs) (auto split: if_splits)

lemma set_first_Some:
  "set_first ts c xs = Some ys \<Longrightarrow> map_of ys = (map_of xs)(ts \<mapsto> c) \<and> map fst ys = map fst xs"
  by (induction xs arbitrary: ys) (auto simp: fun_upd_twist split: if_splits)

text \<open>A state change is a finite map from types to change ids: recording a change is the map's
  update, and every type stays listed at most once.\<close>

theorem with_change_update:
  "map_of (c_types (with_change s ts c)) = (map_of (c_types s))(ts \<mapsto> c)
   \<and> (distinct (map fst (c_types (with_change s ts c))) \<longleftrightarrow> distinct (map fst (c_types s)))
   \<and> has_changes (with_change s ts c) \<and> c_account_id (with_change s ts c) = c_account_id s"
proof (cases "set_first ts c (c_types s)")
  case None
  then have "ts \<notin> fst ` set (c_types s)" by (simp add: set_first_None)
  then have "map_of (c_types s @ [(ts, c)]) = (map_of (c_types s))(ts \<mapsto> c)"
    by (simp add: map_add_comm map_of_eq_None_iff [symmetric] map_add_def fun_eq_iff split: option.split)
  with None \<open>ts \<notin> _\<close> show ?thesis by (auto simp: with_change_def has_changes_def)
next
  case (Some xs)
  with set_first_Some [OF Some] show ?thesis
    by (auto simp: with_change_def has_changes_def dest: map_eq_imp_length_eq)
qed

end
