(* ===== verification/BlobId.thy ===== *)
theory BlobId
  imports JmapState
begin

text \<open>
  Blob identifiers (crates/jmap-proto/src/types/blob.rs): the hash of a blob, who may read it, and
  the section of it that is meant. One writer and one reader, generic in the byte stream, serve the
  stored form, the base32 form and JSON.
\<close>

section \<open>Data\<close>

datatype blob_class = Reserved u32 u64 | Linked u32 u8 u32

record blob_section =
  offset_start :: u64
  b_size :: u64
  encoding :: u8

record blob_id =
  b_hash :: bytes
  b_class :: blob_class
  b_section :: "blob_section option"

definition BLOB_HASH_LEN :: nat where "BLOB_HASH_LEN = 32"
definition B_LINKED :: u8 where "B_LINKED = 0x10"
definition B_RESERVED :: u8 where "B_RESERVED = 0x20"

definition blob_new :: "bytes \<Rightarrow> blob_class \<Rightarrow> blob_id" where
  "blob_new h c = \<lparr>b_hash = h, b_class = c, b_section = None\<rparr>"

definition blob_new_section :: "bytes \<Rightarrow> blob_class \<Rightarrow> u64 \<Rightarrow> u64 \<Rightarrow> u8 \<Rightarrow> blob_id" where
  "blob_new_section h c start_off end_off enc =
     \<lparr>b_hash = h, b_class = c,
      b_section = Some \<lparr>offset_start = start_off, b_size = end_off - start_off, encoding = enc\<rparr>\<rparr>"

definition with_section_size :: "blob_id \<Rightarrow> u64 \<Rightarrow> blob_id" where
  "with_section_size b n =
     b\<lparr>b_section := Some ((case b_section b of None \<Rightarrow> \<lparr>offset_start = 0, b_size = 0, encoding = 0\<rparr> | Some s \<Rightarrow> s)\<lparr>b_size := n\<rparr>)\<rparr>"

definition start_offset :: "blob_id \<Rightarrow> u64" where
  "start_offset b = (case b_section b of Some s \<Rightarrow> offset_start s | None \<Rightarrow> 0)"

section \<open>Writing\<close>

definition blob_marker :: "blob_id \<Rightarrow> u8" where
  "blob_marker b =
     (case b_section b of None \<Rightarrow> 0 | Some s \<Rightarrow> encoding s + 1) OR
     (case b_class b of Linked _ _ _ \<Rightarrow> B_LINKED | Reserved _ _ \<Rightarrow> B_RESERVED)"

text \<open>The results of the writes are ignored.\<close>

definition serialize_as :: "('w \<Rightarrow> bytes \<Rightarrow> ('e + nat) \<times> 'w) \<Rightarrow> blob_id \<Rightarrow> 'w \<Rightarrow> 'w" where
  "serialize_as wr b w =
     (let w = snd (wr w [blob_marker b]);
          w = snd (wr w (b_hash b));
          w = (case b_class b of
                 Reserved acc expires \<Rightarrow>
                   snd (to_leb128_writer wr expires (snd (to_leb128_writer wr acc w)))
               | Linked acc col doc \<Rightarrow>
                   snd (to_leb128_writer wr doc (snd (wr (snd (to_leb128_writer wr acc w)) [col]))))
      in case b_section b of
           Some s \<Rightarrow> snd (to_leb128_writer wr (b_size s) (snd (to_leb128_writer wr (offset_start s) w)))
         | None \<Rightarrow> w)"

definition blob_display :: "blob_id \<Rightarrow> bytes" where
  "blob_display b = finalize (serialize_as base32_write b with_raw_capacity)"

definition serialize_into :: "blob_id \<Rightarrow> bytes \<Rightarrow> bytes" where
  "serialize_into b buf = serialize_as (vec_write :: _ \<Rightarrow> _ \<Rightarrow> (unit + _) \<times> _) b buf"

section \<open>Reading\<close>

definition itbind :: "'a option \<times> 'it \<Rightarrow> ('a \<Rightarrow> 'it \<Rightarrow> 'b option \<times> 'it) \<Rightarrow> 'b option \<times> 'it" where
  "itbind r f = (case r of (None, it) \<Rightarrow> (None, it) | (Some a, it) \<Rightarrow> f a it)"

fun next_bytes :: "('it \<Rightarrow> u8 option \<times> 'it) \<Rightarrow> nat \<Rightarrow> 'it \<Rightarrow> bytes option \<times> 'it" where
  "next_bytes nx 0 it = (Some [], it)"
| "next_bytes nx (Suc n) it =
     itbind (nx it) (\<lambda>b it. itbind (next_bytes nx n it) (\<lambda>bs it. (Some (b # bs), it)))"

definition class_from_iter :: "('it \<Rightarrow> u8 option \<times> 'it) \<Rightarrow> u8 \<Rightarrow> 'it \<Rightarrow> blob_class option \<times> 'it" where
  "class_from_iter nx marker it =
     itbind (from_leb128_it nx u32_shifts it) (\<lambda>acc it.
     if marker AND B_LINKED \<noteq> 0 then
       itbind (nx it) (\<lambda>col it.
       itbind (from_leb128_it nx u32_shifts it) (\<lambda>doc it. (Some (Linked acc col doc), it)))
     else
       itbind (from_leb128_it nx u64_shifts it) (\<lambda>expires it. (Some (Reserved acc expires), it)))"

definition section_from_iter :: "('it \<Rightarrow> u8 option \<times> 'it) \<Rightarrow> u8 \<Rightarrow> 'it \<Rightarrow> blob_section option option \<times> 'it" where
  "section_from_iter nx enc it =
     (if enc \<noteq> 0 then
        itbind (from_leb128_it nx usize_shifts it) (\<lambda>off it.
        itbind (from_leb128_it nx usize_shifts it) (\<lambda>n it.
          (Some (Some \<lparr>offset_start = off, b_size = n, encoding = enc - 1\<rparr>), it)))
      else (Some None, it))"

definition from_iter :: "('it \<Rightarrow> u8 option \<times> 'it) \<Rightarrow> 'it \<Rightarrow> blob_id option \<times> 'it" where
  "from_iter nx it =
     itbind (nx it) (\<lambda>marker it.
     itbind (next_bytes nx BLOB_HASH_LEN it) (\<lambda>h it.
     itbind (class_from_iter nx marker it) (\<lambda>c it.
     itbind (section_from_iter nx (marker AND 0x0F) it) (\<lambda>s it.
       (Some \<lparr>b_hash = h, b_class = c, b_section = s\<rparr>, it)))))"

definition from_base32 :: "bytes \<Rightarrow> blob_id option" where
  "from_base32 v = fst (from_iter base32_next (base32_reader_new v))"

definition deserialize_from :: "bytes \<Rightarrow> blob_id option \<times> bytes" where
  "deserialize_from bs = from_iter slice_next bs"

definition blob_parse :: "parser \<Rightarrow> blob_id presult" where
  "blob_parse p =
     (case from_iter json_base32_next (json_base32_new p) of
        (Some b, it) \<Rightarrow> (Inr b, j_parser it)
      | (None, it) \<Rightarrow> fail_value (j_parser it))"

section \<open>The reader undoes the writer\<close>

text \<open>The bytes of an identifier, whatever the stream.\<close>

definition class_bytes :: "blob_class \<Rightarrow> bytes" where
  "class_bytes c = (case c of Reserved acc expires \<Rightarrow> leb acc @ leb expires | Linked acc col doc \<Rightarrow> leb acc @ col # leb doc)"

definition section_bytes :: "blob_section option \<Rightarrow> bytes" where
  "section_bytes s = (case s of Some s \<Rightarrow> leb (offset_start s) @ leb (b_size s) | None \<Rightarrow> [])"

definition blob_bytes :: "blob_id \<Rightarrow> bytes" where
  "blob_bytes b = blob_marker b # b_hash b @ class_bytes (b_class b) @ section_bytes (b_section b)"

text \<open>A hash has 32 bytes, and the encoding of a section fits the low half of the marker.\<close>

definition blob_wf :: "blob_id \<Rightarrow> bool" where
  "blob_wf b \<longleftrightarrow> length (b_hash b) = BLOB_HASH_LEN \<and> (case b_section b of None \<Rightarrow> True | Some s \<Rightarrow> encoding s < 15)"

locale bytes_sink = byte_sink wr push for wr :: "'w \<Rightarrow> bytes \<Rightarrow> ('e + nat) \<times> 'w" and push +
  assumes wr_all: "snd (wr w bs) = foldl push w bs"
begin

lemma serialize_as_bytes: "serialize_as wr b w = foldl push w (blob_bytes b)"
  by (simp add: serialize_as_def blob_bytes_def class_bytes_def section_bytes_def to_leb128_writer_sink wr_all leb_def Let_def
      split: blob_class.split option.split)

end

interpretation base32_all: bytes_sink base32_write "\<lambda>w b. push_byte w b False"
  by unfold_locales (simp add: base32_write_def Let_def)

interpretation vec_all: bytes_sink "vec_write :: bytes \<Rightarrow> bytes \<Rightarrow> ('e + nat) \<times> bytes" "\<lambda>w b. w @ [b]"
  by unfold_locales (simp add: vec_write_def foldl_snoc)

lemma itbind_simps [simp]: "itbind (Some a, it) f = f a it" "itbind (None, it) f = (None, it)"
  by (simp_all add: itbind_def)

lemma marker_fields:
  fixes e :: u8
  assumes "e < 15"
  shows "(e + 1 OR B_LINKED) AND 0x0F = e + 1" "(e + 1 OR B_LINKED) AND B_LINKED \<noteq> 0"
    "(e + 1 OR B_RESERVED) AND 0x0F = e + 1" "(e + 1 OR B_RESERVED) AND B_LINKED = 0" "e + 1 \<noteq> 0"
proof -
  have "unat e < 15" using assms by (simp add: word_less_nat_alt)
  then have "unat e \<in> {0, 1, 2, 3, 4, 5, 6, 7, 8, 9, 10, 11, 12, 13, 14}" by (simp, presburger)
  then have "e \<in> {0, 1, 2, 3, 4, 5, 6, 7, 8, 9, 10, 11, 12, 13, 14}"
    by (auto simp: word_unat_eq_iff)
  then show "(e + 1 OR B_LINKED) AND 0x0F = e + 1" "(e + 1 OR B_LINKED) AND B_LINKED \<noteq> 0"
    "(e + 1 OR B_RESERVED) AND 0x0F = e + 1" "(e + 1 OR B_RESERVED) AND B_LINKED = 0" "e + 1 \<noteq> 0"
    by (auto simp: B_LINKED_def B_RESERVED_def)
qed

context byte_source
begin

lemma next_bytes_holds:
  "holds it (bs @ rest) \<Longrightarrow> length bs = n \<Longrightarrow> \<exists>it'. next_bytes nx n it = (Some bs, it') \<and> holds it' rest"
proof (induction bs arbitrary: it n)
  case (Cons b bs)
  then obtain it1 where "nx it = (Some b, it1)" "holds it1 (bs @ rest)"
    using nx_holds by fastforce
  with Cons show ?case by fastforce
qed simp

lemma leb_holds:
  fixes v :: "'a::len word"
  assumes "holds it (leb v @ rest)" "8 \<le> LENGTH('a)" "shifts = map (\<lambda>i. 7 * i) [0..<n]" "LENGTH('a) \<le> 7 * n" "0 < n"
  obtains it' where "from_leb128_it nx shifts it = (Some v, it')" "holds it' rest"
  using from_leb128_it_encoded [OF assms(3,2) unat_less_exp [OF assms(4)] assms(5), of it v rest] assms(1) that
  unfolding leb_def by blast

text \<open>Each part of an identifier, then the whole.\<close>

lemma class_holds:
  assumes "holds it (class_bytes c @ rest)" "marker AND B_LINKED \<noteq> 0 \<longleftrightarrow> (case c of Linked _ _ _ \<Rightarrow> True | _ \<Rightarrow> False)"
  shows "\<exists>it'. class_from_iter nx marker it = (Some c, it') \<and> holds it' rest"
proof (cases c)
  case (Reserved acc expires)
  with assms(1) have "holds it (leb acc @ leb expires @ rest)" by (simp add: class_bytes_def)
  then obtain it1 where 1: "from_leb128_it nx u32_shifts it = (Some acc, it1)" "holds it1 (leb expires @ rest)"
    by (rule leb_holds [OF _ _ shift_tables(3)]) simp_all
  from 1(2) obtain it2 where "from_leb128_it nx u64_shifts it1 = (Some expires, it2)" "holds it2 rest"
    by (rule leb_holds [OF _ _ shift_tables(4)]) simp_all
  with 1(1) Reserved assms(2) show ?thesis by (simp add: class_from_iter_def)
next
  case (Linked acc col doc)
  with assms(1) have "holds it (leb acc @ col # leb doc @ rest)" by (simp add: class_bytes_def)
  then obtain it1 where 1: "from_leb128_it nx u32_shifts it = (Some acc, it1)" "holds it1 (col # leb doc @ rest)"
    by (rule leb_holds [OF _ _ shift_tables(3)]) simp_all
  from nx_holds [OF 1(2)] obtain it2 where 2: "nx it1 = (Some col, it2)" "holds it2 (leb doc @ rest)" by blast
  from 2(2) obtain it3 where "from_leb128_it nx u32_shifts it2 = (Some doc, it3)" "holds it3 rest"
    by (rule leb_holds [OF _ _ shift_tables(3)]) simp_all
  with 1(1) 2(1) Linked assms(2) show ?thesis by (simp add: class_from_iter_def)
qed

lemma section_holds:
  assumes "holds it (section_bytes s @ rest)" "enc = (case s of Some s \<Rightarrow> encoding s + 1 | None \<Rightarrow> 0)"
    and "s \<noteq> None \<Longrightarrow> enc \<noteq> 0"
  shows "\<exists>it'. section_from_iter nx enc it = (Some s, it') \<and> holds it' rest"
proof (cases s)
  case None
  with assms show ?thesis by (simp add: section_from_iter_def section_bytes_def)
next
  case (Some sec)
  with assms(1) have "holds it (leb (offset_start sec) @ leb (b_size sec) @ rest)" by (simp add: section_bytes_def)
  then obtain it1 where 1: "from_leb128_it nx usize_shifts it = (Some (offset_start sec), it1)" "holds it1 (leb (b_size sec) @ rest)"
    by (rule leb_holds [OF _ _ shift_tables(5)]) simp_all
  from 1(2) obtain it2 where "from_leb128_it nx usize_shifts it1 = (Some (b_size sec), it2)" "holds it2 rest"
    by (rule leb_holds [OF _ _ shift_tables(5)]) simp_all
  then show ?thesis
    using 1(1) Some assms(2,3) by (simp add: section_from_iter_def)
qed

lemma from_iter_holds:
  assumes "blob_wf b" "holds it (blob_bytes b @ rest)"
  shows "\<exists>it'. from_iter nx it = (Some b, it') \<and> holds it' rest"
proof -
  let ?m = "blob_marker b"
  have enc: "?m AND 0x0F = (case b_section b of Some s \<Rightarrow> encoding s + 1 | None \<Rightarrow> 0)"
    and nz: "b_section b \<noteq> None \<Longrightarrow> ?m AND 0x0F \<noteq> 0"
    and linked: "?m AND B_LINKED \<noteq> 0 \<longleftrightarrow> (case b_class b of Linked _ _ _ \<Rightarrow> True | _ \<Rightarrow> False)"
    using assms(1) marker_fields
    by (auto simp: blob_marker_def blob_wf_def B_LINKED_def B_RESERVED_def split: option.splits blob_class.splits)
  have "holds it (?m # b_hash b @ class_bytes (b_class b) @ section_bytes (b_section b) @ rest)"
    using assms(2) by (simp add: blob_bytes_def)
  from nx_holds [OF this] obtain it1 where 1: "nx it = (Some ?m, it1)"
      "holds it1 (b_hash b @ class_bytes (b_class b) @ section_bytes (b_section b) @ rest)"
    by blast
  from next_bytes_holds [OF 1(2)] assms(1) obtain it2 where 2: "next_bytes nx BLOB_HASH_LEN it1 = (Some (b_hash b), it2)"
      "holds it2 (class_bytes (b_class b) @ section_bytes (b_section b) @ rest)"
    by (auto simp: blob_wf_def)
  from class_holds [OF 2(2) linked] obtain it3 where 3: "class_from_iter nx ?m it2 = (Some (b_class b), it3)"
      "holds it3 (section_bytes (b_section b) @ rest)" by blast
  from section_holds [OF 3(2) enc nz] obtain it4 where
      "section_from_iter nx (?m AND 0x0F) it3 = (Some (b_section b), it4)" "holds it4 rest" by blast
  with 1(1) 2(1) 3(1) show ?thesis by (simp add: from_iter_def)
qed

end

section \<open>Properties\<close>

lemma json_blob_parse:
  assumes "blob_wf b" "p_iter p = blob_display b @ 0x22 # rest" "\<not> p_is_eof p"
  shows "\<exists>q. blob_parse p = (Inr b, q) \<and> \<not> p_is_eof q \<and> p_iter q = 0x22 # rest"
proof -
  have "blob_display b = map alpha (emit 0 0 (blob_bytes b))"
    by (simp add: blob_display_def base32_all.serialize_as_bytes finalize_emit with_raw_capacity_def)
  then have "json_holds p rest (json_base32_new p) (blob_bytes b @ [])"
    using assms(2,3) by (simp add: json_holds_start)
  then obtain it where "from_iter json_base32_next (json_base32_new p) = (Some b, it)" "json_holds p rest it []"
    using json_source.from_iter_holds [OF assms(1)] by blast
  with json_holds_end [of p rest it] show ?thesis by (simp add: blob_parse_def)
qed

text \<open>C27: A blob identifier is read back from its stored bytes, the rest of the buffer left alone, and
  from its base32 form.\<close>

theorem blob_roundtrip:
  assumes "blob_wf b"
  shows "deserialize_from (serialize_into b [] @ rest) = (Some b, rest) \<and> from_base32 (blob_display b) = Some b"
proof
  show "deserialize_from (serialize_into b [] @ rest) = (Some b, rest)"
    using slice_source.from_iter_holds [OF assms refl]
    by (auto simp: deserialize_from_def serialize_into_def vec_all.serialize_as_bytes foldl_snoc)
  have "reader_at 0 0 (blob_bytes b @ []) (base32_reader_new (blob_display b))"
    by (simp add: blob_display_def base32_all.serialize_as_bytes finalize_emit with_raw_capacity_def reader_at_def
        base32_reader_new_def)
  then show "from_base32 (blob_display b) = Some b"
    using base32_source.from_iter_holds [OF assms, where rest = "[]"]
    by (fastforce simp: from_base32_def)
qed

theorem blob_roundtrip_witness:
  "let b = blob_new_section (replicate 32 7) (Linked 300 2 5) 100 900 1 in
   deserialize_from (serialize_into b [] @ [1, 2]) = (Some b, [1, 2]) \<and> from_base32 (blob_display b) = Some b"
  unfolding Let_def
  by (rule blob_roundtrip) (simp_all add: blob_wf_def blob_new_section_def BLOB_HASH_LEN_def)

text \<open>The JSON parser reads the base32 form of a blob identifier, between quotes, as that
  identifier, and stands after the closing quote.\<close>

theorem blob_token:
  assumes "blob_wf b" "p_next_ch p = None" "p_iter p = 0x22 # blob_display b @ 0x22 # rest"
  shows "\<exists>q. next_token pf blob_parse p = (Inr (String b), q) \<and> p_iter q = rest"
proof -
  let ?p = "in_string p (blob_display b @ 0x22 # rest)"
  obtain q where q: "blob_parse ?p = (Inr b, q)" "\<not> p_is_eof q" "p_iter q = 0x22 # rest"
    using json_blob_parse [OF assms(1), of ?p rest] by (auto simp: in_string_def)
  then have "next_token pf blob_parse p = (Inr (String b), past_quote q [] rest)"
    by (rule next_token_string_before_quote [OF assms(2,3)])
  then show ?thesis by (simp add: past_quote_def)
qed

theorem blob_token_witness:
  "let b = blob_new (replicate 32 0xff) (Reserved 1 1700000000) in
   \<exists>q. next_token (\<lambda>_. None) blob_parse (parser_new (0x22 # blob_display b @ 0x22 # [])) = (Inr (String b), q) \<and> p_iter q = []"
  unfolding Let_def
  by (rule blob_token) (simp_all add: parser_new_def blob_wf_def blob_new_def BLOB_HASH_LEN_def)

text \<open>The bound on the encoding is needed: the marker of a reserved blob whose section has
  encoding 15 is that of a linked blob, and what is read back is another identifier.\<close>

theorem blob_encoding_overflow:
  "let b = blob_new_section (replicate 32 0) (Reserved 1 2) 3 7 15 in
   fst (deserialize_from (serialize_into b [])) \<noteq> Some b"
  by code_simp

end
