(* ===== verification/StoreKeys.thy ===== *)
theory StoreKeys
  imports BlobId "HOL-Library.List_Lexorder"
begin

text \<open>
  Keys of the data store (crates/store/src/write/key.rs, with the key classes of
  crates/store/src/write/mod.rs and crates/store/src/lib.rs). A key serializer appends fixed-width
  big-endian integers and byte strings; the store compares keys bytewise.
\<close>

section \<open>Big-endian integers\<close>

fun be_bytes :: "nat \<Rightarrow> 'a::len word \<Rightarrow> bytes" where
  "be_bytes 0 v = []"
| "be_bytes (Suc n) v = ucast (drop_bit (8 * n) v) # be_bytes n v"

definition be16 :: "u16 \<Rightarrow> bytes" where "be16 v = be_bytes 2 v"
definition be32 :: "u32 \<Rightarrow> bytes" where "be32 v = be_bytes 4 v"
definition be64 :: "u64 \<Rightarrow> bytes" where "be64 v = be_bytes 8 v"

definition from_be_bytes :: "bytes \<Rightarrow> 'a::len word" where
  "from_be_bytes bs = foldl (\<lambda>v b. push_bit 8 v OR ucast b) 0 bs"

definition U32_LEN :: nat where "U32_LEN = 4"
definition U64_LEN :: nat where "U64_LEN = 8"

datatype store_error = InternalError string | AssertValueFailed

text \<open>\<^verbatim>\<open>self.get(index..index + U32_LEN)\<close>, an error when the range is not inside the slice.\<close>

definition deserialize_be_u32 :: "bytes \<Rightarrow> nat \<Rightarrow> store_error + u32" where
  "deserialize_be_u32 bs index =
     (case slice_index bs index (index + U32_LEN) of
        None \<Rightarrow> Inl (InternalError ''Index out of range while deserializing u32.'')
      | Some b \<Rightarrow> Inr (from_be_bytes b))"

definition deserialize_be_u64 :: "bytes \<Rightarrow> nat \<Rightarrow> store_error + u64" where
  "deserialize_be_u64 bs index =
     (case slice_index bs index (index + U64_LEN) of
        None \<Rightarrow> Inl (InternalError ''Index out of range while deserializing u64.'')
      | Some b \<Rightarrow> Inr (from_be_bytes b))"

section \<open>Subspaces\<close>

definition WITH_SUBSPACE :: u32 where "WITH_SUBSPACE = 1"

definition SUBSPACE_ACL :: u8 where "SUBSPACE_ACL = 0x61"
definition SUBSPACE_BITMAP_ID :: u8 where "SUBSPACE_BITMAP_ID = 0x62"
definition SUBSPACE_BITMAP_TAG :: u8 where "SUBSPACE_BITMAP_TAG = 0x63"
definition SUBSPACE_BITMAP_TEXT :: u8 where "SUBSPACE_BITMAP_TEXT = 0x76"
definition SUBSPACE_DIRECTORY :: u8 where "SUBSPACE_DIRECTORY = 0x64"
definition SUBSPACE_FTS_QUEUE :: u8 where "SUBSPACE_FTS_QUEUE = 0x66"
definition SUBSPACE_INDEXES :: u8 where "SUBSPACE_INDEXES = 0x69"
definition SUBSPACE_BLOB_RESERVE :: u8 where "SUBSPACE_BLOB_RESERVE = 0x6a"
definition SUBSPACE_BLOB_LINK :: u8 where "SUBSPACE_BLOB_LINK = 0x6b"
definition SUBSPACE_LOGS :: u8 where "SUBSPACE_LOGS = 0x6c"
definition SUBSPACE_COUNTER :: u8 where "SUBSPACE_COUNTER = 0x6e"
definition SUBSPACE_LOOKUP_VALUE :: u8 where "SUBSPACE_LOOKUP_VALUE = 0x6d"
definition SUBSPACE_PROPERTY :: u8 where "SUBSPACE_PROPERTY = 0x70"
definition SUBSPACE_SETTINGS :: u8 where "SUBSPACE_SETTINGS = 0x73"
definition SUBSPACE_QUEUE_MESSAGE :: u8 where "SUBSPACE_QUEUE_MESSAGE = 0x65"
definition SUBSPACE_QUEUE_EVENT :: u8 where "SUBSPACE_QUEUE_EVENT = 0x71"
definition SUBSPACE_QUOTA :: u8 where "SUBSPACE_QUOTA = 0x75"
definition SUBSPACE_REPORT_OUT :: u8 where "SUBSPACE_REPORT_OUT = 0x68"
definition SUBSPACE_REPORT_IN :: u8 where "SUBSPACE_REPORT_IN = 0x72"
definition SUBSPACE_FTS_INDEX :: u8 where "SUBSPACE_FTS_INDEX = 0x67"

lemmas subspaces = SUBSPACE_ACL_def SUBSPACE_BITMAP_ID_def SUBSPACE_BITMAP_TAG_def SUBSPACE_BITMAP_TEXT_def
  SUBSPACE_DIRECTORY_def SUBSPACE_FTS_QUEUE_def SUBSPACE_INDEXES_def SUBSPACE_BLOB_RESERVE_def
  SUBSPACE_BLOB_LINK_def SUBSPACE_LOGS_def SUBSPACE_COUNTER_def SUBSPACE_LOOKUP_VALUE_def
  SUBSPACE_PROPERTY_def SUBSPACE_SETTINGS_def SUBSPACE_QUEUE_MESSAGE_def SUBSPACE_QUEUE_EVENT_def
  SUBSPACE_QUOTA_def SUBSPACE_REPORT_OUT_def SUBSPACE_REPORT_IN_def SUBSPACE_FTS_INDEX_def

definition with_subspace :: "u32 \<Rightarrow> u8 \<Rightarrow> bytes" where
  "with_subspace flags subspace = (if flags AND WITH_SUBSPACE \<noteq> 0 then [subspace] else [])"

section \<open>Classes of keys\<close>

record bitmap_hash =
  bh_hash :: bytes
  bh_len :: u8

datatype 't tag_value = TagId 't | TagText bytes

datatype 't bitmap_class = DocumentIds | Tag u8 "'t tag_value" | TextToken u8 bitmap_hash

datatype lookup_class = LookupKey bytes | LookupCounter bytes

datatype 't directory_class =
    NameToId bytes | EmailToId bytes | MemberOf 't 't | Members 't 't | Domain bytes | Principal 't | UsedQuota u32

record queue_event =
  q_due :: u64
  q_queue_id :: u64

record report_event =
  e_due :: u64
  e_policy_hash :: u64
  e_seq_id :: u64
  e_domain :: bytes

datatype queue_class =
    Message u64 | MessageEvent queue_event
  | DmarcReportHeader report_event | DmarcReportEvent report_event
  | TlsReportHeader report_event | TlsReportEvent report_event
  | QuotaCount bytes | QuotaSize bytes

text \<open>The arguments of a report are its identifier and the time it expires.\<close>

datatype report_class = ReportTls u64 u64 | ReportDmarc u64 u64 | ReportArf u64 u64

datatype blob_op = BlobReserve bytes u64 | BlobCommit bytes | BlobLink bytes | BlobLinkId bytes u64

datatype 't value_class =
    is_Property: Property u8 | is_AclClass: AclClass u32 | Lookup lookup_class
  | is_FtsIndex: FtsIndex bitmap_hash | is_FtsQueue: FtsQueue u64 bytes
  | Directory "'t directory_class" | Blob blob_op | Config bytes | Queue queue_class | Report report_class
  | AnyClass u8 bytes

text \<open>Identifiers that the store assigns while a batch is written (\<^verbatim>\<open>ResolveId\<close>).\<close>

datatype maybe_dynamic_id = StaticId u32 | DynamicId nat

record assigned_ids =
  document_ids :: "u32 list"
  counter_ids :: "int list"

definition resolve_id :: "assigned_ids option \<Rightarrow> maybe_dynamic_id \<Rightarrow> u32" where
  "resolve_id ids i =
     (case i of
        StaticId n \<Rightarrow> n
      | DynamicId idx \<Rightarrow>
          (case ids of
             None \<Rightarrow> -1
           | Some ids \<Rightarrow> if idx < length (document_ids ids) then document_ids ids ! idx else -1))"

definition push_document_id :: "assigned_ids \<Rightarrow> u32 \<Rightarrow> assigned_ids" where
  "push_document_id ids n = ids\<lparr>document_ids := document_ids ids @ [n]\<rparr>"

definition push_counter_id :: "assigned_ids \<Rightarrow> int \<Rightarrow> assigned_ids" where
  "push_counter_id ids n = ids\<lparr>counter_ids := counter_ids ids @ [n]\<rparr>"

definition get_document_id :: "assigned_ids \<Rightarrow> nat \<Rightarrow> store_error + u32" where
  "get_document_id ids idx =
     (if idx < length (document_ids ids) then Inr (document_ids ids ! idx)
      else Inl (InternalError ''No document ids were created''))"

definition last_document_id :: "assigned_ids \<Rightarrow> store_error + u32" where
  "last_document_id ids =
     (if document_ids ids \<noteq> [] then Inr (last (document_ids ids))
      else Inl (InternalError ''No document ids were created''))"

section \<open>Hashed tokens\<close>

text \<open>
  A token of up to eight bytes stands for itself, padded with zeros; a longer one is hashed with
  two functions of external crates, \<^verbatim>\<open>xxh3_64\<close> and \<^verbatim>\<open>farmhash::hash64\<close>, parameters here
  (crates/store/src/write/hash.rs).
\<close>

definition MAX_TOKEN_LENGTH :: nat where "MAX_TOKEN_LENGTH = unat (drop_bit 1 (-1 :: u8))"

definition to_le_bytes :: "u64 \<Rightarrow> bytes" where
  "to_le_bytes v = rev (be_bytes 8 v)"

definition token_hash :: "(bytes \<Rightarrow> u64) \<Rightarrow> (bytes \<Rightarrow> u64) \<Rightarrow> bytes \<Rightarrow> bytes" where
  "token_hash xxh3_64 farmhash64 item =
     (if length item \<le> 8 then item @ replicate (8 - length item) 0
      else take 4 (to_le_bytes (xxh3_64 item)) @ take 4 (to_le_bytes (farmhash64 item)))"

definition bitmap_hash_new :: "(bytes \<Rightarrow> u64) \<Rightarrow> (bytes \<Rightarrow> u64) \<Rightarrow> bytes \<Rightarrow> bitmap_hash" where
  "bitmap_hash_new xxh3_64 farmhash64 item =
     \<lparr>bh_hash = token_hash xxh3_64 farmhash64 item, bh_len = of_nat (min (length item) MAX_TOKEN_LENGTH)\<rparr>"

definition bitmap_hash_to_u64 :: "bitmap_hash \<Rightarrow> u64" where
  "bitmap_hash_to_u64 h = from_be_bytes (bh_hash h)"

definition bitmap_word :: "(bytes \<Rightarrow> u64) \<Rightarrow> (bytes \<Rightarrow> u64) \<Rightarrow> bytes \<Rightarrow> u8 \<Rightarrow> 't bitmap_class" where
  "bitmap_word xxh3_64 farmhash64 token field = TextToken field (bitmap_hash_new xxh3_64 farmhash64 token)"

definition bitmap_stemmed :: "(bytes \<Rightarrow> u64) \<Rightarrow> (bytes \<Rightarrow> u64) \<Rightarrow> bytes \<Rightarrow> u8 \<Rightarrow> 't bitmap_class" where
  "bitmap_stemmed xxh3_64 farmhash64 token field =
     TextToken (field OR push_bit 7 1) (bitmap_hash_new xxh3_64 farmhash64 token)"

section \<open>Serialized keys\<close>

text \<open>The hash of a token: its first eight bytes at most, and its length when there are as many.\<close>

definition token_bytes :: "bitmap_hash \<Rightarrow> bytes" where
  "token_bytes h = take (min (unat (bh_len h)) 8) (bh_hash h) @ (if bh_len h \<ge> 8 then [bh_len h] else [])"

definition value_subspace :: "'t value_class \<Rightarrow> u8 \<Rightarrow> u8" where
  "value_subspace c collection =
     (case c of
        Property field \<Rightarrow> if field = 84 \<and> collection = 1 then SUBSPACE_COUNTER else SUBSPACE_PROPERTY
      | AclClass _ \<Rightarrow> SUBSPACE_ACL
      | FtsIndex _ \<Rightarrow> SUBSPACE_FTS_INDEX
      | FtsQueue _ _ \<Rightarrow> SUBSPACE_FTS_QUEUE
      | Blob op \<Rightarrow> (case op of BlobReserve _ _ \<Rightarrow> SUBSPACE_BLOB_RESERVE | _ \<Rightarrow> SUBSPACE_BLOB_LINK)
      | Config _ \<Rightarrow> SUBSPACE_SETTINGS
      | Lookup l \<Rightarrow> (case l of LookupKey _ \<Rightarrow> SUBSPACE_LOOKUP_VALUE | LookupCounter _ \<Rightarrow> SUBSPACE_COUNTER)
      | Directory d \<Rightarrow> (case d of UsedQuota _ \<Rightarrow> SUBSPACE_QUOTA | _ \<Rightarrow> SUBSPACE_DIRECTORY)
      | Queue q \<Rightarrow>
          (case q of
             Message _ \<Rightarrow> SUBSPACE_QUEUE_MESSAGE
           | MessageEvent _ \<Rightarrow> SUBSPACE_QUEUE_EVENT
           | QuotaCount _ \<Rightarrow> SUBSPACE_QUOTA
           | QuotaSize _ \<Rightarrow> SUBSPACE_QUOTA
           | _ \<Rightarrow> SUBSPACE_REPORT_OUT)
      | Report _ \<Rightarrow> SUBSPACE_REPORT_OUT
      | AnyClass subspace _ \<Rightarrow> subspace)"

definition is_counter :: "'t value_class \<Rightarrow> u8 \<Rightarrow> bool" where
  "is_counter c collection =
     (case c of
        Directory (UsedQuota _) \<Rightarrow> True
      | Lookup (LookupCounter _) \<Rightarrow> True
      | Queue (QuotaCount _) \<Rightarrow> True
      | Queue (QuotaSize _) \<Rightarrow> True
      | Property field \<Rightarrow> field = 84 \<and> collection = 1
      | _ \<Rightarrow> False)"

definition blob_op_bytes :: "u32 \<Rightarrow> u8 \<Rightarrow> u32 \<Rightarrow> blob_op \<Rightarrow> bytes" where
  "blob_op_bytes account_id collection document_id op =
     (case op of
        BlobReserve h until \<Rightarrow> be32 account_id @ h @ be64 until
      | BlobCommit h \<Rightarrow> h @ be32 (-1) @ [0] @ be32 (-1)
      | BlobLink h \<Rightarrow> h @ be32 account_id @ [collection] @ be32 document_id
      | BlobLinkId h n \<Rightarrow> h @ be32 (ucast (drop_bit 32 n)) @ [255] @ be32 (ucast n))"

definition directory_bytes :: "('t \<Rightarrow> u32) \<Rightarrow> 't directory_class \<Rightarrow> bytes" where
  "directory_bytes resolve d =
     (case d of
        NameToId name \<Rightarrow> 0 # name
      | EmailToId email \<Rightarrow> 1 # email
      | Principal uid \<Rightarrow> 2 # leb (resolve uid)
      | Domain name \<Rightarrow> 3 # name
      | UsedQuota uid \<Rightarrow> 4 # leb uid
      | MemberOf principal_id member_of \<Rightarrow> 5 # be32 (resolve principal_id) @ be32 (resolve member_of)
      | Members principal_id has_member \<Rightarrow> 6 # be32 (resolve principal_id) @ be32 (resolve has_member))"

definition event_bytes :: "report_event \<Rightarrow> bytes" where
  "event_bytes e = be64 (e_due e) @ e_domain e @ be64 (e_policy_hash e) @ be64 (e_seq_id e)"

definition queue_bytes :: "queue_class \<Rightarrow> bytes" where
  "queue_bytes q =
     (case q of
        Message queue_id \<Rightarrow> be64 queue_id
      | MessageEvent e \<Rightarrow> be64 (q_due e) @ be64 (q_queue_id e)
      | DmarcReportHeader e \<Rightarrow> 0 # event_bytes e @ [0]
      | TlsReportHeader e \<Rightarrow> 0 # event_bytes e @ [1]
      | DmarcReportEvent e \<Rightarrow> 1 # event_bytes e
      | TlsReportEvent e \<Rightarrow> 2 # event_bytes e
      | QuotaCount key \<Rightarrow> 0 # key
      | QuotaSize key \<Rightarrow> 1 # key)"

definition report_bytes :: "report_class \<Rightarrow> bytes" where
  "report_bytes r =
     (case r of
        ReportTls n expires \<Rightarrow> 0 # be64 expires @ be64 n
      | ReportDmarc n expires \<Rightarrow> 1 # be64 expires @ be64 n
      | ReportArf n expires \<Rightarrow> 2 # be64 expires @ be64 n)"

definition value_serialize :: "('t \<Rightarrow> u32) \<Rightarrow> u32 \<Rightarrow> 't value_class \<Rightarrow> u32 \<Rightarrow> u8 \<Rightarrow> u32 \<Rightarrow> bytes" where
  "value_serialize resolve flags c account_id collection document_id =
     with_subspace flags (value_subspace c collection) @
     (case c of
        Property field \<Rightarrow> be32 account_id @ [collection] @ [field] @ be32 document_id
      | FtsIndex h \<Rightarrow> be32 account_id @ token_bytes h @ [collection] @ be32 document_id
      | AclClass grant_account_id \<Rightarrow> be32 grant_account_id @ be32 account_id @ [collection] @ be32 document_id
      | FtsQueue seq h \<Rightarrow> be64 seq @ be32 account_id @ [collection] @ be32 document_id @ h
      | Blob op \<Rightarrow> blob_op_bytes account_id collection document_id op
      | Config key \<Rightarrow> key
      | Lookup l \<Rightarrow> (case l of LookupKey key \<Rightarrow> key | LookupCounter key \<Rightarrow> key)
      | Directory d \<Rightarrow> directory_bytes resolve d
      | Queue q \<Rightarrow> queue_bytes q
      | Report r \<Rightarrow> report_bytes r
      | AnyClass _ key \<Rightarrow> key)"

text \<open>The capacity that is reserved for a key.\<close>

definition serialized_size :: "'t value_class \<Rightarrow> nat" where
  "serialized_size c =
     (case c of
        Property _ \<Rightarrow> U32_LEN * 2 + 3
      | FtsIndex h \<Rightarrow> if bh_len h \<ge> 8 then U32_LEN * 2 + 10 else unat (bh_len h) + U32_LEN * 2 + 1
      | AclClass _ \<Rightarrow> U32_LEN * 3 + 2
      | Lookup l \<Rightarrow> (case l of LookupCounter v \<Rightarrow> length v | LookupKey v \<Rightarrow> length v)
      | Config v \<Rightarrow> length v
      | Directory d \<Rightarrow>
          (case d of
             NameToId v \<Rightarrow> length v | EmailToId v \<Rightarrow> length v | Domain v \<Rightarrow> length v
           | Principal _ \<Rightarrow> U32_LEN | UsedQuota _ \<Rightarrow> U32_LEN
           | Members _ _ \<Rightarrow> U32_LEN * 2 | MemberOf _ _ \<Rightarrow> U32_LEN * 2)
      | Blob op \<Rightarrow> (case op of BlobReserve _ _ \<Rightarrow> BLOB_HASH_LEN + U64_LEN + U32_LEN + 1 | _ \<Rightarrow> BLOB_HASH_LEN + U32_LEN * 2 + 2)
      | FtsQueue _ _ \<Rightarrow> BLOB_HASH_LEN + U64_LEN * 2
      | Queue q \<Rightarrow>
          (case q of
             Message _ \<Rightarrow> U64_LEN
           | MessageEvent _ \<Rightarrow> U64_LEN * 2
           | DmarcReportEvent e \<Rightarrow> length (e_domain e) + U64_LEN * 3
           | TlsReportEvent e \<Rightarrow> length (e_domain e) + U64_LEN * 3
           | DmarcReportHeader e \<Rightarrow> length (e_domain e) + U64_LEN * 3 + 1
           | TlsReportHeader e \<Rightarrow> length (e_domain e) + U64_LEN * 3 + 1
           | QuotaCount v \<Rightarrow> length v
           | QuotaSize v \<Rightarrow> length v)
      | Report _ \<Rightarrow> U64_LEN * 2 + 1
      | AnyClass _ v \<Rightarrow> length v)"

section \<open>Other keys\<close>

record log_key =
  l_account_id :: u32
  l_collection :: u8
  l_change_id :: u64

definition log_serialize :: "u32 \<Rightarrow> log_key \<Rightarrow> bytes" where
  "log_serialize flags k =
     with_subspace flags SUBSPACE_LOGS @ be32 (l_account_id k) @ [l_collection k] @ be64 (l_change_id k)"

record index_key_prefix =
  i_account_id :: u32
  i_collection :: u8
  i_field :: u8

record index_key = index_key_prefix +
  i_document_id :: u32
  i_key :: bytes

definition index_prefix_serialize :: "u32 \<Rightarrow> 'a index_key_prefix_scheme \<Rightarrow> bytes" where
  "index_prefix_serialize flags k =
     with_subspace flags SUBSPACE_INDEXES @ be32 (i_account_id k) @ [i_collection k] @ [i_field k]"

definition index_prefix_len :: nat where
  "index_prefix_len = U32_LEN + 2"

definition index_serialize :: "u32 \<Rightarrow> index_key \<Rightarrow> bytes" where
  "index_serialize flags k =
     with_subspace flags SUBSPACE_INDEXES @ be32 (i_account_id k) @ [i_collection k] @ [i_field k] @
     i_key k @ be32 (i_document_id k)"

definition bitmap_subspace :: "'t bitmap_class \<Rightarrow> u8" where
  "bitmap_subspace c =
     (case c of
        DocumentIds \<Rightarrow> SUBSPACE_BITMAP_ID
      | Tag _ _ \<Rightarrow> SUBSPACE_BITMAP_TAG
      | TextToken _ _ \<Rightarrow> SUBSPACE_BITMAP_TEXT)"

definition BM_MARKER :: u8 where "BM_MARKER = push_bit 7 1"

definition bitmap_serialize :: "('t \<Rightarrow> u32) \<Rightarrow> u32 \<Rightarrow> 't bitmap_class \<Rightarrow> u32 \<Rightarrow> u8 \<Rightarrow> u32 \<Rightarrow> bytes" where
  "bitmap_serialize resolve flags c account_id collection document_id =
     (case c of
        DocumentIds \<Rightarrow> with_subspace flags SUBSPACE_BITMAP_ID @ be32 account_id @ [collection]
      | Tag field t \<Rightarrow>
          (case t of
             TagId n \<Rightarrow> with_subspace flags SUBSPACE_BITMAP_TAG @ be32 account_id @ [collection] @ [field] @ leb (resolve n)
           | TagText text \<Rightarrow>
               with_subspace flags SUBSPACE_BITMAP_TAG @ be32 account_id @ [collection] @ [field OR BM_MARKER] @ text)
      | TextToken field token \<Rightarrow>
          with_subspace flags SUBSPACE_BITMAP_TEXT @ be32 account_id @ token_bytes token @ [collection] @ [field])
     @ be32 document_id"

definition any_serialize :: "u32 \<Rightarrow> u8 \<Rightarrow> bytes \<Rightarrow> bytes" where
  "any_serialize flags subspace key = with_subspace flags subspace @ key"

text \<open>
  \<^verbatim>\<open>Deserialize for ReportEvent\<close>. In a release build \<^verbatim>\<open>key.len() - 17\<close> wraps around
  for a shorter key, to a range that is not in the slice.
\<close>

definition report_event_deserialize :: "bytes \<Rightarrow> store_error + report_event" where
  "report_event_deserialize key =
     (let domain_error = InternalError ''Failed to deserialize report domain'';
          range_error = InternalError ''Index out of range while deserializing u64.'' in
      case deserialize_be_u64 key 1 of
        Inl e \<Rightarrow> Inl e
      | Inr due \<Rightarrow>
          (case (if length key < U64_LEN * 2 + 1 then Inl range_error
                 else deserialize_be_u64 key (length key - (U64_LEN * 2 + 1))) of
             Inl e \<Rightarrow> Inl e
           | Inr policy_hash \<Rightarrow>
               (case deserialize_be_u64 key (length key - (U64_LEN + 1)) of
                  Inl e \<Rightarrow> Inl e
                | Inr seq_id \<Rightarrow>
                    (case slice_index key (U64_LEN + 1) (length key - (U64_LEN * 2 + 1)) of
                       None \<Rightarrow> Inl domain_error
                     | Some domain \<Rightarrow>
                         if from_utf8 domain
                         then Inr \<lparr>e_due = due, e_policy_hash = policy_hash, e_seq_id = seq_id, e_domain = domain\<rparr>
                         else Inl domain_error))))"

section \<open>The order of big-endian integers\<close>

lemma length_be_bytes [simp]: "length (be_bytes n v) = n"
  by (induction n) simp_all

lemma length_be [simp]: "length (be16 x) = 2" "length (be32 y) = 4" "length (be64 z) = 8"
  by (simp_all add: be16_def be32_def be64_def)

lemma unat_be_byte: "unat (ucast (drop_bit (8 * n) v) :: u8) = unat v div 256 ^ n mod 256"
proof -
  have "(256::nat) ^ n = 2 ^ (8 * n)" by (simp add: power_mult)
  then show ?thesis
    by (simp add: unsigned_ucast_eq unat_drop_bit take_bit_eq_mod [where 'a = nat])
qed

lemma be_bytes_compare:
  fixes v :: "'a::len word" and w :: "'b::len word"
  shows "be_bytes n v @ xs < be_bytes n w @ ys \<longleftrightarrow>
     unat v mod 256 ^ n < unat w mod 256 ^ n \<or> unat v mod 256 ^ n = unat w mod 256 ^ n \<and> xs < ys"
proof (induction n)
  case (Suc n)
  define a b where "a = unat v div 256 ^ n mod 256" and "b = unat w div 256 ^ n mod 256"
  define c d where "c = unat v mod 256 ^ n" and "d = unat w mod 256 ^ n"
  have split: "unat v mod 256 ^ Suc n = a * 256 ^ n + c" "unat w mod 256 ^ Suc n = b * 256 ^ n + d"
    unfolding a_def b_def c_def d_def power_Suc2 mod_mult2_eq by (simp_all only: mult.commute)
  have less: "c < 256 ^ n" "d < 256 ^ n" by (simp_all add: c_def d_def)
  have "a < b \<Longrightarrow> a * 256 ^ n + 256 ^ n \<le> b * 256 ^ n" "b < a \<Longrightarrow> b * 256 ^ n + 256 ^ n \<le> a * 256 ^ n"
    using mult_le_mono1 [of "a + 1" b "256 ^ n"] mult_le_mono1 [of "b + 1" a "256 ^ n"] by simp_all
  then have "a < b \<or> a = b \<and> (c < d \<or> c = d \<and> xs < ys) \<longleftrightarrow>
      a * 256 ^ n + c < b * 256 ^ n + d \<or> a * 256 ^ n + c = b * 256 ^ n + d \<and> xs < ys"
    using less by (cases a b rule: linorder_cases) auto
  then show ?case
    unfolding split using Suc.IH
    by (simp add: word_less_nat_alt word_unat_eq_iff unat_be_byte a_def [symmetric] b_def [symmetric]
        c_def [symmetric] d_def [symmetric])
qed simp

lemma unat_mod_width: "LENGTH('a) = 8 * n \<Longrightarrow> unat v mod 256 ^ n = unat v" for v :: "'a::len word"
proof -
  assume "LENGTH('a) = 8 * n"
  then have "(256::nat) ^ n = 2 ^ LENGTH('a)" by (simp add: power_mult)
  then show ?thesis using unsigned_less [of v, where ?'a = nat] by simp
qed

text \<open>Fixed-width integers in front of keys: they compare first, as the numbers they are.\<close>

lemma be_less:
  "be16 v @ xs < be16 w @ ys \<longleftrightarrow> v < w \<or> v = w \<and> xs < ys"
  "be32 a @ xs < be32 b @ ys \<longleftrightarrow> a < b \<or> a = b \<and> xs < ys"
  "be64 c @ xs < be64 d @ ys \<longleftrightarrow> c < d \<or> c = d \<and> xs < ys"
  unfolding be16_def be32_def be64_def be_bytes_compare
  by (simp_all only: unat_mod_width len_num1 len_bit0 word_less_nat_alt word_unat_eq_iff)

lemma be_eq:
  "be16 v @ xs = be16 w @ ys \<longleftrightarrow> v = w \<and> xs = ys"
  "be32 a @ xs = be32 b @ ys \<longleftrightarrow> a = b \<and> xs = ys"
  "be64 c @ xs = be64 d @ ys \<longleftrightarrow> c = d \<and> xs = ys"
  using be_less(1) [of v xs w ys] be_less(1) [of w ys v xs] be_less(2) [of a xs b ys] be_less(2) [of b ys a xs]
    be_less(3) [of c xs d ys] be_less(3) [of d ys c xs]
  by (metis linorder_less_linear order_less_irrefl)+

lemma be_eq_end:
  "be16 v = be16 w \<longleftrightarrow> v = w" "be32 a = be32 b \<longleftrightarrow> a = b" "be64 c = be64 d \<longleftrightarrow> c = d"
  using be_eq [where xs = "[]" and ys = "[]"] by simp_all

section \<open>Reading big-endian integers\<close>

lemma from_be_foldl:
  fixes v acc :: "'a::len word"
  assumes "8 * n \<le> LENGTH('a)"
  shows "foldl (\<lambda>v b. push_bit 8 v OR ucast b) acc (be_bytes n v) = push_bit (8 * n) acc OR take_bit (8 * n) v"
  using assms
proof (induction n arbitrary: acc)
  case (Suc n)
  have byte: "bit (ucast (ucast (drop_bit (8 * n) v) :: u8) :: 'a word) i \<longleftrightarrow> i < 8 \<and> bit v (8 * n + i)" for i
    by (auto simp: bit_simps dest: bit_imp_le_length)
  have top: "push_bit (8 * n) (ucast (ucast (drop_bit (8 * n) v) :: u8)) OR take_bit (8 * n) v = take_bit (8 * n + 8) v"
  proof (rule bit_word_eqI)
    fix i assume "i < LENGTH('a)"
    then show "bit (push_bit (8 * n) (ucast (ucast (drop_bit (8 * n) v) :: u8)) OR take_bit (8 * n) v) i \<longleftrightarrow> bit (take_bit (8 * n + 8) v) i"
      by (cases "8 * n \<le> i") (auto simp: bit_or_iff bit_push_bit_iff bit_take_bit_iff byte)
  qed
  show ?case
    using Suc by (simp add: push_bit_or or.assoc top add.commute)
qed (simp add: take_bit_eq_mod)

lemma from_be_bytes_be:
  "from_be_bytes (be16 v) = v" "from_be_bytes (be32 a) = a" "from_be_bytes (be64 c) = c"
  unfolding from_be_bytes_def be16_def be32_def be64_def
  by (subst from_be_foldl; simp add: take_bit_word_eq_self)+

lemma slice_index_middle: "slice_index (xs @ ys @ zs) (length xs) (length xs + length ys) = Some ys"
  by (simp add: slice_index_def)

section \<open>Hashed tokens in keys\<close>

text \<open>The hashes that \<open>bitmap_hash_new\<close> makes: eight bytes, zero past the end of a shorter token.\<close>

definition token_wf :: "bitmap_hash \<Rightarrow> bool" where
  "token_wf h \<longleftrightarrow> length (bh_hash h) = 8 \<and>
     (bh_len h < 8 \<longrightarrow> drop (unat (bh_len h)) (bh_hash h) = replicate (8 - unat (bh_len h)) 0)"

lemma unat_token_len: "unat (of_nat (min n MAX_TOKEN_LENGTH) :: u8) = min n 127"
proof -
  have "MAX_TOKEN_LENGTH = 127" by code_simp
  then show ?thesis by (simp add: unat_of_nat_less)
qed

lemma token_wf_new: "token_wf (bitmap_hash_new xxh3_64 farmhash64 item)"
  by (auto simp: token_wf_def bitmap_hash_new_def token_hash_def to_le_bytes_def word_less_nat_alt unat_token_len)

lemma length_token_bytes:
  "token_wf h \<Longrightarrow> length (token_bytes h) = (if bh_len h < 8 then unat (bh_len h) else 9)"
  by (auto simp: token_bytes_def token_wf_def word_less_nat_alt word_le_nat_alt)

lemma token_bytes_inject:
  assumes "token_wf h" "token_wf h'" "token_bytes h = token_bytes h'"
  shows "h = h'"
proof -
  have len: "length (token_bytes h) = length (token_bytes h')" using assms(3) by simp
  show ?thesis
  proof (cases "bh_len h < 8")
    case True
    then have eq: "bh_len h' = bh_len h" "bh_len h' < 8"
      using len assms(1,2) by (auto simp: length_token_bytes word_less_nat_alt word_unat_eq_iff split: if_splits)
    let ?n = "unat (bh_len h)"
    have "take ?n (bh_hash h) = take ?n (bh_hash h')" "drop ?n (bh_hash h) = drop ?n (bh_hash h')"
      using assms True eq by (auto simp: token_bytes_def token_wf_def word_less_nat_alt word_le_nat_alt)
    then have "bh_hash h = bh_hash h'" by (metis append_take_drop_id)
    with eq show ?thesis by simp
  next
    case False
    then have "\<not> bh_len h' < 8"
      using len assms(1,2) by (auto simp: length_token_bytes word_less_nat_alt split: if_splits)
    with False assms show ?thesis
      by (auto simp: token_bytes_def token_wf_def word_less_nat_alt word_le_nat_alt)
  qed
qed

text \<open>A token in front of a suffix of known length is determined by the whole.\<close>

lemma token_bytes_suffix:
  assumes "token_wf h" "token_wf h'" "token_bytes h @ xs = token_bytes h' @ ys" "length xs = length ys"
  shows "h = h' \<and> xs = ys"
  using assms token_bytes_inject [OF assms(1,2)] by simp

section \<open>Properties\<close>

text \<open>C32: Keys of the change log compare as the triple of account, collection and change identifier, so a
  scan between two change identifiers meets the entries in the order they were written.\<close>

theorem log_key_order:
  "log_serialize flags k < log_serialize flags k' \<longleftrightarrow>
     l_account_id k < l_account_id k' \<or>
     l_account_id k = l_account_id k' \<and>
       (l_collection k < l_collection k' \<or>
        l_collection k = l_collection k' \<and> l_change_id k < l_change_id k')"
proof -
  have "be64 c < be64 d \<longleftrightarrow> c < d" for c d
    using be_less(3) [of c "[]" d "[]"] by simp
  then show ?thesis
    by (auto simp: log_serialize_def be_less with_subspace_def)
qed

text \<open>The keys of values that belong to a document, with the hashes that the code puts in them.\<close>

fun document_class :: "'t value_class \<Rightarrow> bool" where
  "document_class (Property _) = True"
| "document_class (AclClass _) = True"
| "document_class (FtsIndex h) = token_wf h"
| "document_class (FtsQueue _ h) = (length h = BLOB_HASH_LEN)"
| "document_class (Blob (BlobLink h)) = (length h = BLOB_HASH_LEN)"
| "document_class _ = False"

lemma document_class_cases:
  assumes "document_class c"
  obtains f where "c = Property f" | g where "c = AclClass g" | h where "c = FtsIndex h" "token_wf h"
  | n h where "c = FtsQueue n h" "length h = BLOB_HASH_LEN" | h where "c = Blob (BlobLink h)" "length h = BLOB_HASH_LEN"
  using assms by (cases c rule: document_class.cases) auto

lemma value_subspace_kind:
  assumes "document_class c" "document_class c'" "value_subspace c col = value_subspace c' col'"
  shows "is_Property c \<longleftrightarrow> is_Property c'" "is_AclClass c \<longleftrightarrow> is_AclClass c'" "is_FtsIndex c \<longleftrightarrow> is_FtsIndex c'"
    "is_FtsQueue c \<longleftrightarrow> is_FtsQueue c'"
  by (rule document_class_cases [OF assms(1)]; rule document_class_cases [OF assms(2)];
      use assms(3) in \<open>simp add: value_subspace_def subspaces split: if_splits\<close>)+

lemma value_key_determines:
  assumes "document_class c" "document_class c'"
    and "value_serialize r WITH_SUBSPACE c account collection document = value_serialize r' WITH_SUBSPACE c' account' collection' document'"
  shows "c = c' \<and> account = account' \<and> collection = collection' \<and> document = document'"
proof -
  have sub: "value_subspace c collection = value_subspace c' collection'"
    using assms(3) by (simp add: value_serialize_def with_subspace_def WITH_SUBSPACE_def)
  note kind = value_subspace_kind [OF assms(1,2) sub]
  note key = value_serialize_def with_subspace_def WITH_SUBSPACE_def blob_op_bytes_def be_eq be_eq_end
  show ?thesis
  proof (cases rule: document_class_cases [OF assms(1)])
    case (3 h)
    with kind(3) assms(2) obtain h' where h': "c' = FtsIndex h'" "token_wf h'"
      by (auto elim: document_class_cases)
    then show ?thesis
      using assms(3) 3 token_bytes_suffix [of h h' "collection # be32 document" "collection' # be32 document'"]
      by (simp add: key)
  qed (use kind assms(3) in \<open>cases rule: document_class_cases [OF assms(2)]; simp add: key\<close>)+
qed

lemma document_class_resolve:
  "document_class c \<Longrightarrow> value_serialize r flags c account collection document = value_serialize r' flags c account collection document"
  by (erule document_class_cases) (simp_all add: value_serialize_def value_subspace_def)

text \<open>C10: Values of documents have the same key exactly when they are the same value: the bytes of a key
  determine the class with its field or hash, the account, the collection and the document.\<close>

theorem value_key_inject:
  assumes "document_class c" "document_class c'"
  shows "value_serialize r WITH_SUBSPACE c account collection document = value_serialize r' WITH_SUBSPACE c' account' collection' document'
    \<longleftrightarrow> c = c' \<and> account = account' \<and> collection = collection' \<and> document = document'"
  using value_key_determines [OF assms] document_class_resolve [OF assms(1)] by metis

theorem value_key_inject_witness:
  "document_class (FtsIndex (bitmap_hash_new (\<lambda>_. 7) (\<lambda>_. 9) (lit ''mail'')) :: u32 value_class) \<and>
   document_class (Property 5 :: u32 value_class) \<and>
   value_serialize (\<lambda>n. n) WITH_SUBSPACE (FtsIndex (bitmap_hash_new (\<lambda>_. 7) (\<lambda>_. 9) (lit ''mail''))) 1 0 5
     \<noteq> value_serialize (\<lambda>n. n) WITH_SUBSPACE (Property 5 :: u32 value_class) 1 0 5"
  using value_key_inject [of "FtsIndex (bitmap_hash_new (\<lambda>_. 7) (\<lambda>_. 9) (lit ''mail''))" "Property 5" "\<lambda>n. n" 1 0 5 "\<lambda>n. n" 1 0 5]
  by (simp add: token_wf_new)

fun bitmap_wf :: "u32 bitmap_class \<Rightarrow> bool" where
  "bitmap_wf (Tag field _) \<longleftrightarrow> field < 128"
| "bitmap_wf (TextToken _ h) \<longleftrightarrow> token_wf h"
| "bitmap_wf DocumentIds \<longleftrightarrow> True"

lemma marker_bit: "\<not> field' OR BM_MARKER < 128"
  "field < 128 \<Longrightarrow> field' < 128 \<Longrightarrow> (field OR BM_MARKER = field' OR BM_MARKER) = (field = field')" for field field' :: u8
proof -
  have bit: "\<not> bit f 7" if "f < 128" for f :: u8
  proof -
    have "drop_bit 7 f = 0"
      using that unat_drop_bit [of 7 f] by (simp add: word_unat_eq_iff word_less_nat_alt)
    then show ?thesis by (simp add: bit_iff_odd_drop_bit)
  qed
  have or: "bit (f OR BM_MARKER) n \<longleftrightarrow> bit f n \<or> n = 7" for f :: u8 and n
    unfolding BM_MARKER_def bit_or_iff bit_push_bit_iff by (auto simp: bit_1_iff)
  show "\<not> field' OR BM_MARKER < 128"
    using bit or by metis
  show "field < 128 \<Longrightarrow> field' < 128 \<Longrightarrow> (field OR BM_MARKER = field' OR BM_MARKER) = (field = field')"
    using bit or by (metis bit_eq_iff)
qed

lemma leb_inject: "leb (v :: u32) = leb w \<longleftrightarrow> v = w"
  using leb_u32.enc_inject [of v w] by (simp add: push_leb128_def leb_def)

lemma bitmap_key_determines:
  assumes "bitmap_wf c" "bitmap_wf c'"
    and "bitmap_serialize (\<lambda>n. n) WITH_SUBSPACE c account collection document
      = bitmap_serialize (\<lambda>n. n) WITH_SUBSPACE c' account' collection' document'"
  shows "c = c' \<and> account = account' \<and> collection = collection' \<and> document = document'"
proof -
  note key = bitmap_serialize_def with_subspace_def WITH_SUBSPACE_def subspaces be_eq be_eq_end
  have text_doc: "xs @ be32 document = ys @ be32 document' \<longleftrightarrow> xs = ys \<and> document = document'" for xs ys
    by (simp add: append_eq_append_conv be_eq_end)
  show ?thesis
  proof (cases c rule: bitmap_wf.cases)
    case (1 field t)
    then show ?thesis
      using assms marker_bit
      by (cases c' rule: bitmap_wf.cases; cases t)
        (auto simp: key leb_inject text_doc be_eq_end marker_bit split: tag_value.splits)
  next
    case (2 field h)
    with assms(3) obtain field' h' where c': "c' = TextToken field' h'"
      by (cases c') (auto simp: key split: tag_value.splits)
    show ?thesis
      using assms 2 c' token_bytes_suffix [of h h' "collection # field # be32 document" "collection' # field' # be32 document'"]
      by (simp add: key)
  next
    case 3
    then show ?thesis
      using assms by (cases c' rule: bitmap_wf.cases) (auto simp: key split: tag_value.splits)
  qed
qed

text \<open>C31: The bitmaps of different tags, tokens, collections, accounts or document blocks have different
  keys, for fields below the marker bit that separates the two kinds of tags.\<close>

theorem bitmap_key_inject:
  assumes "bitmap_wf c" "bitmap_wf c'"
  shows "bitmap_serialize (\<lambda>n. n) WITH_SUBSPACE c account collection document
      = bitmap_serialize (\<lambda>n. n) WITH_SUBSPACE c' account' collection' document'
    \<longleftrightarrow> c = c' \<and> account = account' \<and> collection = collection' \<and> document = document'"
  using bitmap_key_determines [OF assms] by metis

theorem bitmap_key_inject_witness:
  "bitmap_wf (Tag 3 (TagId 300)) \<and> bitmap_wf (Tag 3 (TagText [5])) \<and>
   bitmap_serialize (\<lambda>n. n) WITH_SUBSPACE (Tag 3 (TagId 300)) 1 0 5
     \<noteq> bitmap_serialize (\<lambda>n. n) WITH_SUBSPACE (Tag 3 (TagText [5])) 1 0 5"
  using bitmap_key_inject [of "Tag 3 (TagId 300)" "Tag 3 (TagText [5])" 1 0 5 1 0 5] by simp

text \<open>The marker bit is not protected: a text tag of field 0 and an identifier tag of field 128 share
  their keys.\<close>

theorem bitmap_marker_collision:
  "bitmap_serialize (\<lambda>n. n) flags (Tag 0 (TagText [5])) account collection document
   = bitmap_serialize (\<lambda>n. n) flags (Tag 128 (TagId 5)) account collection document"
  by (simp add: bitmap_serialize_def BM_MARKER_def leb_def)

text \<open>Counters live in subspaces of their own: a class is a counter exactly when its keys go to the
  subspace of counters or of quotas.\<close>

theorem counter_subspaces:
  assumes "\<And>s k. c \<noteq> AnyClass s k"
  shows "is_counter c collection \<longleftrightarrow> value_subspace c collection \<in> {SUBSPACE_COUNTER, SUBSPACE_QUOTA}"
  using assms
  by (cases c) (auto simp: is_counter_def value_subspace_def subspaces
      split: lookup_class.split directory_class.split queue_class.split blob_op.split)

theorem counter_subspaces_witness:
  "is_counter (Property 84 :: u32 value_class) 1 \<longleftrightarrow>
   value_subspace (Property 84 :: u32 value_class) 1 \<in> {SUBSPACE_COUNTER, SUBSPACE_QUOTA}"
  by (rule counter_subspaces) simp

lemma length_leb_u32: "unat (v :: u32) < 2 ^ 28 \<Longrightarrow> length (leb v) \<le> 4"
  using length_to_leb128_bytes [of 4 v] by (simp add: leb_def)

text \<open>The identifiers for which the reserved capacity is enough, and hashes of the right length.\<close>

definition sized_class :: "('t \<Rightarrow> u32) \<Rightarrow> 't value_class \<Rightarrow> bool" where
  "sized_class r c =
     (case c of
        FtsIndex h \<Rightarrow> token_wf h
      | FtsQueue _ h \<Rightarrow> length h = BLOB_HASH_LEN
      | Blob op \<Rightarrow> (case op of BlobReserve h _ \<Rightarrow> length h | BlobCommit h \<Rightarrow> length h | BlobLink h \<Rightarrow> length h
                     | BlobLinkId h _ \<Rightarrow> length h) = BLOB_HASH_LEN
      | Directory d \<Rightarrow> (case d of Principal n \<Rightarrow> unat (r n) < 2 ^ 28 | UsedQuota n \<Rightarrow> unat n < 2 ^ 28 | _ \<Rightarrow> True)
      | _ \<Rightarrow> True)"

lemma length_parts:
  "length (event_bytes e) = length (e_domain e) + 24"
  "length (report_bytes rep) = 17"
  by (simp_all add: event_bytes_def report_bytes_def split: report_class.split)

text \<open>A key fits the capacity that is reserved for it, so that serializing it does not reallocate the
  buffer, unless it holds a directory identifier of 29 bits or more.\<close>

theorem key_fits_capacity:
  assumes "sized_class r c"
  shows "length (value_serialize r WITH_SUBSPACE c account collection document) \<le> serialized_size c + 2"
proof -
  note defs = value_serialize_def serialized_size_def with_subspace_def WITH_SUBSPACE_def U32_LEN_def U64_LEN_def
    sized_class_def BLOB_HASH_LEN_def
  show ?thesis
  proof (cases c)
    case (FtsIndex h)
    with assms show ?thesis by (auto simp: defs length_token_bytes)
  next
    case (Directory d)
    with assms show ?thesis
      using length_leb_u32 by (cases d) (auto simp: defs directory_bytes_def)
  next
    case (Blob op)
    with assms show ?thesis by (cases op) (auto simp: defs blob_op_bytes_def)
  next
    case (Queue q)
    then show ?thesis by (cases q) (auto simp: defs queue_bytes_def length_parts)
  qed (use assms in \<open>auto simp: defs length_parts split: lookup_class.split\<close>)
qed

theorem key_fits_capacity_witness:
  "length (value_serialize (\<lambda>n. n) WITH_SUBSPACE (Directory (Principal 1000)) 1 0 5)
   \<le> serialized_size (Directory (Principal (1000 :: u32))) + 2"
  by (rule key_fits_capacity) (simp add: sized_class_def)

section \<open>Keys of reports\<close>

lemma deserialize_be_u64_at:
  "i = length xs \<Longrightarrow> deserialize_be_u64 (xs @ be64 v @ ys) i = Inr v"
  using slice_index_middle [of xs "be64 v" ys] by (simp add: deserialize_be_u64_def U64_LEN_def from_be_bytes_be)

lemma report_event_deserialize_header:
  assumes "from_utf8 (e_domain e)"
  shows "report_event_deserialize (0 # event_bytes e @ [t]) = Inr e"
proof -
  let ?k = "0 # event_bytes e @ [t]"
  have len: "length ?k = length (e_domain e) + 26" by (simp add: length_parts)
  have "deserialize_be_u64 ?k 1 = Inr (e_due e)"
    using deserialize_be_u64_at [of 1 "[0]" "e_due e"] by (simp add: event_bytes_def)
  moreover have "deserialize_be_u64 ?k (length ?k - 17) = Inr (e_policy_hash e)"
    using deserialize_be_u64_at [of "length ?k - 17" "0 # be64 (e_due e) @ e_domain e" "e_policy_hash e" "be64 (e_seq_id e) @ [t]"] len
    by (simp add: event_bytes_def)
  moreover have "deserialize_be_u64 ?k (length ?k - 9) = Inr (e_seq_id e)"
    using deserialize_be_u64_at [of "length ?k - 9" "0 # be64 (e_due e) @ e_domain e @ be64 (e_policy_hash e)" "e_seq_id e" "[t]"] len
    by (simp add: event_bytes_def)
  moreover have "slice_index ?k 9 (length ?k - 17) = Some (e_domain e)"
    using slice_index_middle [of "0 # be64 (e_due e)" "e_domain e" "be64 (e_policy_hash e) @ be64 (e_seq_id e) @ [t]"] len
    by (simp add: event_bytes_def)
  ultimately show ?thesis
    using assms len by (simp add: report_event_deserialize_def U64_LEN_def)
qed

text \<open>C34: The event of an outgoing report is read back from the key of its header.\<close>

theorem report_event_roundtrip:
  assumes "from_utf8 (e_domain e)" "q = DmarcReportHeader e \<or> q = TlsReportHeader e"
  shows "report_event_deserialize (value_serialize r 0 (Queue q) account collection document) = Inr e"
  using assms report_event_deserialize_header [of e]
  by (auto simp: value_serialize_def with_subspace_def queue_bytes_def)

theorem report_event_roundtrip_witness:
  "let e = \<lparr>e_due = 1700000000, e_policy_hash = 77, e_seq_id = 5, e_domain = lit ''example.org''\<rparr> in
   report_event_deserialize (value_serialize (\<lambda>n :: u32. n) 0 (Queue (TlsReportHeader e)) 0 0 0) = Inr e"
  unfolding Let_def by (rule report_event_roundtrip) (simp_all add: from_utf8_ascii)

text \<open>
  The bounds of the scheduler's scan for reports that are due (crates/smtp/src/reporting/scheduler.rs)
  and of the deletion of expired incoming reports (crates/store/src/dispatch/store.rs).
\<close>

definition no_event :: "u64 \<Rightarrow> report_event" where
  "no_event due = \<lparr>e_due = due, e_policy_hash = 0, e_seq_id = 0, e_domain = []\<rparr>"

definition scan_from :: "u32 value_class" where "scan_from = Queue (DmarcReportHeader (no_event 0))"
definition scan_to :: "u32 value_class" where "scan_to = Queue (TlsReportHeader (no_event (-1)))"


abbreviation key_of :: "u32 value_class \<Rightarrow> bytes" where
  "key_of c \<equiv> value_serialize (\<lambda>n. n) WITH_SUBSPACE c 0 0 0"

lemmas report_key_defs = value_serialize_def with_subspace_def WITH_SUBSPACE_def value_subspace_def subspaces
  queue_bytes_def report_bytes_def event_bytes_def no_event_def

text \<open>C36: Incoming TLS reports break the scheduler: their keys are in the subspace of outgoing reports,
  between the bounds of its scan, and reading such a key as a report header is an error, which ends
  the scan.\<close>

theorem incoming_report_in_scan:
  assumes "0 < expires" "expires < -1"
  shows "key_of scan_from < key_of (Report (ReportTls n expires)) \<and> key_of (Report (ReportTls n expires)) < key_of scan_to
   \<and> report_event_deserialize (tl (key_of (Report (ReportTls n expires)))) = Inl (InternalError ''Failed to deserialize report domain'')"
proof -
  let ?k = "0 # be64 expires @ be64 n"
  have "deserialize_be_u64 ?k 1 = Inr expires"
    using deserialize_be_u64_at [of 1 "[0]" expires "be64 n"] by simp
  moreover have "\<exists>v. deserialize_be_u64 ?k 0 = Inr v" "\<exists>v. deserialize_be_u64 ?k 8 = Inr v"
    by (simp_all add: deserialize_be_u64_def slice_index_def U64_LEN_def)
  ultimately have "report_event_deserialize ?k = Inl (InternalError ''Failed to deserialize report domain'')"
    by (auto simp: report_event_deserialize_def U64_LEN_def slice_index_def)
  then show ?thesis
    using assms by (simp add: scan_from_def scan_to_def report_key_defs be_less)
qed

theorem incoming_report_in_scan_witness:
  "key_of scan_from < key_of (Report (ReportTls 1 1700000000)) \<and> key_of (Report (ReportTls 1 1700000000)) < key_of scan_to
   \<and> report_event_deserialize (tl (key_of (Report (ReportTls 1 1700000000)))) = Inl (InternalError ''Failed to deserialize report domain'')"
  by (rule incoming_report_in_scan) simp_all



end
