(* ===== verification/Batch.thy ===== *)
theory Batch
  imports StoreKeys
begin

text \<open>
  Batches of operations on the data store (crates/store/src/write/batch.rs, assert.rs and the
  operations and values of crates/store/src/write/mod.rs). A dynamic value is a function of the
  identifiers that the store assigns while it writes the batch.
\<close>

section \<open>Values and assertions\<close>

datatype maybe_dynamic_value = StaticValue bytes | DynamicValue "assigned_ids \<Rightarrow> store_error + bytes"

definition value_resolve :: "maybe_dynamic_value \<Rightarrow> assigned_ids \<Rightarrow> store_error + bytes" where
  "value_resolve v ids = (case v of StaticValue b \<Rightarrow> Inr b | DynamicValue f \<Rightarrow> f ids)"

text \<open>\<^verbatim>\<open>impl From<MaybeDynamicId> for MaybeDynamicValue\<close>\<close>

definition value_of_id :: "maybe_dynamic_id \<Rightarrow> maybe_dynamic_value" where
  "value_of_id i =
     (case i of
        StaticId n \<Rightarrow> StaticValue (be32 n)
      | DynamicId idx \<Rightarrow>
          DynamicValue (\<lambda>ids. case get_document_id ids idx of Inl e \<Rightarrow> Inl e | Inr n \<Rightarrow> Inr (be32 n)))"

definition serialize_u32 :: "u32 \<Rightarrow> bytes" where "serialize_u32 v = be32 v"
definition serialize_u64 :: "u64 \<Rightarrow> bytes" where "serialize_u64 v = be64 v"

definition deserialize_u32 :: "bytes \<Rightarrow> store_error + u32" where
  "deserialize_u32 bs =
     (if length bs = U32_LEN then Inr (from_be_bytes bs) else Inl (InternalError ''Failed to deserialize u32''))"

definition deserialize_u64 :: "bytes \<Rightarrow> store_error + u64" where
  "deserialize_u64 bs =
     (if length bs = U64_LEN then Inr (from_be_bytes bs) else Inl (InternalError ''Failed to deserialize u64''))"

datatype assert_value = AssertU32 u32 | AssertU64 u64 | AssertHash u64 | AssertSome | AssertNone

text \<open>The hash \<^verbatim>\<open>xxh3_64\<close> of an external crate is a parameter.\<close>

definition assert_matches :: "(bytes \<Rightarrow> u64) \<Rightarrow> assert_value \<Rightarrow> bytes \<Rightarrow> bool" where
  "assert_matches xxh3_64 a bs =
     (case a of
        AssertU32 v \<Rightarrow> length bs = U32_LEN \<and> deserialize_u32 bs = Inr v
      | AssertU64 v \<Rightarrow> length bs = U64_LEN \<and> deserialize_u64 bs = Inr v
      | AssertHash v \<Rightarrow> xxh3_64 bs = v
      | AssertNone \<Rightarrow> False
      | AssertSome \<Rightarrow> True)"

definition assert_is_none :: "assert_value \<Rightarrow> bool" where
  "assert_is_none a \<longleftrightarrow> a = AssertNone"

record 'a hashed_value =
  hv_hash :: u64
  hv_inner :: 'a

definition hashed_value_deserialize ::
  "(bytes \<Rightarrow> u64) \<Rightarrow> (bytes \<Rightarrow> store_error + 'a) \<Rightarrow> bytes \<Rightarrow> store_error + 'a hashed_value" where
  "hashed_value_deserialize xxh3_64 deserialize bs =
     (case deserialize bs of Inl e \<Rightarrow> Inl e | Inr v \<Rightarrow> Inr \<lparr>hv_hash = xxh3_64 bs, hv_inner = v\<rparr>)"

definition hashed_to_assert_value :: "'a hashed_value \<Rightarrow> assert_value" where
  "hashed_to_assert_value v = AssertHash (hv_hash v)"

section \<open>Operations\<close>

datatype value_op = SetValue maybe_dynamic_value | AtomicAdd int | AddAndGet int | ClearValue

datatype operation =
    OpAccountId u32
  | OpCollection u8
  | OpDocumentId u32
  | OpChangeId u64
  | OpAssertValue "maybe_dynamic_id value_class" assert_value
  | OpValue "maybe_dynamic_id value_class" value_op
  | OpIndex u8 bytes bool
  | OpBitmap "maybe_dynamic_id bitmap_class" bool
  | OpLog maybe_dynamic_value

text \<open>A builder and a batch are both their list of operations.\<close>

type_synonym batch = "operation list"

definition F_VALUE :: u32 where "F_VALUE = push_bit 0 1"
definition F_INDEX :: u32 where "F_INDEX = push_bit 1 1"
definition F_BITMAP :: u32 where "F_BITMAP = push_bit 2 1"
definition F_CLEAR :: u32 where "F_CLEAR = push_bit 3 1"

definition has_flag :: "u32 \<Rightarrow> u32 \<Rightarrow> bool" where
  "has_flag options flag \<longleftrightarrow> options AND flag = flag"

definition operation_acl :: "u32 \<Rightarrow> bytes option \<Rightarrow> operation" where
  "operation_acl grant_account_id set_v =
     OpValue (AclClass grant_account_id) (case set_v of Some v \<Rightarrow> SetValue (StaticValue v) | None \<Rightarrow> ClearValue)"

definition with_change_id :: "u64 \<Rightarrow> batch \<Rightarrow> batch" where
  "with_change_id n b = b @ [OpChangeId n]"

definition with_account_id :: "u32 \<Rightarrow> batch \<Rightarrow> batch" where
  "with_account_id n b = b @ [OpAccountId n]"

definition with_collection :: "u8 \<Rightarrow> batch \<Rightarrow> batch" where
  "with_collection n b = b @ [OpCollection n]"

definition create_document :: "batch \<Rightarrow> batch" where
  "create_document b = b @ [OpDocumentId (-1)] @ [OpBitmap DocumentIds True]"

definition create_document_with_id :: "u32 \<Rightarrow> batch \<Rightarrow> batch" where
  "create_document_with_id n b = b @ [OpDocumentId n] @ [OpBitmap DocumentIds True]"

definition update_document :: "u32 \<Rightarrow> batch \<Rightarrow> batch" where
  "update_document n b = b @ [OpDocumentId n]"

definition delete_document :: "u32 \<Rightarrow> batch \<Rightarrow> batch" where
  "delete_document n b = b @ [OpDocumentId n] @ [OpBitmap DocumentIds False]"

definition batch_assert_value :: "maybe_dynamic_id value_class \<Rightarrow> assert_value \<Rightarrow> batch \<Rightarrow> batch" where
  "batch_assert_value c a b = b @ [OpAssertValue c a]"

text \<open>The bitmaps that an integer or a list of values is indexed by (\<^verbatim>\<open>ToBitmaps\<close>).\<close>

definition u32_to_bitmaps :: "u32 \<Rightarrow> u8 \<Rightarrow> bool \<Rightarrow> batch \<Rightarrow> batch" where
  "u32_to_bitmaps v field set_v b = b @ [OpBitmap (Tag field (TagId (StaticId v))) set_v]"

definition u64_to_bitmaps :: "u64 \<Rightarrow> u8 \<Rightarrow> bool \<Rightarrow> batch \<Rightarrow> batch" where
  "u64_to_bitmaps v field set_v b = b @ [OpBitmap (Tag field (TagId (StaticId (ucast v)))) set_v]"

definition vec_to_bitmaps :: "('a \<Rightarrow> u8 \<Rightarrow> bool \<Rightarrow> batch \<Rightarrow> batch) \<Rightarrow> 'a list \<Rightarrow> u8 \<Rightarrow> bool \<Rightarrow> batch \<Rightarrow> batch" where
  "vec_to_bitmaps to_bitmaps xs field set_v b = foldl (\<lambda>b item. to_bitmaps item field set_v b) b xs"

definition batch_value :: "(u8 \<Rightarrow> bool \<Rightarrow> batch \<Rightarrow> batch) \<Rightarrow> bytes \<Rightarrow> u8 \<Rightarrow> u32 \<Rightarrow> batch \<Rightarrow> batch" where
  "batch_value to_bitmaps serialized field options b =
     (let is_set = \<not> has_flag options F_CLEAR;
          b = (if has_flag options F_BITMAP then to_bitmaps field is_set b else b);
          b = (if has_flag options F_INDEX then b @ [OpIndex field serialized is_set] else b)
      in if has_flag options F_VALUE
         then b @ [OpValue (Property field) (if is_set then SetValue (StaticValue serialized) else ClearValue)]
         else b)"

definition batch_tag :: "u8 \<Rightarrow> maybe_dynamic_id tag_value \<Rightarrow> u32 \<Rightarrow> batch \<Rightarrow> batch" where
  "batch_tag field t options b = b @ [OpBitmap (Tag field t) (\<not> has_flag options F_CLEAR)]"

definition batch_add :: "maybe_dynamic_id value_class \<Rightarrow> int \<Rightarrow> batch \<Rightarrow> batch" where
  "batch_add c n b = b @ [OpValue c (AtomicAdd n)]"

definition batch_add_and_get :: "maybe_dynamic_id value_class \<Rightarrow> int \<Rightarrow> batch \<Rightarrow> batch" where
  "batch_add_and_get c n b = b @ [OpValue c (AddAndGet n)]"

definition batch_set :: "maybe_dynamic_id value_class \<Rightarrow> maybe_dynamic_value \<Rightarrow> batch \<Rightarrow> batch" where
  "batch_set c v b = b @ [OpValue c (SetValue v)]"

definition batch_clear :: "maybe_dynamic_id value_class \<Rightarrow> batch \<Rightarrow> batch" where
  "batch_clear c b = b @ [OpValue c ClearValue]"

definition batch_log :: "maybe_dynamic_value \<Rightarrow> batch \<Rightarrow> batch" where
  "batch_log v b = b @ [OpLog v]"

fun account_of :: "operation \<Rightarrow> u32 option" where
  "account_of (OpAccountId n) = Some n"
| "account_of _ = None"

definition last_account_id :: "batch \<Rightarrow> u32 option" where
  "last_account_id b = (case List.map_filter account_of (rev b) of [] \<Rightarrow> None | n # _ \<Rightarrow> Some n)"

definition first_account_id :: "batch \<Rightarrow> u32 option" where
  "first_account_id b = (case List.map_filter account_of b of [] \<Rightarrow> None | n # _ \<Rightarrow> Some n)"

fun is_effect :: "operation \<Rightarrow> bool" where
  "is_effect (OpAccountId _) = False"
| "is_effect (OpCollection _) = False"
| "is_effect (OpDocumentId _) = False"
| "is_effect (OpAssertValue _ _) = False"
| "is_effect _ = True"

definition batch_is_empty :: "batch \<Rightarrow> bool" where
  "batch_is_empty b \<longleftrightarrow> b = [] \<or> \<not> list_ex is_effect b"

fun needs_read :: "operation \<Rightarrow> bool" where
  "needs_read (OpAssertValue _ _) = True"
| "needs_read (OpValue _ (AddAndGet _)) = True"
| "needs_read _ = False"

definition is_atomic :: "batch \<Rightarrow> bool" where
  "is_atomic b \<longleftrightarrow> \<not> list_ex needs_read b"

section \<open>Values that fit their assertion\<close>

lemma assert_matches_stored [simp]:
  "assert_matches h (AssertU32 v) (serialize_u32 w) \<longleftrightarrow> w = v"
  "assert_matches h (AssertU64 x) (serialize_u64 y) \<longleftrightarrow> y = x"
  "\<not> assert_matches h AssertNone bs" "assert_matches h AssertSome bs"
  by (simp_all add: assert_matches_def serialize_u32_def serialize_u64_def deserialize_u32_def deserialize_u64_def
      U32_LEN_def U64_LEN_def from_be_bytes_be)

lemma assert_matches_hashed:
  "hashed_value_deserialize h d bs = Inr v \<Longrightarrow> assert_matches h (hashed_to_assert_value v) bs"
  by (auto simp: hashed_value_deserialize_def hashed_to_assert_value_def assert_matches_def split: sum.splits)

end
