(* ===== verification/ChangeLog.thy ===== *)
theory ChangeLog
  imports VecMap Batch
begin

text \<open>
  The change log: what a transaction records for each collection (crates/store/src/write/log.rs) and
  how the recorded entries are folded into the changes since a state (crates/store/src/query/log.rs).
  The order in which a hash set yields its items is a parameter, \<open>iter\<close>, of which only the
  documented behaviour is used: it yields each item once.
\<close>

section \<open>Recording changes\<close>

record changes =
  inserts :: "u64 set"
  updates :: "u64 set"
  deletes :: "u64 set"
  child_updates :: "u64 set"

definition changes_default :: changes where
  "changes_default = \<lparr>inserts = {}, updates = {}, deletes = {}, child_updates = {}\<rparr>"

record change_log_builder =
  cl_change_id :: u64
  cl_changes :: "(u8, changes) vec_map"

definition change_log_new :: change_log_builder where
  "change_log_new = \<lparr>cl_change_id = -1, cl_changes = vm_new\<rparr>"

definition change_log_with_id :: "u64 \<Rightarrow> change_log_builder" where
  "change_log_with_id n = \<lparr>cl_change_id = n, cl_changes = vm_new\<rparr>"

definition changes_entry :: "u8 \<Rightarrow> (changes \<Rightarrow> changes) \<Rightarrow> change_log_builder \<Rightarrow> change_log_builder" where
  "changes_entry collection f b =
     b\<lparr>cl_changes := vm_get_mut_or_insert_with (cl_changes b) collection changes_default f\<rparr>"

definition log_insert :: "u8 \<Rightarrow> u64 \<Rightarrow> change_log_builder \<Rightarrow> change_log_builder" where
  "log_insert collection jmap_id = changes_entry collection (\<lambda>c. c\<lparr>inserts := insert jmap_id (inserts c)\<rparr>)"

definition log_update :: "u8 \<Rightarrow> u64 \<Rightarrow> change_log_builder \<Rightarrow> change_log_builder" where
  "log_update collection jmap_id = changes_entry collection (\<lambda>c. c\<lparr>updates := insert jmap_id (updates c)\<rparr>)"

definition log_child_update :: "u8 \<Rightarrow> u64 \<Rightarrow> change_log_builder \<Rightarrow> change_log_builder" where
  "log_child_update collection jmap_id =
     changes_entry collection (\<lambda>c. c\<lparr>child_updates := insert jmap_id (child_updates c)\<rparr>)"

definition log_delete :: "u8 \<Rightarrow> u64 \<Rightarrow> change_log_builder \<Rightarrow> change_log_builder" where
  "log_delete collection jmap_id = changes_entry collection (\<lambda>c. c\<lparr>deletes := insert jmap_id (deletes c)\<rparr>)"

definition log_move :: "u8 \<Rightarrow> u64 \<Rightarrow> u64 \<Rightarrow> change_log_builder \<Rightarrow> change_log_builder" where
  "log_move collection old_jmap_id new_jmap_id =
     changes_entry collection
       (\<lambda>c. c\<lparr>deletes := insert old_jmap_id (deletes c), inserts := insert new_jmap_id (inserts c)\<rparr>)"

text \<open>One deleted identifier of the log that is merged in.\<close>

definition merge_delete :: "changes \<Rightarrow> u64 \<Rightarrow> changes" where
  "merge_delete this n =
     (let this = (if n \<in> inserts this then this\<lparr>inserts := inserts this - {n}\<rparr>
                  else this\<lparr>deletes := insert n (deletes this)\<rparr>)
      in this\<lparr>updates := updates this - {n}, child_updates := child_updates this - {n}\<rparr>)"

definition merge_changes :: "(u64 set \<Rightarrow> u64 list) \<Rightarrow> changes \<Rightarrow> changes \<Rightarrow> changes" where
  "merge_changes iter other this =
     (let this = foldl merge_delete this (iter (deletes other))
      in this\<lparr>inserts := inserts this \<union> inserts other, updates := updates this \<union> updates other,
              child_updates := child_updates this \<union> child_updates other\<rparr>)"

definition change_log_merge :: "(u64 set \<Rightarrow> u64 list) \<Rightarrow> change_log_builder \<Rightarrow> change_log_builder \<Rightarrow> change_log_builder" where
  "change_log_merge iter b other =
     foldl (\<lambda>b (collection, other). changes_entry collection (merge_changes iter other) b) b (vm_iter (cl_changes other))"

definition change_log_is_empty :: "change_log_builder \<Rightarrow> bool" where
  "change_log_is_empty b \<longleftrightarrow> vm_is_empty (cl_changes b)"

definition changes_insert :: "u64 list \<Rightarrow> changes" where
  "changes_insert ids = changes_default\<lparr>inserts := set ids\<rparr>"

definition changes_update :: "u64 list \<Rightarrow> changes" where
  "changes_update ids = changes_default\<lparr>updates := set ids\<rparr>"

definition changes_child_update :: "u64 list \<Rightarrow> changes" where
  "changes_child_update ids = changes_default\<lparr>child_updates := set ids\<rparr>"

definition changes_delete :: "u64 list \<Rightarrow> changes" where
  "changes_delete ids = changes_default\<lparr>deletes := set ids\<rparr>"

definition changes_serialize :: "(u64 set \<Rightarrow> u64 list) \<Rightarrow> changes \<Rightarrow> bytes" where
  "changes_serialize iter c =
     (let buf = push_leb128 [] (of_nat (card (inserts c)) :: u64);
          buf = push_leb128 buf (of_nat (card (updates c)) :: u64);
          buf = push_leb128 buf (of_nat (card (child_updates c)) :: u64);
          buf = push_leb128 buf (of_nat (card (deletes c)) :: u64)
      in foldl (\<lambda>buf list. foldl push_leb128 buf (iter list)) buf
           [inserts c, updates c, child_updates c, deletes c])"

text \<open>\<^verbatim>\<open>impl IntoOperations for ChangeLogBuilder\<close>\<close>

definition change_log_build :: "(u64 set \<Rightarrow> u64 list) \<Rightarrow> change_log_builder \<Rightarrow> batch \<Rightarrow> batch" where
  "change_log_build iter b batch =
     foldl (\<lambda>ops (collection, changes). ops @ [OpCollection collection] @ [OpLog (StaticValue (changes_serialize iter changes))])
       (with_change_id (cl_change_id b) batch) (vm_iter (cl_changes b))"

text \<open>\<^verbatim>\<open>LogInsert\<close>: the entry of the document that the store has just created.\<close>

definition log_insert_value :: "(u64 set \<Rightarrow> u64 list) \<Rightarrow> maybe_dynamic_value" where
  "log_insert_value iter =
     DynamicValue (\<lambda>ids. case last_document_id ids of
        Inl e \<Rightarrow> Inl e | Inr n \<Rightarrow> Inr (changes_serialize iter (changes_insert [ucast n])))"

section \<open>Folding entries\<close>

datatype change = Insert u64 | Update u64 | ChildUpdate u64 | Delete u64

fun change_id :: "change \<Rightarrow> u64" where
  "change_id (Insert n) = n"
| "change_id (Update n) = n"
| "change_id (ChildUpdate n) = n"
| "change_id (Delete n) = n"

text \<open>\<^verbatim>\<open>Vec::remove\<close>\<close>

definition vec_remove :: "nat \<Rightarrow> 'a list \<Rightarrow> 'a list" where
  "vec_remove i xs = take i xs @ drop (Suc i) xs"

text \<open>The loops over the changes so far stop at the first that is an insertion or an update of the identifier.\<close>

definition live_at :: "change list \<Rightarrow> u64 \<Rightarrow> nat option" where
  "live_at cs n = position (\<lambda>c. c = Insert n \<or> c = Update n \<or> c = ChildUpdate n) cs"

definition fold_update :: "bool \<Rightarrow> u64 \<Rightarrow> change list \<Rightarrow> change list" where
  "fold_update is_child_update n cs =
     (case live_at cs n of
        None \<Rightarrow> cs @ [if is_child_update then ChildUpdate n else Update n]
      | Some idx \<Rightarrow>
          if cs ! idx = Insert n then cs
          else if cs ! idx = Update n then vec_remove idx cs @ [Update n]
          else vec_remove idx cs @ [if is_child_update then ChildUpdate n else Update n])"

definition fold_delete :: "u64 \<Rightarrow> change list \<Rightarrow> change list" where
  "fold_delete n cs =
     (case live_at cs n of
        None \<Rightarrow> cs @ [Delete n]
      | Some idx \<Rightarrow> if cs ! idx = Insert n then vec_remove idx cs else vec_remove idx cs @ [Delete n])"

text \<open>\<open>read_fold f k total bs cs\<close> reads the items \<open>k\<close>, \<dots>, \<open>total - 1\<close> of a loop and folds each with \<open>f\<close>.\<close>

fun read_fold :: "(nat \<Rightarrow> u64 \<Rightarrow> change list \<Rightarrow> change list) \<Rightarrow> nat \<Rightarrow> nat \<Rightarrow> bytes \<Rightarrow> change list \<Rightarrow> (change list \<times> bytes) option" where
  "read_fold f 0 k bs cs = Some (cs, bs)"
| "read_fold f (Suc n) k bs cs =
     (case next_leb128_u64 bs of
        (None, _) \<Rightarrow> None
      | (Some item, bs) \<Rightarrow> read_fold f n (Suc k) bs (f k item cs))"

definition changes_deserialize :: "bytes \<Rightarrow> change list \<Rightarrow> change list option" where
  "changes_deserialize bs cs =
     (case next_leb128_usize bs of (None, _) \<Rightarrow> None | (Some total_inserts, bs) \<Rightarrow>
     (case next_leb128_usize bs of (None, _) \<Rightarrow> None | (Some total_updates, bs) \<Rightarrow>
     (case next_leb128_usize bs of (None, _) \<Rightarrow> None | (Some total_child_updates, bs) \<Rightarrow>
     (case next_leb128_usize bs of (None, _) \<Rightarrow> None | (Some total_deletes, bs) \<Rightarrow>
     (case read_fold (\<lambda>_ n cs. cs @ [Insert n]) (unat total_inserts) 0 bs cs of
        None \<Rightarrow> None
      | Some (cs, bs) \<Rightarrow>
          (case read_fold (\<lambda>change_pos n cs. fold_update (change_pos \<ge> unat total_updates) n cs)
                  (unat (total_updates + total_child_updates)) 0 bs cs of
             None \<Rightarrow> None
           | Some (cs, bs) \<Rightarrow> map_option fst (read_fold (\<lambda>_. fold_delete) (unat total_deletes) 0 bs cs)))))))"

section \<open>Entries read back\<close>

text \<open>What is used of the order of a hash set.\<close>

definition iterates :: "(u64 set \<Rightarrow> u64 list) \<Rightarrow> bool" where
  "iterates iter \<longleftrightarrow> (\<forall>S. set (iter S) = S \<and> distinct (iter S))"

lemma iterates_sorted_list_of_set: "iterates sorted_list_of_set"
  by (simp add: iterates_def)

text \<open>The counts of an entry fit their width.\<close>

definition changes_small :: "changes \<Rightarrow> bool" where
  "changes_small c \<longleftrightarrow> card (inserts c) < 2 ^ 64 \<and> card (deletes c) < 2 ^ 64 \<and>
     card (updates c) + card (child_updates c) < 2 ^ 64"

definition apply_entry :: "(u64 set \<Rightarrow> u64 list) \<Rightarrow> changes \<Rightarrow> change list \<Rightarrow> change list" where
  "apply_entry iter c cs =
     fold fold_delete (iter (deletes c))
       (fold (fold_update True) (iter (child_updates c))
         (fold (fold_update False) (iter (updates c))
           (fold (\<lambda>n cs. cs @ [Insert n]) (iter (inserts c)) cs)))"

lemma push_all: "foldl push_leb128 buf ns = buf @ concat (map (push_leb128 []) ns)"
proof (induction ns arbitrary: buf)
  case (Cons n ns)
  then show ?case by (simp add: push_leb128_append [of buf n])
qed simp

lemma changes_serialize_bytes:
  "changes_serialize iter c =
     push_leb128 [] (of_nat (card (inserts c)) :: u64) @ push_leb128 [] (of_nat (card (updates c)) :: u64) @
     push_leb128 [] (of_nat (card (child_updates c)) :: u64) @ push_leb128 [] (of_nat (card (deletes c)) :: u64) @
     concat (map (push_leb128 []) (iter (inserts c))) @
     concat (map (push_leb128 []) (iter (updates c) @ iter (child_updates c))) @
     concat (map (push_leb128 []) (iter (deletes c)))"
  by (simp add: changes_serialize_def Let_def push_all push_leb128_append [of "push_leb128 [] _"]
      push_leb128_append [of "_ @ _"])

lemma read_fold_encoded:
  "read_fold f (length ns) k (concat (map (push_leb128 []) ns) @ rest) cs
     = Some (foldl (\<lambda>cs (i, n). f i n cs) cs (enumerate k ns), rest)"
  by (induction ns arbitrary: k cs) (simp_all add: leb_u64.nxt_enc)

lemma foldl_enumerate_split:
  "foldl (\<lambda>cs (i, n). f (i \<ge> k + length ns) n cs) cs (enumerate k (ns @ ms)) = fold (f True) ms (fold (f False) ns cs)"
proof -
  have "foldl (\<lambda>cs (i, n). f (i \<ge> k + length ns) n cs) cs (enumerate j xs) = fold (f False) xs cs"
    if "j + length xs \<le> k + length ns" for j xs cs
    using that by (induction xs arbitrary: j cs) simp_all
  moreover have "foldl (\<lambda>cs (i, n). f (i \<ge> k + length ns) n cs) cs (enumerate j xs) = fold (f True) xs cs"
    if "j \<ge> k + length ns" for j xs cs
    using that by (induction xs arbitrary: j cs) simp_all
  ultimately show ?thesis by (simp add: enumerate_append_eq)
qed

lemma foldl_enumerate: "foldl (\<lambda>cs (i, n). f n cs) cs (enumerate k ns) = fold f ns cs"
  by (induction ns arbitrary: k cs) simp_all

lemma changes_deserialize_serialize:
  assumes "iterates iter" "changes_small c"
  shows "changes_deserialize (changes_serialize iter c) cs = Some (apply_entry iter c cs)"
proof -
  have card: "card S = length (iter S)" for S
    using assms(1) by (metis distinct_card iterates_def)
  have unat: "unat (of_nat (card (inserts c)) :: u64) = length (iter (inserts c))"
    "unat (of_nat (card (deletes c)) :: u64) = length (iter (deletes c))"
    "unat (of_nat (card (updates c)) :: u64) = length (iter (updates c))"
    "unat (of_nat (card (updates c)) + of_nat (card (child_updates c)) :: u64)
       = length (iter (updates c) @ iter (child_updates c))"
    using assms(2) by (simp_all add: changes_small_def unat_of_nat_less card flip: of_nat_add)
  note inserts = read_fold_encoded [of "\<lambda>_ n cs. cs @ [Insert n]" "iter (inserts c)"]
  note updates = read_fold_encoded [of "\<lambda>i n cs. fold_update (i \<ge> length (iter (updates c))) n cs" "iter (updates c) @ iter (child_updates c)", simplified]
  note deletes = read_fold_encoded [of "\<lambda>_. fold_delete" "iter (deletes c)" _ "[]"]
  show ?thesis
    unfolding changes_deserialize_def changes_serialize_bytes
    using deletes foldl_enumerate_split [of fold_update 0 "iter (updates c)"]
    by (simp add: leb_usize.nxt_enc unat inserts updates foldl_enumerate apply_entry_def)
qed

section \<open>What a list of changes says of an item\<close>

datatype live = Absent | Created | Changed | ChildChanged

definition live_of :: "change list \<Rightarrow> u64 \<Rightarrow> live" where
  "live_of cs n =
     (if Insert n \<in> set cs then Created else if Update n \<in> set cs then Changed
      else if ChildUpdate n \<in> set cs then ChildChanged else Absent)"

text \<open>Whether a deletion is listed, and what is listed besides.\<close>

definition status :: "change list \<Rightarrow> u64 \<Rightarrow> bool \<times> live" where
  "status cs n = (Delete n \<in> set cs, live_of cs n)"

text \<open>At most one insertion or update of an item is listed.\<close>

fun is_live :: "change \<Rightarrow> bool" where
  "is_live (Delete _) = False"
| "is_live _ = True"

definition live_ids :: "change list \<Rightarrow> u64 list" where
  "live_ids cs = map change_id (filter is_live cs)"

definition changes_inv :: "change list \<Rightarrow> bool" where
  "changes_inv cs \<longleftrightarrow> distinct (live_ids cs)"

lemma live_ids_simps [simp]:
  "live_ids [] = []" "live_ids (xs @ ys) = live_ids xs @ live_ids ys"
  "live_ids (c # cs) = (if is_live c then change_id c # live_ids cs else live_ids cs)"
  by (simp_all add: live_ids_def)

lemma in_live_ids: "n \<in> set (live_ids cs) \<longleftrightarrow> Insert n \<in> set cs \<or> Update n \<in> set cs \<or> ChildUpdate n \<in> set cs"
proof (induction cs)
  case (Cons c cs)
  then show ?case by (cases c) auto
qed simp

lemma live_of_Absent: "live_of cs n = Absent \<longleftrightarrow> n \<notin> set (live_ids cs)"
  by (simp add: in_live_ids live_of_def)

lemma live_at_Some:
  assumes "live_at cs n = Some i"
  obtains xs c ys where "cs = xs @ c # ys" "vec_remove i cs = xs @ ys" "cs ! i = c"
    "c = Insert n \<or> c = Update n \<or> c = ChildUpdate n"
proof -
  from assms have i: "i < length cs" "cs ! i = Insert n \<or> cs ! i = Update n \<or> cs ! i = ChildUpdate n"
    by (auto simp: live_at_def position_Some)
  show thesis
    by (rule that [of "take i cs" "cs ! i" "drop (Suc i) cs"]) (use i in \<open>simp_all add: vec_remove_def id_take_nth_drop [symmetric]\<close>)
qed

lemma AbsentD:
  "live_of cs n = Absent \<Longrightarrow> n \<notin> set (live_ids cs) \<and> Insert n \<notin> set cs \<and> Update n \<notin> set cs \<and> ChildUpdate n \<notin> set cs"
  using live_of_Absent [of cs n] in_live_ids [of n cs] by blast

lemma live_at_None: "live_at cs n = None \<longleftrightarrow> live_of cs n = Absent"
  by (auto simp: live_at_def position_None live_of_def)

fun kind_of :: "change \<Rightarrow> live" where
  "kind_of (Insert _) = Created"
| "kind_of (Update _) = Changed"
| "kind_of (ChildUpdate _) = ChildChanged"
| "kind_of (Delete _) = Absent"

text \<open>Pushing a change, and removing the live change of an item.\<close>

lemma push_live:
  assumes "changes_inv cs" "live_of cs (change_id c) = Absent" "is_live c"
  shows "changes_inv (cs @ [c])" "status (cs @ [c]) = (status cs)(change_id c := (fst (status cs (change_id c)), kind_of c))"
  using assms(1,3) AbsentD [OF assms(2)]
  by (cases c; auto simp: changes_inv_def status_def live_of_def fun_eq_iff)+

lemma push_delete:
  "changes_inv (cs @ [Delete n]) = changes_inv cs"
  "status (cs @ [Delete n]) = (status cs)(n := (True, snd (status cs n)))"
  by (auto simp: changes_inv_def status_def live_of_def fun_eq_iff)

lemma remove_live:
  assumes "changes_inv (xs @ c # ys)" "is_live c"
  shows "changes_inv (xs @ ys)" "live_of (xs @ ys) (change_id c) = Absent"
    "status (xs @ c # ys) = (status (xs @ ys))(change_id c := (fst (status (xs @ ys) (change_id c)), kind_of c))"
proof -
  from assms have *: "distinct (live_ids xs @ change_id c # live_ids ys)"
    by (simp add: changes_inv_def)
  then show inv: "changes_inv (xs @ ys)" by (simp add: changes_inv_def)
  from * have "change_id c \<notin> set (live_ids (xs @ ys))" by simp
  then show ab: "live_of (xs @ ys) (change_id c) = Absent" by (simp only: live_of_Absent not_False_eq_True)
  have "status (xs @ c # ys) = status ((xs @ ys) @ [c])"
    by (auto simp: status_def live_of_def fun_eq_iff)
  then show "status (xs @ c # ys) = (status (xs @ ys))(change_id c := (fst (status (xs @ ys) (change_id c)), kind_of c))"
    using push_live(2) [OF inv ab assms(2)] by simp
qed

text \<open>The three steps change what is listed of their item only, and what they make of it.\<close>

lemma insert_status:
  assumes "changes_inv cs" "live_of cs n = Absent"
  shows "changes_inv (cs @ [Insert n])" "status (cs @ [Insert n]) = (status cs)(n := (fst (status cs n), Created))"
  using push_live [of cs "Insert n"] assms by simp_all

definition updated :: "bool \<Rightarrow> live \<Rightarrow> live" where
  "updated child l = (if l = Created \<or> l = Changed then l else if child then ChildChanged else Changed)"

lemma fold_update_status:
  assumes "changes_inv cs"
  shows "changes_inv (fold_update child n cs) \<and>
    status (fold_update child n cs) = (status cs)(n := (fst (status cs n), updated child (snd (status cs n))))"
proof (cases "live_at cs n")
  case None
  then have "live_of cs n = Absent" by (simp add: live_at_None)
  then show ?thesis
    using push_live [OF assms, of "if child then ChildUpdate n else Update n"]
    by (simp add: fold_update_def None updated_def status_def split: if_splits)
next
  case (Some i)
  then obtain xs c ys where c: "cs = xs @ c # ys" "vec_remove i cs = xs @ ys" "cs ! i = c"
    "c = Insert n \<or> c = Update n \<or> c = ChildUpdate n"
    by (rule live_at_Some)
  then have live: "is_live c" "change_id c = n" by auto
  note r = remove_live [OF assms [unfolded c(1)] live(1), unfolded live(2)]
  have p: "changes_inv (xs @ ys @ [x])" "status (xs @ ys @ [x]) = (status (xs @ ys))(n := (fst (status (xs @ ys) n), kind_of x))"
    if "x = Update n \<or> x = ChildUpdate n" for x
    using push_live [OF r(1), of x] r(2) that by auto
  show ?thesis
    unfolding fold_update_def Some option.case c(2,3)
    using c(4) assms r(3) p by (auto simp: c(1) updated_def)
qed

lemma fold_delete_status:
  assumes "changes_inv cs"
  shows "changes_inv (fold_delete n cs) \<and>
    status (fold_delete n cs) = (status cs)(n := (fst (status cs n) \<or> snd (status cs n) \<noteq> Created, Absent))"
proof (cases "live_at cs n")
  case None
  then have "live_of cs n = Absent" by (simp add: live_at_None)
  then show ?thesis
    using assms push_delete by (simp add: fold_delete_def None status_def fun_eq_iff)
next
  case (Some i)
  then obtain xs c ys where c: "cs = xs @ c # ys" "vec_remove i cs = xs @ ys" "cs ! i = c"
    "c = Insert n \<or> c = Update n \<or> c = ChildUpdate n"
    by (rule live_at_Some)
  then have live: "is_live c" "change_id c = n" by auto
  note r = remove_live [OF assms [unfolded c(1)] live(1), unfolded live(2)]
  have s: "snd (status (xs @ ys) n) = Absent"
    using r(2) by (simp add: status_def)
  show ?thesis
    unfolding fold_delete_def Some option.case c(2,3)
    using c(4) assms r(1,3) s push_delete [of "xs @ ys" n] by (auto simp: c(1) fun_eq_iff prod_eq_iff)
qed

text \<open>A fold of steps, each of which acts on its own item.\<close>

lemma fold_status:
  assumes "\<And>n cs. changes_inv cs \<Longrightarrow> P (status cs n) \<Longrightarrow> changes_inv (f n cs) \<and> status (f n cs) = (status cs)(n := g (status cs n))"
    and "changes_inv cs" "distinct ns" "\<forall>n\<in>set ns. P (status cs n)"
  shows "changes_inv (fold f ns cs) \<and> status (fold f ns cs) = (\<lambda>m. if m \<in> set ns then g (status cs m) else status cs m)"
  using assms(2-4)
proof (induction ns arbitrary: cs)
  case (Cons n ns)
  then have "changes_inv (f n cs)" "status (f n cs) = (status cs)(n := g (status cs n))"
    using assms(1) by auto
  moreover have "\<forall>m\<in>set ns. P (status (f n cs) m)"
    using Cons.prems calculation(2) by auto
  ultimately show ?case
    using Cons.IH [of "f n cs"] Cons.prems by (auto simp: fun_eq_iff)
qed simp

section \<open>The specification of an entry\<close>

definition entry_status :: "changes \<Rightarrow> u64 \<Rightarrow> bool \<times> live \<Rightarrow> bool \<times> live" where
  "entry_status c n s =
     (let (d, l) = s;
          l = (if n \<in> inserts c then Created else l);
          l = (if n \<in> updates c then updated False l else l);
          l = (if n \<in> child_updates c then updated True l else l)
      in if n \<in> deletes c then (d \<or> l \<noteq> Created, Absent) else (d, l))"

lemma apply_entry_status:
  assumes "iterates iter" "changes_inv cs" "\<forall>n\<in>inserts c. live_of cs n = Absent"
  shows "changes_inv (apply_entry iter c cs) \<and> status (apply_entry iter c cs) = (\<lambda>n. entry_status c n (status cs n))"
proof -
  have it: "set (iter S) = S" "distinct (iter S)" for S
    using assms(1) by (simp_all add: iterates_def)
  define cs1 where "cs1 = fold (\<lambda>n cs. cs @ [Insert n]) (iter (inserts c)) cs"
  define cs2 where "cs2 = fold (fold_update False) (iter (updates c)) cs1"
  define cs3 where "cs3 = fold (fold_update True) (iter (child_updates c)) cs2"
  have 1: "changes_inv cs1 \<and> status cs1 = (\<lambda>m. if m \<in> inserts c then (fst (status cs m), Created) else status cs m)"
    unfolding cs1_def
    using fold_status [of "\<lambda>s. snd s = Absent" "\<lambda>n cs. cs @ [Insert n]" "\<lambda>s. (fst s, Created)" cs "iter (inserts c)"]
      insert_status assms(2,3) it by (simp add: status_def)
  have 2: "changes_inv cs2 \<and> status cs2 = (\<lambda>m. if m \<in> updates c then (fst (status cs1 m),
      updated False (snd (status cs1 m))) else status cs1 m)"
    unfolding cs2_def
    using fold_status [of "\<lambda>_. True" "fold_update False" "\<lambda>s. (fst s, updated False (snd s))" cs1 "iter (updates c)"]
      fold_update_status [of _ False] 1 it by simp
  have 3: "changes_inv cs3 \<and> status cs3 = (\<lambda>m. if m \<in> child_updates c then (fst (status cs2 m),
      updated True (snd (status cs2 m))) else status cs2 m)"
    unfolding cs3_def
    using fold_status [of "\<lambda>_. True" "fold_update True" "\<lambda>s. (fst s, updated True (snd s))" cs2 "iter (child_updates c)"]
      fold_update_status [of _ True] 2 it by simp
  have "changes_inv (fold fold_delete (iter (deletes c)) cs3) \<and> status (fold fold_delete (iter (deletes c)) cs3) =
      (\<lambda>m. if m \<in> deletes c then (fst (status cs3 m) \<or> snd (status cs3 m) \<noteq> Created, Absent) else status cs3 m)"
    using fold_status [of "\<lambda>_. True" fold_delete "\<lambda>s. (fst s \<or> snd s \<noteq> Created, Absent)" cs3 "iter (deletes c)"]
      fold_delete_status 3 it by simp
  then show ?thesis
    unfolding apply_entry_def cs1_def [symmetric] cs2_def [symmetric] cs3_def [symmetric]
    by (auto simp: 3 2 1 entry_status_def fun_eq_iff Let_def split: prod.split)
qed

section \<open>Histories\<close>

text \<open>
  A history of a collection: the entries that were logged, and the set of its items after each. An
  entry creates items that are not there and changes or deletes items that are.
\<close>

fun history :: "u64 set \<Rightarrow> changes list \<Rightarrow> bool" where
  "history S [] = True"
| "history S (c # h) \<longleftrightarrow> changes_small c \<and> inserts c \<inter> S = {} \<and>
     updates c \<union> child_updates c \<union> deletes c \<subseteq> S \<union> inserts c \<and> history (S \<union> inserts c - deletes c) h"

fun items_after :: "u64 set \<Rightarrow> changes list \<Rightarrow> u64 set" where
  "items_after S [] = S"
| "items_after S (c # h) = items_after (S \<union> inserts c - deletes c) h"

fun fold_entries :: "bytes list \<Rightarrow> change list \<Rightarrow> change list option" where
  "fold_entries [] cs = Some cs"
| "fold_entries (bs # es) cs =
     (case changes_deserialize bs cs of None \<Rightarrow> None | Some cs \<Rightarrow> fold_entries es cs)"

text \<open>How the listed changes relate the items that there were to those that there are.\<close>

definition tracks :: "u64 set \<Rightarrow> u64 set \<Rightarrow> change list \<Rightarrow> bool" where
  "tracks S0 S cs \<longleftrightarrow> changes_inv cs \<and> (\<forall>n. case status cs n of (d, l) \<Rightarrow>
     (d \<longrightarrow> n \<in> S0) \<and> (l = Created \<and> \<not> d \<longrightarrow> n \<notin> S0) \<and> (l = Changed \<or> l = ChildChanged \<longrightarrow> n \<in> S0 \<and> \<not> d) \<and>
     (n \<in> S \<longleftrightarrow> l \<noteq> Absent \<or> n \<in> S0 \<and> \<not> d))"

lemma tracks_start: "tracks S S []"
  by (simp add: tracks_def changes_inv_def status_def live_of_def)

lemma tracks_entry:
  assumes "iterates iter" "tracks S0 S cs" "history S (c # h)"
  shows "tracks S0 (S \<union> inserts c - deletes c) (apply_entry iter c cs)"
proof -
  have t: "changes_inv cs" and s: "\<And>n. case status cs n of (d, l) \<Rightarrow>
     (d \<longrightarrow> n \<in> S0) \<and> (l = Created \<and> \<not> d \<longrightarrow> n \<notin> S0) \<and> (l = Changed \<or> l = ChildChanged \<longrightarrow> n \<in> S0 \<and> \<not> d) \<and>
     (n \<in> S \<longleftrightarrow> l \<noteq> Absent \<or> n \<in> S0 \<and> \<not> d)"
    using assms(2) by (simp_all add: tracks_def)
  have new: "\<forall>n\<in>inserts c. live_of cs n = Absent"
    using assms(3) s by (fastforce simp: status_def)
  have "case entry_status c n (status cs n) of (d, l) \<Rightarrow>
     (d \<longrightarrow> n \<in> S0) \<and> (l = Created \<and> \<not> d \<longrightarrow> n \<notin> S0) \<and> (l = Changed \<or> l = ChildChanged \<longrightarrow> n \<in> S0 \<and> \<not> d) \<and>
     (n \<in> S \<union> inserts c - deletes c \<longleftrightarrow> l \<noteq> Absent \<or> n \<in> S0 \<and> \<not> d)" for n
  proof -
    obtain d l where dl: "status cs n = (d, l)" by fastforce
    have in_S: "n \<in> updates c \<or> n \<in> child_updates c \<or> n \<in> deletes c \<Longrightarrow> n \<in> S \<or> n \<in> inserts c" "n \<in> inserts c \<Longrightarrow> n \<notin> S"
      using assms(3) by auto
    show ?thesis
      using s [of n] in_S unfolding dl entry_status_def updated_def
      by (cases l; cases "n \<in> inserts c"; cases "n \<in> updates c"; cases "n \<in> child_updates c"; cases "n \<in> deletes c") auto
  qed
  then show ?thesis
    using apply_entry_status [OF assms(1) t new] by (simp add: tracks_def)
qed

lemma tracks_items:
  assumes "tracks S0 S cs"
  shows "S = (S0 - {n. Delete n \<in> set cs}) \<union> {n. Insert n \<in> set cs}"
proof -
  have "n \<in> S \<longleftrightarrow> n \<in> S0 \<and> Delete n \<notin> set cs \<or> Insert n \<in> set cs" for n
  proof -
    have "live_of cs n = Created \<longleftrightarrow> Insert n \<in> set cs"
      by (simp add: live_of_def)
    then show ?thesis
      using assms unfolding tracks_def status_def by (cases "live_of cs n") fastforce+
  qed
  then show ?thesis by blast
qed

lemma fold_entries_tracks:
  assumes "iterates iter" "tracks S0 S cs" "history S h"
  shows "\<exists>cs'. fold_entries (map (changes_serialize iter) h) cs = Some cs' \<and> tracks S0 (items_after S h) cs'"
  using assms(2,3)
proof (induction h arbitrary: S cs)
  case (Cons c h)
  then show ?case
    using tracks_entry [OF assms(1) Cons.prems] changes_deserialize_serialize [OF assms(1), of c cs] by simp
qed simp

section \<open>Properties\<close>

text \<open>C13: Reading an entry of the change log back folds it into the changes so far as the specification
  says, item by item: an update of a new item is not listed, an item that was created and deleted is
  not listed, a deletion replaces updates; and an item keeps at most one insertion or update.\<close>

theorem changes_entry_refines:
  assumes "iterates iter" "changes_small c" "changes_inv cs" "\<forall>n\<in>inserts c. live_of cs n = Absent"
  shows "\<exists>cs'. changes_deserialize (changes_serialize iter c) cs = Some cs' \<and> changes_inv cs' \<and>
    (\<forall>n. status cs' n = entry_status c n (status cs n))"
  using changes_deserialize_serialize [OF assms(1,2)] apply_entry_status [OF assms(1,3,4)] by simp

theorem changes_entry_refines_witness:
  "let c = \<lparr>inserts = {7}, updates = {1, 2}, deletes = {3}, child_updates = {2}\<rparr>; cs = [Insert 1, ChildUpdate 2, Update 3] in
   \<exists>cs'. changes_deserialize (changes_serialize sorted_list_of_set c) cs = Some cs' \<and> changes_inv cs' \<and>
    (\<forall>n. status cs' n = entry_status c n (status cs n))"
  unfolding Let_def
  by (rule changes_entry_refines)
    (simp_all add: iterates_sorted_list_of_set changes_small_def changes_inv_def live_of_def)

text \<open>C4: The changes since a state bring a client up to date: for every history of a collection, a
  client that held its items, forgets those listed as deleted and adds those listed as inserted, then
  holds exactly the items there are now.\<close>

theorem changes_bring_up_to_date:
  assumes "iterates iter" "history S h"
  shows "\<exists>cs. fold_entries (map (changes_serialize iter) h) [] = Some cs \<and>
    items_after S h = (S - {n. Delete n \<in> set cs}) \<union> {n. Insert n \<in> set cs}"
proof -
  obtain cs where cs: "fold_entries (map (changes_serialize iter) h) [] = Some cs" "tracks S (items_after S h) cs"
    using fold_entries_tracks [OF assms(1) tracks_start assms(2)] by blast
  with tracks_items [OF cs(2)] show ?thesis by blast
qed

theorem changes_bring_up_to_date_witness:
  "let h = [changes_insert [5, 6], changes_delete [1, 6], changes_update [2, 5]] in
   \<exists>cs. fold_entries (map (changes_serialize sorted_list_of_set) h) [] = Some cs \<and>
    items_after {1, 2} h = ({1, 2} - {n. Delete n \<in> set cs}) \<union> {n. Insert n \<in> set cs}"
  unfolding Let_def
  by (rule changes_bring_up_to_date)
    (simp_all add: iterates_sorted_list_of_set changes_small_def changes_insert_def changes_delete_def changes_update_def
      changes_default_def)

section \<open>Merged logs\<close>







end
