(* ===== verification/LogQuery.thy ===== *)
theory LogQuery
  imports ChangeLog
begin

text \<open>
  Queries of the change log (crates/store/src/query/log.rs), which are the same for every backend of
  the data store: a backend provides \<open>iterate\<close>, here an argument of the queries. The contract
  \<open>log_backend\<close> says what the queries use of it, and their results are derived from it.
\<close>

section \<open>Iteration\<close>

record iterate_params =
  it_table :: u8
  it_begin :: bytes
  it_end :: bytes
  it_first :: bool
  it_ascending :: bool
  it_values :: bool

text \<open>A callback returns whether to go on, and what it collected.\<close>

type_synonym 's callback = "bytes \<Rightarrow> bytes \<Rightarrow> 's \<Rightarrow> store_error + bool \<times> 's"

type_synonym ('db, 's) iterator = "iterate_params \<Rightarrow> 's callback \<Rightarrow> 's \<Rightarrow> 'db \<Rightarrow> store_error + 's"

section \<open>Queries\<close>

datatype query = QueryAll | Since u64 | SinceInclusive u64 | RangeInclusive u64 u64

record change_list =
  ch_changes :: "change list"
  ch_from :: u64
  ch_to :: u64

definition log_change_id :: "bytes \<Rightarrow> store_error + u64" where
  "log_change_id key = deserialize_be_u64 key (length key - U64_LEN)"

definition changes_callback :: "bool \<Rightarrow> u64 \<Rightarrow> change_list callback" where
  "changes_callback is_inclusive from_change_id key val l =
     sbind (log_change_id key) (\<lambda>n.
     if is_inclusive \<or> n \<noteq> from_change_id then
       (let l = (if ch_changes l = [] then l\<lparr>ch_from := n\<rparr> else l); l = l\<lparr>ch_to := n\<rparr> in
        case changes_deserialize val (ch_changes l) of
          None \<Rightarrow> Inl (InternalError ''Failed to deserialize changelog'')
        | Some cs \<Rightarrow> Inr (True, l\<lparr>ch_changes := cs\<rparr>))
     else Inr (True, l))"

definition query_bounds :: "query \<Rightarrow> bool \<times> u64 \<times> u64" where
  "query_bounds q =
     (case q of
        QueryAll \<Rightarrow> (True, 0, -1)
      | Since n \<Rightarrow> (False, n, -1)
      | SinceInclusive n \<Rightarrow> (True, n, -1)
      | RangeInclusive from to \<Rightarrow> (True, from, to))"

definition store_changes :: "('db, change_list) iterator \<Rightarrow> u32 \<Rightarrow> u8 \<Rightarrow> query \<Rightarrow> 'db \<Rightarrow> store_error + change_list" where
  "store_changes iterate account collection q d =
     (let (is_inclusive, from_change_id, to_change_id) = query_bounds q;
          params = \<lparr> it_table = SUBSPACE_LOGS,
            it_begin = log_serialize 0 \<lparr>l_account_id = account, l_collection = collection, l_change_id = from_change_id\<rparr>,
            it_end = log_serialize 0 \<lparr>l_account_id = account, l_collection = collection, l_change_id = to_change_id\<rparr>,
            it_first = False, it_ascending = True, it_values = True \<rparr> in
      sbind (iterate params (changes_callback is_inclusive from_change_id) \<lparr>ch_changes = [], ch_from = 0, ch_to = 0\<rparr> d)
        (\<lambda>l. Inr (if ch_changes l = []
                  then l\<lparr>ch_from := from_change_id, ch_to := if to_change_id \<noteq> -1 then to_change_id else from_change_id\<rparr>
                  else l)))"

definition get_last_change_id :: "('db, u64 option) iterator \<Rightarrow> u32 \<Rightarrow> u8 \<Rightarrow> 'db \<Rightarrow> store_error + u64 option" where
  "get_last_change_id iterate account collection d =
     iterate
       \<lparr> it_table = SUBSPACE_LOGS,
         it_begin = log_serialize 0 \<lparr>l_account_id = account, l_collection = collection, l_change_id = 0\<rparr>,
         it_end = log_serialize 0 \<lparr>l_account_id = account, l_collection = collection, l_change_id = -1\<rparr>,
         it_first = True, it_ascending = False, it_values = False \<rparr>
       (\<lambda>key _ _. sbind (log_change_id key) (\<lambda>n. Inr (False, Some n))) None d"

section \<open>The contract of a backend\<close>

text \<open>Rows handed to a callback one after the other.\<close>

fun visit_rows :: "'s callback \<Rightarrow> (bytes \<times> bytes) list \<Rightarrow> 's \<Rightarrow> store_error + 's" where
  "visit_rows cb [] s = Inr s"
| "visit_rows cb ((k, v) # rs) s = sbind (cb k v s) (\<lambda>(continue, s). if continue then visit_rows cb rs s else Inr s)"

definition log_id_key :: "u32 \<Rightarrow> u8 \<Rightarrow> u64 \<Rightarrow> bytes" where
  "log_id_key account collection n =
     log_serialize 0 \<lparr>l_account_id = account, l_collection = collection, l_change_id = n\<rparr>"

definition ids_between :: "(u64 \<rightharpoonup> bytes) \<Rightarrow> u64 \<Rightarrow> u64 \<Rightarrow> u64 list" where
  "ids_between m from to = sorted_list_of_set {n \<in> dom m. from \<le> n \<and> n \<le> to}"

definition pick_rows :: "bool \<Rightarrow> bool \<Rightarrow> bool \<Rightarrow> (bytes \<times> bytes) list \<Rightarrow> (bytes \<times> bytes) list" where
  "pick_rows only_first ascending with_v rs =
     (let rs = (if ascending then rs else rev rs); rs = (if only_first then take 1 rs else rs)
      in if with_v then rs else map (\<lambda>(k, _). (k, [])) rs)"

text \<open>
  A backend holds a log for each account and collection, a map from change identifiers to entries;
  iterating over a range of log keys visits the entries of the range in the order of identifiers.
\<close>

locale log_backend =
  fixes iterate :: "('db, 's) iterator"
    and inv :: "'db \<Rightarrow> bool"
    and logs :: "'db \<Rightarrow> u32 \<Rightarrow> u8 \<Rightarrow> u64 \<rightharpoonup> bytes"
  assumes iterate_logs: "inv d \<Longrightarrow>
    iterate \<lparr> it_table = SUBSPACE_LOGS, it_begin = log_id_key account collection from, it_end = log_id_key account collection to,
        it_first = only_first, it_ascending = ascending, it_values = with_v \<rparr> cb s d
      = visit_rows cb (pick_rows only_first ascending with_v
          (map (\<lambda>n. (log_id_key account collection n, the (logs d account collection n)))
            (ids_between (logs d account collection) from to))) s"

lemma log_change_id_key: "log_change_id (log_id_key account collection n) = Inr n"
proof -
  have "slice_index (be32 account @ collection # be64 n) 5 13 = Some (be64 n)"
    using slice_index_middle [of "be32 account @ [collection]" "be64 n" "[]"] by simp
  then show ?thesis
    by (simp add: log_change_id_def log_id_key_def log_serialize_def with_subspace_def deserialize_be_u64_def U64_LEN_def
        from_be_bytes_be)
qed

lemma log_id_key_less:
  "log_id_key a c n < log_id_key a' c' n' \<longleftrightarrow> a < a' \<or> a = a' \<and> (c < c' \<or> c = c' \<and> n < n')"
  using be_less(3) [of n "[]" n' "[]"] by (auto simp: log_id_key_def log_serialize_def be_less with_subspace_def)

lemma log_id_key_eq: "log_id_key a c n = log_id_key a' c' n' \<longleftrightarrow> a = a' \<and> c = c' \<and> n = n'"
  by (auto simp: log_id_key_def log_serialize_def be_eq be_eq_end with_subspace_def)

lemma log_id_key_le: "log_id_key a c n \<le> log_id_key a c n' \<longleftrightarrow> n \<le> n'"
  by (auto simp: le_less log_id_key_less log_id_key_eq)

lemma log_id_key_between:
  "log_id_key a c from \<le> log_id_key a' c' n \<and> log_id_key a' c' n \<le> log_id_key a c to
     \<longleftrightarrow> a' = a \<and> c' = c \<and> from \<le> n \<and> n \<le> to"
  by (auto simp: le_less log_id_key_less log_id_key_eq)

lemma set_ids_between: "set (ids_between m from to) = {n \<in> dom m. from \<le> n \<and> n \<le> to}"
  by (simp add: ids_between_def)

lemma ids_between_sorted: "sorted (ids_between m from to)" "distinct (ids_between m from to)"
  by (simp_all add: ids_between_def)

lemma sorted_last_Max: "sorted xs \<Longrightarrow> xs \<noteq> [] \<Longrightarrow> last xs = Max (set xs)" for xs :: "'a::linorder list"
  by (cases xs rule: rev_cases) (auto simp: sorted_append intro!: Max_eqI [symmetric])

text \<open>The callback of \<open>store_changes\<close> folds the entries, without the one that a query starts after.\<close>

definition relevant :: "bool \<Rightarrow> u64 \<Rightarrow> u64 list \<Rightarrow> u64 list" where
  "relevant is_inclusive n ids = (if is_inclusive then ids else filter (\<lambda>i. i \<noteq> n) ids)"

lemma relevant_simps:
  "relevant inc n [] = []"
  "inc \<or> i \<noteq> n \<Longrightarrow> relevant inc n (i # ids) = i # relevant inc n ids"
  "\<not> inc \<Longrightarrow> i = n \<Longrightarrow> relevant inc n (i # ids) = relevant inc n ids"
  by (auto simp: relevant_def)

lemma changes_callback_key:
  "changes_callback inc n (log_id_key a c i) v l =
     (if inc \<or> i \<noteq> n then
        (case changes_deserialize v (ch_changes l) of
           None \<Rightarrow> Inl (InternalError ''Failed to deserialize changelog'')
         | Some cs \<Rightarrow> Inr (True, \<lparr>ch_changes = cs, ch_from = if ch_changes l = [] then i else ch_from l, ch_to = i\<rparr>))
      else Inr (True, l))"
  by (cases l) (simp add: changes_callback_def log_change_id_key split: option.split)

lemma visit_changes:
  "case visit_rows (changes_callback inc n) (map (\<lambda>i. (log_id_key a c i, f i)) ids) l of
     Inl e \<Rightarrow> e = InternalError ''Failed to deserialize changelog'' \<and> fold_entries (map f (relevant inc n ids)) (ch_changes l) = None
   | Inr l' \<Rightarrow> fold_entries (map f (relevant inc n ids)) (ch_changes l) = Some (ch_changes l') \<and>
       ch_to l' = (if relevant inc n ids = [] then ch_to l else last (relevant inc n ids))"
proof (induction ids arbitrary: l)
  case (Cons i ids)
  show ?case
  proof (cases "inc \<or> i \<noteq> n")
    case True
    show ?thesis
    proof (cases "changes_deserialize (f i) (ch_changes l)")
      case None
      with True show ?thesis by (simp add: changes_callback_key relevant_simps)
    next
      case (Some cs)
      define l1 where "l1 = \<lparr>ch_changes = cs, ch_from = if ch_changes l = [] then i else ch_from l, ch_to = i\<rparr>"
      have "changes_callback inc n (log_id_key a c i) (f i) l = Inr (True, l1)" "ch_changes l1 = cs" "ch_to l1 = i"
        using True Some by (simp_all add: changes_callback_key l1_def)
      with True Some Cons.IH [of l1] show ?thesis by (auto simp: relevant_simps split: sum.splits)
    qed
  next
    case False
    then have "\<not> inc" "i = n" by simp_all
    with Cons.IH [of l] show ?thesis by (auto simp: changes_callback_key relevant_simps split: sum.splits)
  qed
qed (simp add: relevant_simps)

text \<open>What the queries return, from the contract.\<close>

locale log_changes = log_backend iterate inv logs
  for iterate :: "('db, change_list) iterator" and inv :: "'db \<Rightarrow> bool" and logs :: "'db \<Rightarrow> u32 \<Rightarrow> u8 \<Rightarrow> u64 \<rightharpoonup> bytes"
begin

lemma changes_since:
  assumes "inv d" "ids = filter (\<lambda>i. i \<noteq> n) (ids_between (logs d account collection) n (-1))"
    and "fold_entries (map (\<lambda>i. the (logs d account collection i)) ids) [] = Some cs"
  shows "\<exists>l. store_changes iterate account collection (Since n) d = Inr l \<and> ch_changes l = cs \<and>
    ch_to l = (if cs = [] then n else last ids)"
proof -
  let ?ids = "ids_between (logs d account collection) n (-1)"
  let ?f = "\<lambda>i. the (logs d account collection i)" and ?l = "\<lparr>ch_changes = [], ch_from = 0, ch_to = 0\<rparr>"
  have ids: "relevant False n ?ids = ids"
    by (simp add: relevant_def assms(2))
  have it: "iterate \<lparr> it_table = SUBSPACE_LOGS, it_begin = log_id_key account collection n, it_end = log_id_key account collection (-1),
        it_first = False, it_ascending = True, it_values = True \<rparr> (changes_callback False n) ?l d
      = visit_rows (changes_callback False n) (map (\<lambda>i. (log_id_key account collection i, ?f i)) ?ids) ?l"
    by (simp add: iterate_logs [OF assms(1)] pick_rows_def)
  obtain l where l: "visit_rows (changes_callback False n) (map (\<lambda>i. (log_id_key account collection i, ?f i)) ?ids) ?l = Inr l"
      "ch_changes l = cs" "ch_to l = (if ids = [] then 0 else last ids)"
    using visit_changes [where inc = False and n = n and a = account and c = collection and f = ?f and ids = ?ids and l = ?l] assms(3) unfolding ids by (auto split: sum.splits)
  have "ids = [] \<Longrightarrow> cs = []"
    using assms(3) by simp
  then show ?thesis
    using it l by (auto simp: store_changes_def query_bounds_def log_id_key_def)
qed

end

locale log_last = log_backend iterate inv logs
  for iterate :: "('db, u64 option) iterator" and inv :: "'db \<Rightarrow> bool" and logs :: "'db \<Rightarrow> u32 \<Rightarrow> u8 \<Rightarrow> u64 \<rightharpoonup> bytes"
begin

lemma last_change_id:
  assumes "inv d"
  shows "get_last_change_id iterate account collection d =
    Inr (if dom (logs d account collection) = {} then None else Some (Max (dom (logs d account collection))))"
proof -
  let ?m = "logs d account collection"
  let ?ids = "ids_between ?m 0 (-1)"
  have ids: "set ?ids = dom ?m"
    by (simp add: set_ids_between)
  then have last: "(?ids = []) = (dom ?m = {})" "?ids \<noteq> [] \<Longrightarrow> last ?ids = Max (dom ?m)"
    using sorted_last_Max [OF ids_between_sorted(1), of ?m 0 "-1"] by (simp_all flip: set_empty)
  show ?thesis
    using last
    by (cases ?ids rule: rev_cases)
      (simp_all add: get_last_change_id_def iterate_logs [OF assms, unfolded log_id_key_def] pick_rows_def
        log_change_id_key [unfolded log_id_key_def])
qed

end

end
