(* ===== verification/SqliteStore.thy ===== *)
theory SqliteStore
  imports LogQuery "HOL-Library.AList"
begin

text \<open>
  The SQLite backend of the data store (crates/store/src/backend/sqlite/write.rs, read.rs and
  main.rs). A table is the list of its rows, with different keys; the SQL statements of the source are functions on
  tables. Integer columns hold unbounded integers. A statement that fails ends the transaction, and
  dropping a transaction rolls it back.
\<close>

section \<open>Tables\<close>

text \<open>The value of a row: a blob, an integer, or nothing in a table of keys.\<close>

datatype cell = CellBlob bytes | CellInt int | CellKey

type_synonym rows = "(bytes \<times> cell) list"
type_synonym db = "u8 \<Rightarrow> rows"

definition blob_tables :: "u8 list" where
  "blob_tables = [SUBSPACE_ACL, SUBSPACE_DIRECTORY, SUBSPACE_FTS_QUEUE, SUBSPACE_BLOB_RESERVE, SUBSPACE_BLOB_LINK,
     SUBSPACE_LOOKUP_VALUE, SUBSPACE_PROPERTY, SUBSPACE_SETTINGS, SUBSPACE_QUEUE_MESSAGE, SUBSPACE_QUEUE_EVENT,
     SUBSPACE_REPORT_OUT, SUBSPACE_REPORT_IN, SUBSPACE_FTS_INDEX, SUBSPACE_LOGS, 0x74]"

definition key_tables :: "u8 list" where
  "key_tables = [SUBSPACE_INDEXES, SUBSPACE_BITMAP_ID, SUBSPACE_BITMAP_TAG, SUBSPACE_BITMAP_TEXT]"

definition int_tables :: "u8 list" where
  "int_tables = [SUBSPACE_COUNTER, SUBSPACE_QUOTA]"

definition sqlite_error :: store_error where
  "sqlite_error = InternalError ''SQLite error''"

text \<open>A statement on the column \<open>v\<close> needs a table that has it, any other one a table.\<close>

definition with_values :: "u8 \<Rightarrow> 'a \<Rightarrow> store_error + 'a" where
  "with_values t r = (if t \<in> set blob_tables \<or> t \<in> set int_tables then Inr r else Inl sqlite_error)"

definition with_table :: "u8 \<Rightarrow> 'a \<Rightarrow> store_error + 'a" where
  "with_table t r =
     (if t \<in> set blob_tables \<or> t \<in> set int_tables \<or> t \<in> set key_tables then Inr r else Inl sqlite_error)"

text \<open>\<^verbatim>\<open>INSERT OR REPLACE\<close>, \<^verbatim>\<open>INSERT OR IGNORE\<close>, \<^verbatim>\<open>INSERT\<close> and \<^verbatim>\<open>DELETE\<close> of one key\<close>

definition insert_or_replace :: "u8 \<Rightarrow> bytes \<Rightarrow> bytes \<Rightarrow> db \<Rightarrow> store_error + db" where
  "insert_or_replace t k v d = with_values t (d(t := AList.update k (CellBlob v) (d t)))"

definition insert_or_ignore :: "u8 \<Rightarrow> bytes \<Rightarrow> db \<Rightarrow> store_error + db" where
  "insert_or_ignore t k d =
     with_table t (if map_of (d t) k = None then d(t := AList.update k CellKey (d t)) else d)"

definition insert_key :: "u8 \<Rightarrow> bytes \<Rightarrow> db \<Rightarrow> store_error + db" where
  "insert_key t k d =
     (if map_of (d t) k = None then with_table t (d(t := AList.update k CellKey (d t))) else Inl sqlite_error)"

definition delete_key :: "u8 \<Rightarrow> bytes \<Rightarrow> db \<Rightarrow> store_error + db" where
  "delete_key t k d = with_table t (d(t := AList.delete k (d t)))"

text \<open>
  \<^verbatim>\<open>INSERT .. ON CONFLICT(k) DO UPDATE SET v = v + excluded.v\<close> and \<^verbatim>\<open>UPDATE .. SET v = v + ?\<close>.
  What SQLite makes of a blob in an addition is a parameter, \<open>num\<close>.
\<close>

definition cell_num :: "(bytes \<Rightarrow> int) \<Rightarrow> cell \<Rightarrow> int" where
  "cell_num num c = (case c of CellInt n \<Rightarrow> n | CellBlob b \<Rightarrow> num b | CellKey \<Rightarrow> 0)"

definition upsert_add :: "(bytes \<Rightarrow> int) \<Rightarrow> u8 \<Rightarrow> bytes \<Rightarrow> int \<Rightarrow> db \<Rightarrow> store_error + int \<times> db" where
  "upsert_add num t k n d =
     (let v = (case map_of (d t) k of None \<Rightarrow> n | Some c \<Rightarrow> cell_num num c + n) in
      with_values t (v, d(t := AList.update k (CellInt v) (d t))))"

definition update_add :: "(bytes \<Rightarrow> int) \<Rightarrow> u8 \<Rightarrow> bytes \<Rightarrow> int \<Rightarrow> db \<Rightarrow> store_error + db" where
  "update_add num t k n d =
     with_values t
       (case map_of (d t) k of
          None \<Rightarrow> d
        | Some c \<Rightarrow> d(t := AList.update k (CellInt (cell_num num c + n)) (d t)))"

text \<open>\<^verbatim>\<open>SELECT .. WHERE k >= ? AND k <= ?\<close>\<close>

definition select_range :: "u8 \<Rightarrow> bytes \<Rightarrow> bytes \<Rightarrow> db \<Rightarrow> rows" where
  "select_range t from to d = filter (\<lambda>(k, _). from \<le> k \<and> k \<le> to) (d t)"

definition cell_bytes :: "cell \<Rightarrow> store_error + bytes" where
  "cell_bytes c = (case c of CellBlob b \<Rightarrow> Inr b | _ \<Rightarrow> Inl sqlite_error)"

section \<open>Free document identifiers\<close>

text \<open>
  \<^verbatim>\<open>RoaringBitmap::random_available_id\<close>: the gaps of the bitmap, filled up to a hundred identifiers,
  and one of them, picked by the random generator \<open>pick\<close>.
\<close>

fun available_gaps :: "u32 list \<Rightarrow> u32 \<Rightarrow> u32 list \<times> u32" where
  "available_gaps [] last_id = ([], last_id)"
| "available_gaps (n # ids) last_id =
     (let (gaps, l) = available_gaps ids (n + 1) in (map of_nat [unat last_id..<unat n] @ gaps, l))"

definition available_ids :: "u32 list \<Rightarrow> u32 list" where
  "available_ids ids =
     (let (gaps, last_id) = available_gaps ids 0 in
      gaps @ map (\<lambda>i. last_id + of_nat i) [0..<100 - length gaps])"

definition random_available_id :: "(nat \<Rightarrow> nat) \<Rightarrow> u32 list \<Rightarrow> u32" where
  "random_available_id pick ids = (let ids = available_ids ids in ids ! pick (length ids))"

text \<open>The document identifiers in keys of the length of \<open>begin\<close>, in the order of a bitmap.\<close>

fun key_ids :: "nat \<Rightarrow> bytes list \<Rightarrow> store_error + u32 list" where
  "key_ids key_len [] = Inr []"
| "key_ids key_len (k # ks) =
     (if length k = key_len
      then sbind (deserialize_be_u32 k (length k - U32_LEN)) (\<lambda>n. sbind (key_ids key_len ks) (\<lambda>ns. Inr (n # ns)))
      else key_ids key_len ks)"

definition bitmap_ids :: "nat \<Rightarrow> rows \<Rightarrow> store_error + u32 list" where
  "bitmap_ids key_len rs = sbind (key_ids key_len (map fst rs)) (\<lambda>ns. Inr (sort (remdups ns)))"

section \<open>Writing a batch\<close>

text \<open>Code outside the repository that the write relies on.\<close>

record write_env =
  xxh3_64 :: "bytes \<Rightarrow> u64"
  gen_range :: "nat \<Rightarrow> nat"
  blob_num :: "bytes \<Rightarrow> int"

record write_state =
  ws_account :: u32
  ws_collection :: u8
  ws_document :: u32
  ws_change :: u64
  ws_ids :: assigned_ids
  ws_db :: db

definition write_start :: "db \<Rightarrow> write_state" where
  "write_start d = \<lparr> ws_account = -1, ws_collection = -1, ws_document = -1, ws_change = -1,
     ws_ids = \<lparr>document_ids = [], counter_ids = []\<rparr>, ws_db = d \<rparr>"

definition ws_key :: "write_state \<Rightarrow> maybe_dynamic_id value_class \<Rightarrow> bytes" where
  "ws_key s c = value_serialize (resolve_id (Some (ws_ids s))) 0 c (ws_account s) (ws_collection s) (ws_document s)"

definition write_value :: "write_env \<Rightarrow> maybe_dynamic_id value_class \<Rightarrow> value_op \<Rightarrow> write_state \<Rightarrow> store_error + write_state" where
  "write_value env c op s =
     (let key = ws_key s c; t = value_subspace c (ws_collection s) in
      case op of
        SetValue v \<Rightarrow>
          sbind (value_resolve v (ws_ids s)) (\<lambda>v.
          sbind (insert_or_replace t key v (ws_db s)) (\<lambda>d. Inr (s\<lparr>ws_db := d\<rparr>)))
      | AtomicAdd n \<Rightarrow>
          if n \<ge> 0 then sbind (upsert_add (blob_num env) t key n (ws_db s)) (\<lambda>(_, d). Inr (s\<lparr>ws_db := d\<rparr>))
          else sbind (update_add (blob_num env) t key n (ws_db s)) (\<lambda>d. Inr (s\<lparr>ws_db := d\<rparr>))
      | AddAndGet n \<Rightarrow>
          sbind (upsert_add (blob_num env) t key n (ws_db s)) (\<lambda>(v, d).
            Inr (s\<lparr>ws_db := d, ws_ids := push_counter_id (ws_ids s) v\<rparr>))
      | ClearValue \<Rightarrow> sbind (delete_key t key (ws_db s)) (\<lambda>d. Inr (s\<lparr>ws_db := d\<rparr>)))"

definition write_index :: "u8 \<Rightarrow> bytes \<Rightarrow> bool \<Rightarrow> write_state \<Rightarrow> store_error + write_state" where
  "write_index field key set_v s =
     (let key = index_serialize 0 \<lparr>i_account_id = ws_account s, i_collection = ws_collection s, i_field = field,
                  i_document_id = ws_document s, i_key = key\<rparr> in
      sbind (if set_v then insert_or_ignore SUBSPACE_INDEXES key (ws_db s) else delete_key SUBSPACE_INDEXES key (ws_db s))
        (\<lambda>d. Inr (s\<lparr>ws_db := d\<rparr>)))"

definition document_key :: "u32 \<Rightarrow> u8 \<Rightarrow> u32 \<Rightarrow> bytes" where
  "document_key account collection document = bitmap_serialize (\<lambda>n. n) 0 DocumentIds account collection document"

text \<open>A document without an identifier gets a free one of its collection.\<close>

definition assign_document :: "write_env \<Rightarrow> write_state \<Rightarrow> store_error + write_state" where
  "assign_document env s =
     (let begin_key = document_key (ws_account s) (ws_collection s) 0;
          end_key = document_key (ws_account s) (ws_collection s) (-1) in
      sbind (bitmap_ids (length begin_key) (select_range SUBSPACE_BITMAP_ID begin_key end_key (ws_db s))) (\<lambda>found_ids.
        let n = random_available_id (gen_range env) found_ids in
        Inr (s\<lparr>ws_document := n, ws_ids := push_document_id (ws_ids s) n\<rparr>)))"

definition write_bitmap :: "write_env \<Rightarrow> maybe_dynamic_id bitmap_class \<Rightarrow> bool \<Rightarrow> write_state \<Rightarrow> store_error + write_state" where
  "write_bitmap env c set_v s =
     (let is_document_id = (c = DocumentIds) in
      sbind (if set_v \<and> is_document_id \<and> ws_document s = -1 then assign_document env s else Inr s) (\<lambda>s.
      let key = bitmap_serialize (resolve_id (Some (ws_ids s))) 0 c (ws_account s) (ws_collection s) (ws_document s);
          t = bitmap_subspace c in
      sbind (if set_v then (if is_document_id then insert_key SUBSPACE_BITMAP_ID key (ws_db s) else insert_or_ignore t key (ws_db s))
             else delete_key t key (ws_db s))
        (\<lambda>d. Inr (s\<lparr>ws_db := d\<rparr>))))"

definition write_log :: "maybe_dynamic_value \<Rightarrow> write_state \<Rightarrow> store_error + write_state" where
  "write_log v s =
     (let key = log_serialize 0 \<lparr>l_account_id = ws_account s, l_collection = ws_collection s, l_change_id = ws_change s\<rparr> in
      sbind (value_resolve v (ws_ids s)) (\<lambda>v.
      sbind (insert_or_replace SUBSPACE_LOGS key v (ws_db s)) (\<lambda>d. Inr (s\<lparr>ws_db := d\<rparr>))))"

definition write_assert :: "write_env \<Rightarrow> maybe_dynamic_id value_class \<Rightarrow> assert_value \<Rightarrow> write_state \<Rightarrow> store_error + write_state" where
  "write_assert env c a s =
     (let t = value_subspace c (ws_collection s) in
      sbind (with_values t (map_of (ws_db s t) (ws_key s c))) (\<lambda>row.
      sbind (case row of
               None \<Rightarrow> Inr (assert_is_none a)
             | Some cell \<Rightarrow> sbind (cell_bytes cell) (\<lambda>b. Inr (assert_matches (xxh3_64 env) a b))) (\<lambda>ok.
      if ok then Inr s else Inl AssertValueFailed)))"

fun write_op :: "write_env \<Rightarrow> operation \<Rightarrow> write_state \<Rightarrow> store_error + write_state" where
  "write_op env (OpAccountId n) s = Inr (s\<lparr>ws_account := n\<rparr>)"
| "write_op env (OpCollection n) s = Inr (s\<lparr>ws_collection := n\<rparr>)"
| "write_op env (OpDocumentId n) s = Inr (s\<lparr>ws_document := n\<rparr>)"
| "write_op env (OpChangeId n) s = Inr (s\<lparr>ws_change := n\<rparr>)"
| "write_op env (OpValue c op) s = write_value env c op s"
| "write_op env (OpIndex field key set_v) s = write_index field key set_v s"
| "write_op env (OpBitmap c set_v) s = write_bitmap env c set_v s"
| "write_op env (OpLog v) s = write_log v s"
| "write_op env (OpAssertValue c a) s = write_assert env c a s"

fun write_ops :: "write_env \<Rightarrow> batch \<Rightarrow> write_state \<Rightarrow> store_error + write_state" where
  "write_ops env [] s = Inr s"
| "write_ops env (op # ops) s = sbind (write_op env op s) (write_ops env ops)"

text \<open>The transaction: commits what the operations made of the database, or leaves it as it was.\<close>

definition sqlite_write :: "write_env \<Rightarrow> batch \<Rightarrow> db \<Rightarrow> (store_error + assigned_ids) \<times> db" where
  "sqlite_write env ops d =
     (case write_ops env ops (write_start d) of
        Inl e \<Rightarrow> (Inl e, d)
      | Inr s \<Rightarrow> (Inr (ws_ids s), ws_db s))"

definition sqlite_purge_store :: "db \<Rightarrow> db" where
  "sqlite_purge_store d =
     foldl (\<lambda>d t. d(t := filter (\<lambda>(_, c). c \<noteq> CellInt 0) (d t))) d [SUBSPACE_QUOTA, SUBSPACE_COUNTER]"

definition sqlite_delete_range :: "u8 \<Rightarrow> bytes \<Rightarrow> bytes \<Rightarrow> db \<Rightarrow> store_error + db" where
  "sqlite_delete_range t from to d =
     with_table t (d(t := filter (\<lambda>(k, _). \<not> (from \<le> k \<and> k < to)) (d t)))"

section \<open>Reading\<close>

definition sqlite_get_value :: "(bytes \<Rightarrow> store_error + 'a) \<Rightarrow> u8 \<Rightarrow> bytes \<Rightarrow> db \<Rightarrow> store_error + 'a option" where
  "sqlite_get_value deserialize t k d =
     sbind (with_values t (map_of (d t) k)) (\<lambda>row.
     case row of
       None \<Rightarrow> Inr None
     | Some c \<Rightarrow> sbind (cell_bytes c) (\<lambda>b. case deserialize b of Inl e \<Rightarrow> Inl sqlite_error | Inr v \<Rightarrow> Inr (Some v)))"

definition sqlite_get_bitmap :: "u32 bitmap_class \<Rightarrow> u32 \<Rightarrow> u8 \<Rightarrow> u32 \<Rightarrow> db \<Rightarrow> store_error + u32 list option" where
  "sqlite_get_bitmap c account collection document d =
     (let begin_key = bitmap_serialize (\<lambda>n. n) 0 c account collection document;
          end_key = bitmap_serialize (\<lambda>n. n) 0 c account collection (-1) in
      sbind (bitmap_ids (length begin_key) (select_range (bitmap_subspace c) begin_key end_key d)) (\<lambda>bm.
      Inr (if bm \<noteq> [] then Some bm else None)))"

definition sqlite_get_counter :: "u8 \<Rightarrow> bytes \<Rightarrow> db \<Rightarrow> store_error + int" where
  "sqlite_get_counter t k d =
     sbind (with_values t (map_of (d t) k)) (\<lambda>row.
     case row of None \<Rightarrow> Inr 0 | Some (CellInt n) \<Rightarrow> Inr n | Some _ \<Rightarrow> Inl sqlite_error)"

fun iterate_rows :: "bool \<Rightarrow> 's callback \<Rightarrow> rows \<Rightarrow> 's \<Rightarrow> store_error + 's" where
  "iterate_rows values cb [] s = Inr s"
| "iterate_rows values cb ((k, c) # rs) s =
     sbind (if values then cell_bytes c else Inr []) (\<lambda>v.
     sbind (cb k v s) (\<lambda>(continue, s). if continue then iterate_rows values cb rs s else Inr s))"

definition sqlite_iterate :: "(db, 's) iterator" where
  "sqlite_iterate params cb s d =
     (let rs = sort_key fst (select_range (it_table params) (it_begin params) (it_end params) d);
          rs = (if it_ascending params then rs else rev rs);
          rs = (if it_first params then take 1 rs else rs)
      in sbind (if it_values params then with_values (it_table params) () else with_table (it_table params) ())
           (\<lambda>_. iterate_rows (it_values params) cb rs s))"

section \<open>Single statements\<close>

lemmas table_defs = with_values_def with_table_def blob_tables_def key_tables_def int_tables_def subspaces

lemma document_class_table:
  "document_class c \<Longrightarrow> with_values (value_subspace c col) r = Inr r"
  by (erule document_class_cases) (auto simp: value_subspace_def table_defs)

lemma value_key_prefix:
  "value_serialize r WITH_SUBSPACE c account collection document
     = value_subspace c collection # value_serialize r 0 c account collection document"
  by (simp add: value_serialize_def with_subspace_def WITH_SUBSPACE_def)

lemma value_row_determines:
  assumes "document_class c" "document_class c'" "value_subspace c collection = value_subspace c' collection'"
    and "value_serialize r 0 c account collection document = value_serialize r' 0 c' account' collection' document'"
  shows "c = c' \<and> account = account' \<and> collection = collection' \<and> document = document'"
  by (rule value_key_determines [OF assms(1,2), where r = r and r' = r']) (simp only: value_key_prefix assms(3,4))

text \<open>The row of a value of a document.\<close>

definition value_row :: "u32 \<Rightarrow> u8 \<Rightarrow> u32 \<Rightarrow> maybe_dynamic_id value_class \<Rightarrow> db \<Rightarrow> cell option" where
  "value_row account collection document c d =
     map_of (d (value_subspace c collection)) (value_serialize (resolve_id None) 0 c account collection document)"

section \<open>Properties of values\<close>

definition at_document :: "u32 \<Rightarrow> u8 \<Rightarrow> u32 \<Rightarrow> batch" where
  "at_document account collection document = update_document document (with_collection collection (with_account_id account []))"

lemma write_ops_append: "write_ops env (xs @ ys) s = sbind (write_ops env xs s) (write_ops env ys)"
  by (induction xs arbitrary: s) (auto simp: sbind_def split: sum.split)

lemma write_start_db: "ws_db (write_start d) = d"
  by (simp add: write_start_def)

lemma write_at_document:
  "write_ops env (at_document account collection document @ ops) (write_start d) =
     write_ops env ops ((write_start d)\<lparr>ws_account := account, ws_collection := collection, ws_document := document\<rparr>)"
  by (simp add: at_document_def update_document_def with_collection_def with_account_id_def)

text \<open>C12: Writing a value of a document and reading it back: the row of that document, collection, account
  and class holds the new value, and the row of every other one is untouched.\<close>

theorem sqlite_set_then_get:
  assumes "document_class c" "document_class c'"
  shows "let (r, d') = sqlite_write env (batch_set c (StaticValue v) (at_document account collection document)) d in
    (\<exists>ids. r = Inr ids) \<and>
    value_row account' collection' document' c' d' =
      (if (account', collection', document', c') = (account, collection, document, c) then Some (CellBlob v)
       else value_row account' collection' document' c' d)"
proof -
  let ?key = "\<lambda>c. value_serialize (resolve_id None) 0 c"
  have key: "value_serialize (resolve_id (Some (ws_ids (write_start d)))) 0 c account collection document
      = ?key c account collection document"
    by (rule document_class_resolve [OF assms(1)])
  have same: "(account', collection', document', c') = (account, collection, document, c)"
    if "value_subspace c' collection' = value_subspace c collection"
      "?key c' account' collection' document' = ?key c account collection document"
    using value_row_determines [OF assms(2,1) that] by simp
  have "sqlite_write env (batch_set c (StaticValue v) (at_document account collection document)) d =
      (Inr (ws_ids (write_start d)),
       d(value_subspace c collection := AList.update (?key c account collection document) (CellBlob v) (d (value_subspace c collection))))"
    by (simp add: batch_set_def sqlite_write_def write_at_document write_value_def ws_key_def key Let_def
        write_start_db value_resolve_def insert_or_replace_def document_class_table [OF assms(1)])
  then show ?thesis
    using same by (cases "value_subspace c' collection' = value_subspace c collection")
      (auto simp: value_row_def update_conv' simp del: prod.inject)
qed

definition plain_env :: write_env where
  "plain_env = \<lparr>xxh3_64 = (\<lambda>b. from_be_bytes b), gen_range = (\<lambda>n. n - 1), blob_num = (\<lambda>_. 0)\<rparr>"

theorem sqlite_set_then_get_witness:
  "document_class (Property 5 :: maybe_dynamic_id value_class) \<and> document_class (AclClass 8 :: maybe_dynamic_id value_class) \<and>
   (let (r, d') = sqlite_write plain_env (batch_set (Property 5) (StaticValue [9]) (at_document 1 2 3)) (\<lambda>_. []) in
    (\<exists>ids. r = Inr ids) \<and> value_row 1 2 3 (AclClass 8) d' = value_row 1 2 3 (AclClass 8) (\<lambda>_. []))"
  using sqlite_set_then_get [of "Property 5" "AclClass 8" plain_env "[9]" 1 2 3 "\<lambda>_. []" 1 2 3] by simp

section \<open>The change log\<close>

text \<open>The table of the log holds entries under keys of log entries, one for each.\<close>

definition logs_wf :: "db \<Rightarrow> bool" where
  "logs_wf d \<longleftrightarrow> distinct (map fst (d SUBSPACE_LOGS)) \<and>
     (\<forall>(k, v)\<in>set (d SUBSPACE_LOGS). (\<exists>a c n. k = log_id_key a c n) \<and> (\<exists>b. v = CellBlob b))"

definition sqlite_logs :: "db \<Rightarrow> u32 \<Rightarrow> u8 \<Rightarrow> u64 \<rightharpoonup> bytes" where
  "sqlite_logs d account collection n =
     (case map_of (d SUBSPACE_LOGS) (log_id_key account collection n) of Some (CellBlob b) \<Rightarrow> Some b | _ \<Rightarrow> None)"

lemma sqlite_logs_row:
  assumes "logs_wf d"
  shows "sqlite_logs d a c n = Some b \<longleftrightarrow> (log_id_key a c n, CellBlob b) \<in> set (d SUBSPACE_LOGS)"
proof -
  have "map_of (d SUBSPACE_LOGS) k = Some v \<longleftrightarrow> (k, v) \<in> set (d SUBSPACE_LOGS)" for k v
    using assms by (simp add: logs_wf_def)
  from this [of "log_id_key a c n", symmetric] show ?thesis
    by (simp add: sqlite_logs_def split: option.split cell.split)
qed

lemma iterate_blobs:
  "iterate_rows with_v cb (map (\<lambda>n. (f n, CellBlob (g n))) ns) s
     = visit_rows cb (map (\<lambda>n. (f n, if with_v then g n else [])) ns) s"
  by (induction ns arbitrary: s) (auto simp: cell_bytes_def intro!: arg_cong2 [where f = sbind] split: prod.split)

lemma log_rows:
  assumes "logs_wf d"
  shows "sort_key fst (select_range SUBSPACE_LOGS (log_id_key a c from) (log_id_key a c to) d)
    = map (\<lambda>n. (log_id_key a c n, CellBlob (the (sqlite_logs d a c n)))) (ids_between (sqlite_logs d a c) from to)"
    (is "sort_key fst ?rs = map ?row ?ns")
proof (rule map_sorted_distinct_set_unique [where f = fst])
  have rs: "set ?rs = {(log_id_key a c n, CellBlob b) |n b. sqlite_logs d a c n = Some b \<and> from \<le> n \<and> n \<le> to}"
  proof (intro set_eqI iffI)
    fix r assume "r \<in> set ?rs"
    then obtain k v where r: "r = (k, v)" "(k, v) \<in> set (d SUBSPACE_LOGS)" "log_id_key a c from \<le> k" "k \<le> log_id_key a c to"
      by (auto simp: select_range_def)
    moreover obtain a' c' n b where "k = log_id_key a' c' n" "v = CellBlob b"
      using assms r(2) by (auto simp: logs_wf_def)
    ultimately show "r \<in> {(log_id_key a c n, CellBlob b) |n b. sqlite_logs d a c n = Some b \<and> from \<le> n \<and> n \<le> to}"
      using log_id_key_between [of a c "from" a' c' n to] by (auto simp: sqlite_logs_row [OF assms])
  next
    fix r assume "r \<in> {(log_id_key a c n, CellBlob b) |n b. sqlite_logs d a c n = Some b \<and> from \<le> n \<and> n \<le> to}"
    then show "r \<in> set ?rs"
      using log_id_key_between [of a c "from" a c _ to] by (auto simp: select_range_def sqlite_logs_row [OF assms])
  qed
  have dist: "distinct (map fst ?rs)"
    using assms by (simp add: logs_wf_def select_range_def distinct_map_filter)
  show "sorted (map fst (sort_key fst ?rs))"
    by simp
  show "distinct (map fst (sort_key fst ?rs))"
    using dist by (simp add: distinct_map)
  show same: "set (sort_key fst ?rs) = set (map ?row ?ns)"
    by (auto simp: rs set_ids_between)
  then show "inj_on fst (set (sort_key fst ?rs) \<union> set (map ?row ?ns))"
    using dist by (simp add: distinct_map)
  show "sorted (map fst (map ?row ?ns))"
    using ids_between_sorted [of "sqlite_logs d a c" "from" to]
    by (simp add: sorted_wrt_map o_def log_id_key_le)
  show "distinct (map fst (map ?row ?ns))"
    using ids_between_sorted [of "sqlite_logs d a c" "from" to] by (simp add: distinct_map inj_on_def log_id_key_eq o_def)
qed

lemma logs_table: "with_values SUBSPACE_LOGS r = Inr r" "with_table SUBSPACE_LOGS r = Inr r"
  by (simp_all add: table_defs)

lemma sqlite_iterate_logs:
  assumes "logs_wf d"
  shows "sqlite_iterate \<lparr> it_table = SUBSPACE_LOGS, it_begin = log_id_key a c from, it_end = log_id_key a c to,
        it_first = only_first, it_ascending = ascending, it_values = with_v \<rparr> cb s d
      = visit_rows cb (pick_rows only_first ascending with_v
          (map (\<lambda>n. (log_id_key a c n, the (sqlite_logs d a c n))) (ids_between (sqlite_logs d a c) from to))) s"
  by (simp add: sqlite_iterate_def logs_table log_rows [OF assms] Let_def pick_rows_def rev_map take_map iterate_blobs o_def)

interpretation sqlite_changes: log_changes sqlite_iterate logs_wf sqlite_logs
  by unfold_locales (rule sqlite_iterate_logs)

interpretation sqlite_last: log_last sqlite_iterate logs_wf sqlite_logs
  by unfold_locales (rule sqlite_iterate_logs)

end
