(* ===== verification/SqliteProps.thy ===== *)
theory SqliteProps
  imports SqliteStore
begin

text \<open>
  Sequences of transactions on the SQLite backend: clients that follow the change log, writers that
  compete for a value, and new documents.
\<close>

section \<open>Transactions one after the other\<close>

text \<open>Immediate transactions exclude each other, so that concurrent batches are written in some order.\<close>

fun run_batches :: "write_env \<Rightarrow> batch list \<Rightarrow> db \<Rightarrow> (store_error + assigned_ids) list \<times> db" where
  "run_batches env [] d = ([], d)"
| "run_batches env (b # bs) d =
     (let (r, d) = sqlite_write env b d; (rs, d) = run_batches env bs d in (r # rs, d))"

definition no_ids :: assigned_ids where
  "no_ids = \<lparr>document_ids = [], counter_ids = []\<rparr>"

section \<open>Committing changes\<close>

text \<open>A batch that commits the changes of an account (\<open>change_log_build\<close>).\<close>

definition commit_changes :: "(u64 set \<Rightarrow> u64 list) \<Rightarrow> u32 \<times> change_log_builder \<Rightarrow> batch" where
  "commit_changes iter ab = change_log_build iter (snd ab) (with_account_id (fst ab) [])"

definition put_log :: "u32 \<Rightarrow> u8 \<Rightarrow> u64 \<Rightarrow> bytes \<Rightarrow> db \<Rightarrow> db" where
  "put_log account col n v d = d(SUBSPACE_LOGS := AList.update (log_id_key account col n) (CellBlob v) (d SUBSPACE_LOGS))"

definition put_logs :: "(u64 set \<Rightarrow> u64 list) \<Rightarrow> u32 \<Rightarrow> u64 \<Rightarrow> (u8 \<times> changes) list \<Rightarrow> db \<Rightarrow> db" where
  "put_logs iter account n ccs d =
     foldl (\<lambda>d (col, c). put_log account col n (changes_serialize iter c) d) d ccs"

lemma foldl_ops:
  "foldl (\<lambda>ops (collection, changes). ops @ [OpCollection collection, OpLog (f changes)]) ops ccs
     = ops @ concat (map (\<lambda>(collection, changes). [OpCollection collection, OpLog (f changes)]) ccs)"
  by (induction ccs arbitrary: ops) auto

lemma write_log_put:
  "write_log (StaticValue v) s = Inr (s\<lparr>ws_db := put_log (ws_account s) (ws_collection s) (ws_change s) v (ws_db s)\<rparr>)"
  by (simp add: write_log_def value_resolve_def insert_or_replace_def logs_table put_log_def log_id_key_def)

lemma write_logs:
  "\<exists>col. write_ops env (concat (map (\<lambda>(col, c). [OpCollection col, OpLog (StaticValue (changes_serialize iter c))]) ccs)) s
     = Inr (s\<lparr>ws_collection := col, ws_db := put_logs iter (ws_account s) (ws_change s) ccs (ws_db s)\<rparr>)"
proof (induction ccs arbitrary: s)
  case Nil
  show ?case by (rule exI [of _ "ws_collection s"]) (simp add: put_logs_def)
next
  case (Cons cc ccs)
  obtain col c where "cc = (col, c)" by fastforce
  then show ?case
    using Cons [of "s\<lparr>ws_collection := col, ws_db := put_log (ws_account s) col (ws_change s) (changes_serialize iter c) (ws_db s)\<rparr>"]
    by (simp add: write_log_put put_logs_def)
qed

lemma commit_changes_written:
  "sqlite_write env (commit_changes iter (account, b)) d =
     (Inr no_ids, put_logs iter account (cl_change_id b) (vm_iter (cl_changes b)) d)"
proof -
  let ?s = "(write_start d)\<lparr>ws_account := account, ws_change := cl_change_id b\<rparr>"
  obtain col where "write_ops env (concat (map (\<lambda>(col, c). [OpCollection col, OpLog (StaticValue (changes_serialize iter c))]) (vm_iter (cl_changes b)))) ?s
     = Inr (?s\<lparr>ws_collection := col, ws_db := put_logs iter (ws_account ?s) (ws_change ?s) (vm_iter (cl_changes b)) (ws_db ?s)\<rparr>)"
    using write_logs by blast
  then show ?thesis
    by (simp add: sqlite_write_def commit_changes_def change_log_build_def foldl_ops with_change_id_def with_account_id_def
        write_ops_append write_start_def no_ids_def)
qed

lemma update_rows: "r \<in> set (AList.update k v rs) \<Longrightarrow> r = (k, v) \<or> r \<in> set rs"
  by (induction rs) (auto split: if_splits)

lemma put_log_wf: "logs_wf d \<Longrightarrow> logs_wf (put_log account col n v d)"
  by (auto simp: logs_wf_def put_log_def distinct_update dest!: update_rows)

lemma put_log_logs:
  "sqlite_logs (put_log account col n v d) a c i = (if a = account \<and> c = col \<and> i = n then Some v else sqlite_logs d a c i)"
  by (auto simp: sqlite_logs_def put_log_def update_conv' log_id_key_eq)

lemma put_logs_logs:
  assumes "logs_wf d" "distinct (map fst ccs)"
  shows "logs_wf (put_logs iter account n ccs d) \<and>
    sqlite_logs (put_logs iter account n ccs d) a c i =
      (if a = account \<and> i = n \<and> map_of ccs c \<noteq> None then map_option (changes_serialize iter) (map_of ccs c) else sqlite_logs d a c i)"
  using assms
proof (induction ccs arbitrary: d)
  case Nil
  then show ?case by (simp add: put_logs_def)
next
  case (Cons cc ccs)
  obtain col ch where cc: "cc = (col, ch)" by fastforce
  define d' where "d' = put_log account col n (changes_serialize iter ch) d"
  have "put_logs iter account n (cc # ccs) d = put_logs iter account n ccs d'"
    by (simp add: put_logs_def cc d'_def)
  moreover have "map_of ccs col = None"
    using Cons.prems(2) by (simp add: cc map_of_eq_None_iff)
  ultimately show ?case
    using Cons.IH [OF put_log_wf [OF Cons.prems(1)], folded d'_def] Cons.prems(2) by (auto simp: cc d'_def put_log_logs)
qed

text \<open>The entries that commits add to the log of an account and collection.\<close>

definition entries_of :: "u32 \<Rightarrow> u8 \<Rightarrow> (u32 \<times> change_log_builder) list \<Rightarrow> (u64 \<times> changes) list" where
  "entries_of a c commits =
     concat (map (\<lambda>(account, b). case vm_get (cl_changes b) c of
        Some ch \<Rightarrow> if account = a then [(cl_change_id b, ch)] else [] | None \<Rightarrow> []) commits)"

lemma run_commits:
  assumes "logs_wf d" "\<forall>(account, b)\<in>set commits. vm_inv (cl_changes b)"
  shows "\<exists>d'. run_batches env (map (commit_changes iter) commits) d = (replicate (length commits) (Inr no_ids), d') \<and> logs_wf d' \<and>
    sqlite_logs d' a c = sqlite_logs d a c ++ map_of (rev (map (\<lambda>(n, ch). (n, changes_serialize iter ch)) (entries_of a c commits)))"
  using assms
proof (induction commits arbitrary: d)
  case Nil
  then show ?case by (simp add: entries_of_def)
next
  case (Cons ab commits)
  obtain account b where ab: "ab = (account, b)" by fastforce
  have "vm_inv (cl_changes b)" using Cons.prems(2) ab by simp
  then have b: "distinct (map fst (vm_iter (cl_changes b)))" "vm_get (cl_changes b) = map_of (vm_iter (cl_changes b))"
    by (auto simp: vm_inv_def vm_iter_def vm_get_map_of)
  define d1 where "d1 = put_logs iter account (cl_change_id b) (vm_iter (cl_changes b)) d"
  have d1: "logs_wf d1" "sqlite_logs d1 a c = sqlite_logs d a c ++
      map_of (map (\<lambda>(n, ch). (n, changes_serialize iter ch)) (entries_of a c [ab]))"
    using put_logs_logs [OF Cons.prems(1) b(1), where iter = iter and account = account and n = "cl_change_id b"]
    by (auto simp: d1_def entries_of_def ab b(2) fun_eq_iff map_add_def split: option.split)
  have split: "entries_of a c (ab # commits) = entries_of a c [ab] @ entries_of a c commits" "length (entries_of a c [ab]) \<le> 1"
    by (auto simp: entries_of_def ab split: option.split)
  then have "rev (map f (entries_of a c [ab])) = map f (entries_of a c [ab])" for f :: "u64 \<times> changes \<Rightarrow> u64 \<times> bytes"
    by (cases "entries_of a c [ab]") auto
  then have rev: "rev (map f (entries_of a c (ab # commits))) = rev (map f (entries_of a c commits)) @ map f (entries_of a c [ab])"
    for f :: "u64 \<times> changes \<Rightarrow> u64 \<times> bytes"
    by (simp add: split(1))
  show ?case
    using Cons.IH [OF d1(1)] Cons.prems(2)
    by (auto simp: ab commit_changes_written d1_def [symmetric] d1(2) rev [unfolded ab] map_of_append)
qed

lemma Max_continued:
  fixes n :: "'a::{finite, linorder}"
  assumes "sorted_wrt (<) (n # xs)" "n \<in> A" "\<And>i. i \<in> A \<Longrightarrow> i \<le> n"
  shows "Max (A \<union> set xs) = last (n # xs)"
proof (rule Max_eqI)
  have last: "i \<le> last (n # xs)" if "i \<in> set (n # xs)" for i
    using sorted_last_Max [of "n # xs"] assms(1) that Max_ge [of "set (n # xs)" i] by (simp only: strict_sorted_iff) simp
  show "last (n # xs) \<in> A \<union> set xs"
    using last_in_set [OF list.distinct(2), of n xs] assms(2) by (auto simp del: last.simps)
  show "i \<le> last (n # xs)" if "i \<in> A \<union> set xs" for i
    using that assms(3) last [of n] last [of i] by fastforce
qed simp

section \<open>Following the change log\<close>

text \<open>C1: A client stays up to date through the store: after any sequence of commits to any accounts and
  collections, the changes since the last change identifier that the client saw list exactly how the
  items differ, and the last change identifier is then that of the last commit.\<close>

theorem sqlite_client_up_to_date:
  assumes "iterates iter" "logs_wf d" "get_last_change_id sqlite_iterate a c d = Inr (Some n)"
    and "\<forall>(account, b)\<in>set commits. vm_inv (cl_changes b)"
    and "sorted_wrt (<) (n # map fst (entries_of a c commits))" "history S (map snd (entries_of a c commits))"
  shows "\<exists>d' l. run_batches env (map (commit_changes iter) commits) d = (replicate (length commits) (Inr no_ids), d') \<and>
    store_changes sqlite_iterate a c (Since n) d' = Inr l \<and>
    items_after S (map snd (entries_of a c commits))
      = (S - {i. Delete i \<in> set (ch_changes l)}) \<union> {i. Insert i \<in> set (ch_changes l)} \<and>
    get_last_change_id sqlite_iterate a c d' = Inr (Some (last (n # map fst (entries_of a c commits))))"
proof -
  let ?es = "entries_of a c commits" and ?ser = "\<lambda>(n, ch). (n, changes_serialize iter ch)"
  obtain d' where d': "run_batches env (map (commit_changes iter) commits) d = (replicate (length commits) (Inr no_ids), d')"
      "logs_wf d'" "sqlite_logs d' a c = sqlite_logs d a c ++ map_of (rev (map ?ser ?es))"
    using run_commits [OF assms(2,4)] by blast
  have "dom (sqlite_logs d a c) \<noteq> {}" "n = Max (dom (sqlite_logs d a c))"
    using assms(3) unfolding sqlite_last.last_change_id [OF assms(2)] by (simp_all split: if_splits)
  then have old: "n \<in> dom (sqlite_logs d a c)" "\<And>i. i \<in> dom (sqlite_logs d a c) \<Longrightarrow> i \<le> n"
    using Max_in [of "dom (sqlite_logs d a c)"] Max_ge [of "dom (sqlite_logs d a c)"] by (metis finite)+
  have incr: "sorted (map fst ?es)" "distinct (map fst ?es)" "\<And>i. i \<in> set (map fst ?es) \<Longrightarrow> n < i"
    using assms(5) by (auto simp: strict_sorted_iff)
  have dom: "dom (sqlite_logs d' a c) = dom (sqlite_logs d a c) \<union> set (map fst ?es)"
    by (auto simp: d'(3) dom_map_of_conv_image_fst image_image split_beta)
  have ids: "filter (\<lambda>i. i \<noteq> n) (ids_between (sqlite_logs d' a c) n (-1)) = map fst ?es"
  proof (rule sorted_distinct_set_unique)
    show "set (filter (\<lambda>i. i \<noteq> n) (ids_between (sqlite_logs d' a c) n (-1))) = set (map fst ?es)"
      unfolding set_filter set_ids_between dom using old incr(3) by fastforce
  qed (use incr ids_between_sorted in \<open>auto simp: sorted_wrt_filter\<close>)
  have entry: "the (sqlite_logs d' a c i) = changes_serialize iter ch" if "(i, ch) \<in> set ?es" for i ch
  proof -
    have "map_of (rev (map ?ser ?es)) i = Some (changes_serialize iter ch)"
      using that incr(2) by (intro map_of_is_SomeI) (force simp: rev_map [symmetric] o_def split_beta)+
    then show ?thesis by (simp add: d'(3) map_add_def)
  qed
  then have vals: "map (\<lambda>i. the (sqlite_logs d' a c i)) (map fst ?es) = map (changes_serialize iter) (map snd ?es)"
    by auto
  obtain cs where cs: "fold_entries (map (changes_serialize iter) (map snd ?es)) [] = Some cs" "tracks S (items_after S (map snd ?es)) cs"
    using fold_entries_tracks [OF assms(1) tracks_start assms(6)] by blast
  obtain l where l: "store_changes sqlite_iterate a c (Since n) d' = Inr l" "ch_changes l = cs"
    using sqlite_changes.changes_since [OF d'(2) ids [symmetric] cs(1) [folded vals]] by blast
  have "Max (dom (sqlite_logs d' a c)) = last (n # map fst ?es)"
    unfolding dom by (rule Max_continued [OF assms(5) old])
  moreover have "dom (sqlite_logs d' a c) \<noteq> {}"
    using old(1) dom by blast
  ultimately have "get_last_change_id sqlite_iterate a c d' = Inr (Some (last (n # map fst ?es)))"
    by (simp add: sqlite_last.last_change_id [OF d'(2)])
  with d'(1) l tracks_items [OF cs(2)] show ?thesis by blast
qed

definition example_log :: db where
  "example_log = (\<lambda>_. [])(SUBSPACE_LOGS := [(log_id_key 1 0 5, CellBlob [1, 0, 0, 0, 3])])"

definition example_commits :: "(u32 \<times> change_log_builder) list" where
  "example_commits = [(1, log_insert 0 7 (change_log_with_id 8)), (2, log_insert 0 9 (change_log_with_id 9)),
     (1, log_delete 0 3 (change_log_with_id 10))]"

lemma example_entries: "entries_of 1 0 example_commits = [(8, changes_insert [7]), (10, changes_delete [3])]"
  by code_simp

theorem sqlite_client_up_to_date_witness:
  "\<exists>d' l. run_batches plain_env (map (commit_changes sorted_list_of_set) example_commits) example_log
      = (replicate (length example_commits) (Inr no_ids), d') \<and>
    store_changes sqlite_iterate 1 0 (Since 5) d' = Inr l \<and>
    items_after {3} (map snd (entries_of 1 0 example_commits))
      = ({3} - {i. Delete i \<in> set (ch_changes l)}) \<union> {i. Insert i \<in> set (ch_changes l)} \<and>
    get_last_change_id sqlite_iterate 1 0 d' = Inr (Some (last (5 # map fst (entries_of 1 0 example_commits))))"
proof (rule sqlite_client_up_to_date)
  show "logs_wf example_log"
    by (auto simp: logs_wf_def example_log_def)
  show "get_last_change_id sqlite_iterate 1 0 example_log = Inr (Some 5)"
    by code_simp
  show "\<forall>(account, b)\<in>set example_commits. vm_inv (cl_changes b)"
    by code_simp
qed (simp_all add: iterates_sorted_list_of_set example_entries changes_small_def changes_insert_def changes_delete_def changes_default_def)

section \<open>Writers that compete for a value\<close>

text \<open>A batch that replaces a value if it is still the one that was read.\<close>

definition compare_and_set :: "u32 \<Rightarrow> u8 \<Rightarrow> u32 \<Rightarrow> maybe_dynamic_id value_class \<Rightarrow> assert_value \<Rightarrow> bytes \<Rightarrow> batch" where
  "compare_and_set account collection document c a v =
     batch_set c (StaticValue v) (batch_assert_value c a (at_document account collection document))"

definition row_matches :: "write_env \<Rightarrow> assert_value \<Rightarrow> cell option \<Rightarrow> bool" where
  "row_matches env a row =
     (case row of None \<Rightarrow> assert_is_none a | Some (CellBlob b) \<Rightarrow> assert_matches (xxh3_64 env) a b | _ \<Rightarrow> False)"

definition set_row :: "u32 \<Rightarrow> u8 \<Rightarrow> u32 \<Rightarrow> maybe_dynamic_id value_class \<Rightarrow> bytes \<Rightarrow> db \<Rightarrow> db" where
  "set_row account collection document c v d =
     d(value_subspace c collection := AList.update (value_serialize (resolve_id None) 0 c account collection document) (CellBlob v)
         (d (value_subspace c collection)))"

lemma value_row_set_row: "value_row account collection document c (set_row account collection document c v d) = Some (CellBlob v)"
  by (simp add: value_row_def set_row_def update_conv')

lemma compare_and_set_written:
  assumes "document_class c" "value_row account collection document c d \<in> insert None (Some ` range CellBlob)"
  shows "sqlite_write env (compare_and_set account collection document c a v) d =
    (if row_matches env a (value_row account collection document c d)
     then (Inr no_ids, set_row account collection document c v d) else (Inl AssertValueFailed, d))"
proof -
  let ?s = "(write_start d)\<lparr>ws_account := account, ws_collection := collection, ws_document := document\<rparr>"
  have key: "ws_key ?s c = value_serialize (resolve_id None) 0 c account collection document"
    using document_class_resolve [OF assms(1), of "resolve_id (Some (ws_ids ?s))"] by (simp add: ws_key_def)
  have assert: "write_assert env c a ?s =
      (if row_matches env a (value_row account collection document c d) then Inr ?s else Inl AssertValueFailed)"
    using assms(2)
    by (auto simp: write_assert_def key document_class_table [OF assms(1)] row_matches_def value_row_def write_start_db cell_bytes_def)
  have set_v: "write_value env c (SetValue (StaticValue v)) ?s = Inr (?s\<lparr>ws_db := set_row account collection document c v d\<rparr>)"
    by (simp add: write_value_def key Let_def value_resolve_def insert_or_replace_def document_class_table [OF assms(1)]
        write_start_db set_row_def)
  show ?thesis
    by (simp add: compare_and_set_def batch_set_def batch_assert_value_def sqlite_write_def write_at_document assert set_v)
      (simp add: write_start_def no_ids_def)
qed

text \<open>C2: Of the writers that read the same version of a value, in whatever order their batches reach the
  store, the first wins and every other one fails without an effect, as long as no new value passes
  the assertion that the writers make of the old one.\<close>

theorem sqlite_first_writer_wins:
  assumes "document_class c" "row_matches env a (value_row account collection document c d)"
    and "\<forall>w\<in>set (v # vs). \<not> assert_matches (xxh3_64 env) a w"
  shows "\<exists>d'. run_batches env (map (compare_and_set account collection document c a) (v # vs)) d
      = (Inr no_ids # replicate (length vs) (Inl AssertValueFailed), d') \<and>
    value_row account collection document c d' = Some (CellBlob v)"
proof -
  let ?d = "set_row account collection document c v d"
  have first: "sqlite_write env (compare_and_set account collection document c a v) d = (Inr no_ids, ?d)"
    using compare_and_set_written [OF assms(1), of account collection document d env a v] assms(2)
    by (auto simp: row_matches_def split: option.splits cell.splits)
  have "\<not> row_matches env a (value_row account collection document c ?d)"
    using assms(3) by (simp add: value_row_set_row row_matches_def)
  then have "sqlite_write env (compare_and_set account collection document c a w) ?d = (Inl AssertValueFailed, ?d)" for w
    using compare_and_set_written [OF assms(1), of account collection document ?d env a w] by (simp add: value_row_set_row)
  then have "run_batches env (map (compare_and_set account collection document c a) vs) ?d = (replicate (length vs) (Inl AssertValueFailed), ?d)"
    by (induction vs) simp_all
  with first show ?thesis
    by (simp add: value_row_set_row)
qed

theorem sqlite_first_writer_wins_witness:
  "\<exists>d'. run_batches plain_env (map (compare_and_set 1 2 3 (Property 5) AssertNone) ([7] # [[8], [9]])) (\<lambda>_. [])
      = (Inr no_ids # replicate (length [[8], [9 :: u8]]) (Inl AssertValueFailed), d') \<and>
    value_row 1 2 3 (Property 5) d' = Some (CellBlob [7])"
  by (rule sqlite_first_writer_wins)
    (simp_all add: row_matches_def value_row_def assert_is_none_def assert_matches_def)

section \<open>New documents\<close>

text \<open>The documents of a collection, from the rows that mark them.\<close>

definition documents :: "u32 \<Rightarrow> u8 \<Rightarrow> db \<Rightarrow> u32 set" where
  "documents account collection d = {n. document_key account collection n \<in> fst ` set (d SUBSPACE_BITMAP_ID)}"

lemma document_key_bytes: "document_key account collection n = be32 account @ collection # be32 n"
  by (simp add: document_key_def bitmap_serialize_def with_subspace_def)

lemma document_ids_key: "bitmap_serialize r 0 DocumentIds account collection n = document_key account collection n"
  by (simp add: document_key_def bitmap_serialize_def)

lemma bitmap_id_table: "with_table SUBSPACE_BITMAP_ID r = Inr r"
  by (simp add: table_defs)

lemma update_keys_rows: "fst ` set (AList.update k v rs) = insert k (fst ` set rs)"
  by (induction rs) auto

lemma document_key_eq: "document_key a c n = document_key a' c' n' \<longleftrightarrow> a = a' \<and> c = c' \<and> n = n'"
  by (auto simp: document_key_bytes be_eq be_eq_end)

lemma be32_surj:
  assumes "length bs = 4"
  obtains v where "bs = be32 v"
proof -
  have "card (range be32) = 2 ^ 32"
    using card_image [of be32 UNIV] by (simp add: inj_on_def be_eq_end card_word)
  moreover have "card {bs :: bytes. length bs = 4} = 2 ^ 32"
    using card_lists_length_eq [of "UNIV :: u8 set" 4] by (simp add: card_word)
  moreover have "range be32 \<subseteq> {bs. length bs = 4}" by auto
  ultimately have "range be32 = {bs. length bs = 4}"
    using finite_lists_length_eq [of "UNIV :: u8 set" 4] by (intro card_subset_eq) simp_all
  with assms show ?thesis using that by blast
qed

lemma be32_range: "be32 0 \<le> be32 n" "be32 n \<le> be32 (- 1)"
  using be_less(2) [of n "[]" 0 "[]"] be_less(2) [of "- 1" "[]" n "[]"] by (simp_all add: not_less [symmetric])

lemma document_key_range:
  "length k = 9 \<and> document_key a c 0 \<le> k \<and> k \<le> document_key a c (- 1) \<longleftrightarrow> (\<exists>n. k = document_key a c n)"
proof
  assume k: "length k = 9 \<and> document_key a c 0 \<le> k \<and> k \<le> document_key a c (- 1)"
  have "k = take 4 k @ k ! 4 # drop 5 k"
    using k id_take_nth_drop [of 4 k] by simp
  moreover obtain a' where "take 4 k = be32 a'" using be32_surj [of "take 4 k"] k by auto
  moreover obtain n where "drop 5 k = be32 n" using be32_surj [of "drop 5 k"] k by auto
  ultimately have k': "k = be32 a' @ k ! 4 # be32 n" by simp
  then have "\<not> (a' < a \<or> a' = a \<and> (k ! 4 < c \<or> k ! 4 = c \<and> be32 n < be32 0))"
      "\<not> (a < a' \<or> a = a' \<and> (c < k ! 4 \<or> c = k ! 4 \<and> be32 (- 1) < be32 n))"
    using k by (metis be_less(2) document_key_bytes Cons_less_Cons not_less)+
  with k' show "\<exists>n. k = document_key a c n"
    by (auto simp: document_key_bytes)
next
  assume "\<exists>n. k = document_key a c n"
  then obtain n where "k = document_key a c n" ..
  then show "length k = 9 \<and> document_key a c 0 \<le> k \<and> k \<le> document_key a c (- 1)"
    using be32_range [of n] by (auto simp: document_key_bytes le_less be_less)
qed

lemma key_ids_found:
  "key_ids 9 ks = Inr (map (\<lambda>k. from_be_bytes (drop 5 k)) (filter (\<lambda>k. length k = 9) ks))"
  by (induction ks) (simp_all add: deserialize_be_u32_def slice_index_def U32_LEN_def)

lemma document_ids_found:
  "bitmap_ids 9 (select_range SUBSPACE_BITMAP_ID (document_key a c 0) (document_key a c (- 1)) d)
     = Inr (sorted_list_of_set (documents a c d))"
proof -
  have inv_image: "{k \<in> K. \<exists>n. k = f n} = f ` {n. f n \<in> K}" for K and f :: "u32 \<Rightarrow> bytes"
    by blast
  let ?ks = "filter (\<lambda>k. length k = 9) (map fst (select_range SUBSPACE_BITMAP_ID (document_key a c 0) (document_key a c (- 1)) d))"
  have "set ?ks = {k \<in> fst ` set (d SUBSPACE_BITMAP_ID). \<exists>n. k = document_key a c n}"
    unfolding document_key_range [symmetric] by (force simp: select_range_def)
  also have "\<dots> = document_key a c ` documents a c d"
    unfolding documents_def inv_image ..
  finally have "(\<lambda>k. from_be_bytes (drop 5 k)) ` set ?ks = documents a c d"
    by (simp add: image_image document_key_bytes from_be_bytes_be)
  then have "set (map (\<lambda>k. from_be_bytes (drop 5 k)) ?ks) = documents a c d"
    by (simp only: set_map)
  then show ?thesis
    by (simp add: bitmap_ids_def key_ids_found sorted_list_of_set_sort_remdups [symmetric])
qed

lemma unat_max_u32: "unat (- 1 :: u32) = 4294967295"
  by (simp add: unsigned_minus_1_eq_mask mask_eq_exp_minus_1)

lemma available_gaps_free:
  assumes "available_gaps ids last_id = (gaps, l)" "sorted_wrt (<) ids" "\<forall>i\<in>set ids. last_id \<le> i \<and> i \<noteq> - 1"
  shows "(\<forall>x\<in>set gaps. x \<notin> set ids \<and> last_id \<le> x) \<and> l = (if ids = [] then last_id else last ids + 1)"
  using assms
proof (induction ids arbitrary: last_id gaps)
  case (Cons n ids)
  obtain gaps' where g: "available_gaps ids (n + 1) = (gaps', l)" "gaps = map of_nat [unat last_id..<unat n] @ gaps'"
    using Cons.prems(1) by (auto split: prod.splits)
  have next_id: "n + 1 \<le> i" if "n < i" for i :: u32
    using that by (rule inc_le)
  have "n < - 1"
    using Cons.prems(3) word_n1_ge [of n] by (simp add: le_less)
  then have up: "n < n + 1"
    by (simp only: word_less_nat_alt unat_max_u32 unat_word_ariths) simp
  have "sorted_wrt (<) ids" "\<forall>i\<in>set ids. n + 1 \<le> i \<and> i \<noteq> - 1"
    using Cons.prems(2,3) next_id by simp_all
  note IH = Cons.IH [OF g(1) this]
  have gap: "x < n \<and> last_id \<le> x" if x: "x \<in> set (map of_nat [unat last_id..<unat n])" for x
  proof -
    obtain i where i: "x = of_nat i" "unat last_id \<le> i" "i < unat n"
      using x by auto
    then have "unat x = i"
      using unsigned_less [of n, where ?'a = nat] by (simp add: unat_of_nat_less)
    with i show ?thesis by (simp add: word_less_nat_alt word_le_nat_alt)
  qed
  show ?case
  proof
    show "\<forall>x\<in>set gaps. x \<notin> set (n # ids) \<and> last_id \<le> x"
    proof
      fix x assume "x \<in> set gaps"
      then consider "x \<in> set (map of_nat [unat last_id..<unat n])" | "x \<in> set gaps'"
        unfolding g(2) by auto
      then show "x \<notin> set (n # ids) \<and> last_id \<le> x"
      proof cases
        case 1
        then show ?thesis using gap [OF 1] Cons.prems(2) by auto
      next
        case 2
        then have "x \<notin> set ids" "n < x" using IH up by auto
        then show ?thesis using Cons.prems(3) by auto
      qed
    qed
    show "l = (if n # ids = [] then last_id else last (n # ids) + 1)"
      using IH by simp
  qed
qed simp

lemma available_ids_free:
  assumes "sorted_wrt (<) ids" "\<forall>i\<in>set ids. unat i + 101 \<le> 2 ^ 32" "x \<in> set (available_ids ids)"
  shows "x \<notin> set ids"
proof -
  obtain gaps l where g: "available_gaps ids 0 = (gaps, l)" by fastforce
  have top: "i \<noteq> - 1" if "i \<in> set ids" for i
    using assms(2) that by (auto simp: unat_max_u32)
  have free: "(\<forall>x\<in>set gaps. x \<notin> set ids) \<and> l = (if ids = [] then 0 else last ids + 1)"
    using available_gaps_free [OF g assms(1)] top by simp
  have "available_ids ids = gaps @ map (\<lambda>i. l + of_nat i) [0..<100 - length gaps]"
    by (simp add: available_ids_def g)
  then have "x \<in> set gaps \<or> (\<exists>i\<in>{0..<100 - length gaps}. x = l + of_nat i)"
    using assms(3) by (simp only: set_append set_map set_upt Un_iff image_iff)
  then consider "x \<in> set gaps" | i where "i \<in> {0..<100 - length gaps}" "x = l + of_nat i"
    by blast
  then show ?thesis
  proof cases
    case 1
    then show ?thesis using free by blast
  next
    case (2 i)
    have "y < x" if y: "y \<in> set ids" for y
    proof -
      have "ids \<noteq> []" using y by auto
      then have last: "unat (last ids) + 101 \<le> 2 ^ 32" "y \<le> last ids"
        using y assms(1,2) sorted_last_Max [of ids] Max_ge [of "set ids" y] last_in_set [of ids]
        by (auto simp: strict_sorted_iff)
      have "x = last ids + of_nat (i + 1)" using y free 2 by auto
      moreover have "unat (last ids + of_nat (i + 1)) = unat (last ids) + (i + 1)"
        using last(1) 2 by (simp only: unat_word_ariths unat_of_nat) simp
      ultimately show ?thesis using last(2) by (simp add: word_less_nat_alt word_le_nat_alt)
    qed
    then show ?thesis by blast
  qed
qed

lemma random_available_id_free:
  assumes "sorted_wrt (<) ids" "\<forall>i\<in>set ids. unat i + 101 \<le> 2 ^ 32" "\<forall>n>0. pick n < n"
  shows "random_available_id pick ids \<notin> set ids"
proof -
  have "available_ids ids \<noteq> []"
    by (auto simp: available_ids_def split: prod.split)
  then have "random_available_id pick ids \<in> set (available_ids ids)"
    using assms(3) by (simp add: random_available_id_def Let_def)
  with available_ids_free [OF assms(1,2)] show ?thesis by blast
qed

text \<open>C3: A new document gets an identifier that no document of its collection has, for whatever the random
  generator picks, and it is then the only document that was added: the set of documents that the
  store returns grows by it, and no other collection or account changes.\<close>

theorem sqlite_new_document:
  assumes "\<forall>n>0. gen_range env n < n" "\<forall>n\<in>documents a c d. unat n + 101 \<le> 2 ^ 32"
  shows "\<exists>n d'. sqlite_write env (create_document (with_collection c (with_account_id a []))) d
      = (Inr \<lparr>document_ids = [n], counter_ids = []\<rparr>, d') \<and>
    n \<notin> documents a c d \<and>
    sqlite_get_bitmap DocumentIds a c 0 d' = Inr (Some (sorted_list_of_set (insert n (documents a c d)))) \<and>
    (\<forall>a' c'. (a', c') = (a, c) \<or> documents a' c' d' = documents a' c' d)"
proof -
  define n where "n = random_available_id (gen_range env) (sorted_list_of_set (documents a c d))"
  have new: "n \<notin> documents a c d"
    using random_available_id_free [of "sorted_list_of_set (documents a c d)" "gen_range env"] assms
    by (simp add: n_def strict_sorted_iff)
  define d' where "d' = d(SUBSPACE_BITMAP_ID := AList.update (document_key a c n) CellKey (d SUBSPACE_BITMAP_ID))"
  have docs: "documents a' c' d' = (if (a', c') = (a, c) then insert n (documents a c d) else documents a' c' d)" for a' c'
    by (auto simp: documents_def d'_def update_keys_rows document_key_eq)
  let ?s = "(write_start d)\<lparr>ws_account := a, ws_collection := c, ws_document := - 1\<rparr>"
  have "assign_document env ?s = Inr (?s\<lparr>ws_document := n, ws_ids := \<lparr>document_ids = [n], counter_ids = []\<rparr>\<rparr>)"
    using document_ids_found [of a c d]
    by (simp add: assign_document_def write_start_def push_document_id_def n_def document_key_bytes Let_def)
  moreover have "map_of (d SUBSPACE_BITMAP_ID) (document_key a c n) = None"
    using new by (auto simp: documents_def map_of_eq_None_iff)
  ultimately have "write_bitmap env DocumentIds True ?s =
      Inr (?s\<lparr>ws_document := n, ws_ids := \<lparr>document_ids = [n], counter_ids = []\<rparr>, ws_db := d'\<rparr>)"
    by (simp add: write_bitmap_def document_ids_key insert_key_def write_start_db bitmap_id_table d'_def Let_def)
  then have "sqlite_write env (create_document (with_collection c (with_account_id a []))) d
      = (Inr \<lparr>document_ids = [n], counter_ids = []\<rparr>, d')"
    by (simp add: create_document_def with_collection_def with_account_id_def sqlite_write_def)
  moreover have "sqlite_get_bitmap DocumentIds a c 0 d' = Inr (Some (sorted_list_of_set (insert n (documents a c d))))"
    using document_ids_found [of a c d'] docs [of a c]
    by (simp add: sqlite_get_bitmap_def document_key_def [symmetric] bitmap_subspace_def document_key_bytes [of a c] Let_def)
  ultimately show ?thesis
    using new docs by auto
qed

definition one_document :: db where
  "one_document = (\<lambda>_. [])(SUBSPACE_BITMAP_ID := [(document_key 1 0 0, CellKey)])"

theorem sqlite_new_document_witness:
  "\<exists>n d'. sqlite_write plain_env (create_document (with_collection 0 (with_account_id 1 []))) one_document
      = (Inr \<lparr>document_ids = [n], counter_ids = []\<rparr>, d') \<and>
    n \<notin> documents 1 0 one_document \<and>
    sqlite_get_bitmap DocumentIds 1 0 0 d' = Inr (Some (sorted_list_of_set (insert n (documents 1 0 one_document)))) \<and>
    (\<forall>a' c'. (a', c') = (1, 0) \<or> documents a' c' d' = documents a' c' one_document)"
  by (rule sqlite_new_document) (auto simp: plain_env_def one_document_def documents_def document_key_eq)

end
