(* ===== verification/JmapDate.thy ===== *)
theory JmapDate
  imports JmapState "HOL-Library.Signed_Division"
begin

text \<open>
  Dates of JMAP (crates/jmap-proto/src/types/date.rs): the JSON parser of a date, its printed form,
  and the conversions from and to seconds since 1970. The 64-bit intermediate values stay far inside
  their range and are integers here; Rust's division truncates (\<open>sdiv\<close>, \<open>smod\<close>).
\<close>

section \<open>Data\<close>

record utc_date =
  year :: u16
  month :: u8
  day :: u8
  hour :: u8
  minute :: u8
  second :: u8
  tz_before_gmt :: bool
  tz_hour :: u8
  tz_minute :: u8

section \<open>Parsing\<close>

record date_state =
  d_pos :: nat
  d_parts :: "u32 list"
  d_sizes :: "u32 list"
  d_skip_digits :: bool
  d_is_plus :: bool

definition date_start :: date_state where
  "date_start = \<lparr> d_pos = 0, d_parts = replicate 8 0, d_sizes = [4, 2, 2, 2, 2, 2, 2, 2],
     d_skip_digits = False, d_is_plus = True \<rparr>"

text \<open>One character: \<open>Inr\<close> leaves the loop.\<close>

definition date_body :: "u8 \<Rightarrow> date_state \<Rightarrow> date_state + date_state" where
  "date_body ch s =
     (let pos = d_pos s; next_part = s\<lparr>d_pos := pos + 1\<rparr> in
      if 0x30 \<le> ch \<and> ch \<le> 0x39 then
        (if d_skip_digits s then Inl s
         else if d_sizes s ! pos > 0 then
           (let n = d_sizes s ! pos - 1 in
            Inl (s\<lparr>d_sizes := (d_sizes s)[pos := n],
                   d_parts := (d_parts s)[pos := d_parts s ! pos + ucast (ch - 0x30) * 10 ^ unat n]\<rparr>))
         else Inr s)
      else if ch = 0x2d then
        (if pos \<le> 1 then Inl next_part
         else if pos = 5 then Inl (next_part\<lparr>d_is_plus := False, d_skip_digits := False\<rparr>)
         else Inr s)
      else if ch = 0x54 then (if pos = 2 then Inl next_part else Inr s)
      else if ch = 0x3a then (if pos \<in> {3, 4, 6} then Inl next_part else Inr s)
      else if ch = 0x2b then (if pos = 5 then Inl (next_part\<lparr>d_skip_digits := False\<rparr>) else Inr s)
      else if ch = 0x2e then (if pos = 5 then Inl (s\<lparr>d_skip_digits := True\<rparr>) else Inr s)
      else if ch = 0x5a \<or> ch = 0x7a then Inl s
      else Inr s)"

definition date_done :: "date_state \<Rightarrow> utc_date" where
  "date_done s =
     (let parts = d_parts s in
      \<lparr> year = ucast (parts ! 0), month = ucast (parts ! 1), day = ucast (parts ! 2),
        hour = ucast (parts ! 3), minute = ucast (parts ! 4), second = ucast (parts ! 5),
        tz_before_gmt = \<not> d_is_plus s, tz_hour = ucast (parts ! 6), tz_minute = ucast (parts ! 7) \<rparr>)"

definition date_parse :: "parser \<Rightarrow> utc_date presult" where
  "date_parse p =
     pbind (while_unescaped date_body date_start p) (\<lambda>r p.
       let s = (case r of Inl s \<Rightarrow> s | Inr s \<Rightarrow> s) in
       if d_pos s \<ge> 5 then (Inr (date_done s), p) else fail_value p)"

section \<open>Printing\<close>

text \<open>\<^verbatim>\<open>{:0w}\<close>: the decimal digits of a number, with zeros before them up to the width.\<close>

definition fmt_pad :: "nat \<Rightarrow> 'a::len word \<Rightarrow> bytes" where
  "fmt_pad w n = (let ds = fmt_digits (unat n) in replicate (w - length ds) 0x30 @ ds)"

definition date_display :: "utc_date \<Rightarrow> bytes" where
  "date_display d =
     fmt_pad 4 (year d) @ lit ''-'' @ fmt_pad 2 (month d) @ lit ''-'' @ fmt_pad 2 (day d) @ lit ''T'' @
     fmt_pad 2 (hour d) @ lit '':'' @ fmt_pad 2 (minute d) @ lit '':'' @ fmt_pad 2 (second d) @
     (if tz_hour d \<noteq> 0 \<or> tz_minute d \<noteq> 0 then
        (if tz_before_gmt d \<and> (tz_hour d > 0 \<or> tz_minute d > 0) then lit ''-'' else lit ''+'') @
        fmt_pad 2 (tz_hour d) @ lit '':'' @ fmt_pad 2 (tz_minute d)
      else lit ''Z'')"

section \<open>Seconds since 1970\<close>

definition from_timestamp :: "int \<Rightarrow> utc_date" where
  "from_timestamp t =
     (let z = t sdiv 86400 + 719468; seconds = t smod 86400;
          era = (if z \<ge> 0 then z else z - 146096) sdiv 146097;
          doe = z - era * 146097;
          yoe = (doe - doe div 1460 + doe div 36524 - doe div 146096) div 365;
          y = yoe + era * 400;
          doy = doe - (365 * yoe + yoe div 4 - yoe div 100);
          mp = (5 * doy + 2) div 153;
          d = doy - (153 * mp + 2) div 5 + 1;
          m = (if mp < 10 then mp + 3 else mp - 9);
          h = seconds sdiv 3600; mn = (seconds sdiv 60) smod 60; s = seconds smod 60
      in \<lparr> year = word_of_int (y + of_bool (m \<le> 2)), month = word_of_int m, day = word_of_int d,
           hour = word_of_int h, minute = word_of_int mn, second = word_of_int s,
           tz_before_gmt = False, tz_hour = 0, tz_minute = 0 \<rparr>)"

definition date_is_valid :: "utc_date \<Rightarrow> bool" where
  "date_is_valid d \<longleftrightarrow> tz_hour d \<le> 23 \<and> 1970 \<le> year d \<and> year d \<le> 3000 \<and> tz_minute d \<le> 59 \<and>
     1 \<le> month d \<and> month d \<le> 12 \<and> 1 \<le> day d \<and> day d \<le> 31 \<and> hour d \<le> 23 \<and> minute d \<le> 59 \<and> second d \<le> 59"

definition date_timestamp :: "utc_date \<Rightarrow> int" where
  "date_timestamp d =
     (let mon = ucast (month d) :: u32;
          year_base = 4800;
          m_adj = mon - 3;
          carry = of_bool (m_adj > mon);
          adjust = (if carry > (0::int) then 12 else 0);
          y_adj = uint (year d) + year_base - carry;
          month_days = ((m_adj + adjust) * 62719 + 769) div 2048;
          leap_days = y_adj div 4 - y_adj div 100 + y_adj div 400
      in (y_adj * 365 + leap_days + uint month_days + (uint (day d) - 1) - 2472632) * 86400
         + uint (hour d) * 3600 + uint (minute d) * 60 + uint (second d)
         + (uint (tz_hour d) * 3600 + uint (tz_minute d) * 60) * (if tz_before_gmt d then 1 else - 1))"

text \<open>\<^verbatim>\<open>impl From<UTCDate> for u64\<close>\<close>

definition date_to_u64 :: "utc_date \<Rightarrow> u64" where
  "date_to_u64 d = word_of_int (date_timestamp d)"

section \<open>The day of the 400-year cycle\<close>

definition yoe_of :: "int \<Rightarrow> int" where
  "yoe_of doe = (doe - doe div 1460 + doe div 36524 - doe div 146096) div 365"

definition year_start :: "int \<Rightarrow> int" where
  "year_start y = 365 * y + y div 4 - y div 100"

lemma div_succ: "0 < k \<Longrightarrow> (x + 1) div k = x div k + of_bool (k dvd x + 1)" for x k :: int
proof -
  assume k: "0 < k"
  have x: "x = k * (x div k) + x mod k" "0 \<le> x mod k" "x mod k < k"
    using k by simp_all
  show ?thesis
  proof (cases "x mod k = k - 1")
    case True
    then have "x + 1 = k * (x div k) + k" using x(1) by linarith
    then have "x + 1 = k * (x div k + 1)" by (simp only: distrib_left mult_1_right)
    then show ?thesis using k by (metis dvd_triv_left nonzero_mult_div_cancel_left of_bool_eq(2) less_irrefl)
  next
    case False
    then have *: "(x + 1) div k = x div k" "(x + 1) mod k = x mod k + 1"
      using x int_div_pos_eq [of "x + 1" k "x div k" "x mod k + 1"] int_mod_pos_eq [of "x + 1" k "x div k" "x mod k + 1"]
      by simp_all
    then have "\<not> k dvd x + 1" using x(2) by (auto simp: dvd_eq_mod_eq_0)
    with * show ?thesis by simp
  qed
qed

lemma yoe_of_mono_step: "yoe_of doe \<le> yoe_of (doe + 1)"
proof -
  have "of_bool (146096 dvd doe + 1) \<le> (of_bool (36524 dvd doe + 1) :: int)"
    using dvd_trans [of 36524 146096 "doe + 1"] by (simp add: of_bool_def)
  then have "doe - doe div 1460 + doe div 36524 - doe div 146096
      \<le> (doe + 1) - (doe + 1) div 1460 + (doe + 1) div 36524 - (doe + 1) div 146096"
    by (simp only: div_succ) (simp add: of_bool_def split: if_splits)
  then show ?thesis
    unfolding yoe_of_def by (rule zdiv_mono1) simp
qed

lemma yoe_of_mono: "a \<le> b \<Longrightarrow> yoe_of a \<le> yoe_of b"
  by (induction b rule: int_ge_induct) (use yoe_of_mono_step order_trans in blast)+

lemma yoe_of_boundaries:
  "\<forall>y\<in>set [0..399]. yoe_of (year_start y) = y \<and> yoe_of (year_start (y + 1) - 1) = y"
  by code_simp

lemma year_start_between:
  "0 \<le> doe \<Longrightarrow> doe < year_start (int n) \<Longrightarrow> \<exists>y. 0 \<le> y \<and> y < int n \<and> year_start y \<le> doe \<and> doe < year_start (y + 1)"
proof (induction n)
  case 0
  then show ?case by (simp add: year_start_def)
next
  case (Suc n)
  then show ?case
    by (cases "doe < year_start (int n)") (fastforce, auto intro!: exI [of _ "int n"] simp: add.commute)
qed

text \<open>The year of the cycle that the code computes is the one that contains the day.\<close>

lemma yoe_of_bounds:
  assumes "0 \<le> doe" "doe < 146097"
  shows "0 \<le> yoe_of doe" "yoe_of doe \<le> 399" "year_start (yoe_of doe) \<le> doe"
    "doe < year_start (yoe_of doe + 1) \<or> doe = 146096 \<and> yoe_of doe = 399"
proof -
  have "0 \<le> yoe_of doe \<and> yoe_of doe \<le> 399 \<and> year_start (yoe_of doe) \<le> doe \<and>
      (doe < year_start (yoe_of doe + 1) \<or> doe = 146096 \<and> yoe_of doe = 399)"
  proof (cases "doe = 146096")
    case True
    then have "yoe_of doe = 399" by (simp add: yoe_of_def)
    then show ?thesis using True by (simp add: year_start_def)
  next
    case False
    then have "doe < year_start (int 400)" using assms by (simp add: year_start_def)
    then obtain y where y: "0 \<le> y" "y \<le> 399" "year_start y \<le> doe" "doe < year_start (y + 1)"
      using year_start_between [OF assms(1), of 400] by auto
    then have "yoe_of (year_start y) = y" "yoe_of (year_start (y + 1) - 1) = y"
      using yoe_of_boundaries by auto
    then have "yoe_of doe = y"
      using yoe_of_mono [OF y(3)] yoe_of_mono [of doe "year_start (y + 1) - 1"] y(4) by linarith
    with y show ?thesis by simp
  qed
  then show "0 \<le> yoe_of doe" "yoe_of doe \<le> 399" "year_start (yoe_of doe) \<le> doe"
    "doe < year_start (yoe_of doe + 1) \<or> doe = 146096 \<and> yoe_of doe = 399"
    by blast+
qed

section \<open>Days since the start of the calendar\<close>

text \<open>The days before March 1 of year \<open>e\<close> of the proleptic calendar that starts in 4800 BC.\<close>

definition days_before :: "int \<Rightarrow> int" where
  "days_before e = 365 * e + e div 4 - e div 100 + e div 400"

lemma days_before_cycle: "0 \<le> yoe \<Longrightarrow> yoe \<le> 399 \<Longrightarrow> days_before (yoe + 400 * k) = year_start yoe + 146097 * k"
proof -
  have "(yoe + 400 * k) div 4 = yoe div 4 + 100 * k" "(yoe + 400 * k) div 100 = yoe div 100 + 4 * k"
    using div_mult_self1 [of 4 yoe "100 * k"] div_mult_self1 [of 100 yoe "4 * k"] by (simp_all add: mult.commute mult.left_commute)
  then show "0 \<le> yoe \<Longrightarrow> yoe \<le> 399 \<Longrightarrow> days_before (yoe + 400 * k) = year_start yoe + 146097 * k"
    by (simp add: days_before_def year_start_def)
qed

lemma days_before_step: "days_before e + 365 \<le> days_before (e + 1)" "days_before (e + 1) \<le> days_before e + 366"
proof -
  have "100 dvd e + 1 \<Longrightarrow> 4 dvd e + 1" "400 dvd e + 1 \<Longrightarrow> 100 dvd e + 1"
    using dvd_trans [of 4 100 "e + 1"] dvd_trans [of 100 400 "e + 1"] by simp_all
  then show "days_before e + 365 \<le> days_before (e + 1)" "days_before (e + 1) \<le> days_before e + 366"
    by (simp_all add: days_before_def div_succ of_bool_def)
qed

lemma days_before_mono: "a \<le> b \<Longrightarrow> days_before a \<le> days_before b"
proof (induction b rule: int_ge_induct)
  case (step i)
  then show ?case using days_before_step [of i] by linarith
qed simp

text \<open>With years that begin in January, 306 days after March 1, a year has begun when its first day has come.\<close>

lemma year_begun:
  assumes "days_before e \<le> n" "n < days_before (e + 1)"
  shows "Y \<le> e - 4800 + of_bool (306 \<le> n - days_before e) \<longleftrightarrow> days_before (Y + 4799) + 306 \<le> n"
proof -
  consider "Y + 4800 \<le> e" | "e = Y + 4799" | "e + 1 \<le> Y + 4799" by linarith
  then show ?thesis
  proof cases
    case 1
    then have "days_before (Y + 4799) + 306 \<le> n"
      using days_before_step [of "Y + 4799"] days_before_mono [OF 1] assms(1) by (simp add: add.commute)
    with 1 show ?thesis by (simp add: of_bool_def)
  next
    case 3
    then have "n < days_before (Y + 4799)"
      using days_before_mono [OF 3] assms(2) by simp
    with 3 show ?thesis by (simp add: of_bool_def)
  qed (auto simp: of_bool_def)
qed

section \<open>From seconds to dates and back\<close>

text \<open>The month that begins \<open>mp\<close> months after March.\<close>

definition month_of :: "int \<Rightarrow> int" where
  "month_of mp = (if mp < 10 then mp + 3 else mp - 9)"

lemma month_adjusted:
  assumes "0 \<le> mp" "mp \<le> 11"
  shows "let mon = ucast (word_of_int (month_of mp) :: u8) :: u32 in
     of_bool (mon - 3 > mon) = (of_bool (month_of mp \<le> 2) :: int) \<and> (of_bool (month_of mp \<le> 2) :: int) = of_bool (10 \<le> mp) \<and>
     uint (((mon - 3 + (if (of_bool (mon - 3 > mon) :: int) > 0 then 12 else 0)) * 62719 + 769) div 2048) = (153 * mp + 2) div 5"
proof -
  have "mp \<in> {0, 1, 2, 3, 4, 5, 6, 7, 8, 9, 10, 11}" using assms by (simp, presburger)
  moreover have "(1::u32) < - 2" "(2::u32) < - 1" by code_simp+
  ultimately show ?thesis
    by (auto simp: month_of_def Let_def)
qed

lemma uint_small: "0 \<le> n \<Longrightarrow> n < 2 ^ LENGTH('a) \<Longrightarrow> uint (word_of_int n :: 'a::len word) = n"
  by (simp add: uint_word_of_int take_bit_int_eq_self)

lemma date_timestamp_fields:
  assumes "0 \<le> mp" "mp \<le> 11" "e + of_bool (10 \<le> mp) = y + 4800" "0 \<le> y" "y < 65536" "1 \<le> d" "d \<le> 31"
    and "0 \<le> h" "h < 24" "0 \<le> mn" "mn < 60" "0 \<le> s" "s < 60"
  shows "date_timestamp \<lparr>year = word_of_int y, month = word_of_int (month_of mp), day = word_of_int d,
      hour = word_of_int h, minute = word_of_int mn, second = word_of_int s,
      tz_before_gmt = False, tz_hour = 0, tz_minute = 0\<rparr>
    = (days_before e + (153 * mp + 2) div 5 + (d - 1) - 2472632) * 86400 + h * 3600 + mn * 60 + s"
proof -
  note adj = month_adjusted [OF assms(1,2), unfolded Let_def]
  show ?thesis
  proof (cases "10 \<le> mp")
    case True
    then have "e = 4799 + y" using assms(3) by simp
    then show ?thesis
      using adj assms(4-) True by (simp add: date_timestamp_def Let_def uint_small days_before_def)
  next
    case False
    then have "e = y + 4800" using assms(3) by simp
    then show ?thesis
      using adj assms(4-) False by (simp add: date_timestamp_def Let_def uint_small days_before_def)
  qed
qed

lemma div_bounds: "0 < k \<Longrightarrow> k * (x div k) \<le> x" "0 < k \<Longrightarrow> x < k * (x div k) + k" for x k :: int
  using mult_div_mod_eq [of k x] pos_mod_sign [of k x] pos_mod_bound [of k x] by linarith+

lemma sdiv_nonneg: "0 \<le> a \<Longrightarrow> 0 < b \<Longrightarrow> a sdiv b = a div b" "0 \<le> a \<Longrightarrow> 0 < b \<Longrightarrow> a smod b = a mod b" for a b :: int
  by (auto simp: signed_divide_int_def signed_modulo_int_def sgn_if minus_mult_div_eq_mod mult.commute)

lemma cycle_day:
  assumes "0 \<le> doe" "doe < 146097"
  defines "yoe \<equiv> yoe_of doe" and "doy \<equiv> doe - year_start (yoe_of doe)"
  shows "days_before (yoe + 400 * k) + doy = doe + 146097 * k" "doe + 146097 * k < days_before (yoe + 400 * k + 1)"
    "0 \<le> doy" "doy \<le> 365"
proof -
  note b = yoe_of_bounds [OF assms(1,2), folded yoe_def]
  have e: "days_before (yoe + 400 * k) = year_start yoe + 146097 * k"
    by (rule days_before_cycle [OF b(1,2)])
  then show n: "days_before (yoe + 400 * k) + doy = doe + 146097 * k"
    by (simp add: doy_def yoe_def)
  show lt: "doe + 146097 * k < days_before (yoe + 400 * k + 1)"
  proof (cases "yoe = 399")
    case True
    then have "days_before (yoe + 400 * k + 1) = 146097 * (k + 1)"
      using days_before_cycle [of 0 "k + 1"] by (simp add: year_start_def algebra_simps)
    then show ?thesis using assms(2) by simp
  next
    case False
    then have "days_before (yoe + 400 * k + 1) = year_start (yoe + 1) + 146097 * k"
      using days_before_cycle [of "yoe + 1" k] b by (simp add: algebra_simps)
    then show ?thesis using b(4) False by simp
  qed
  show "0 \<le> doy" using b(3) by (simp add: doy_def yoe_def)
  show "doy \<le> 365" using n lt days_before_step(2) [of "yoe + 400 * k"] by linarith
qed

lemma month_parts:
  fixes doy :: int
  assumes "0 \<le> doy" "doy \<le> 365"
  defines "mp \<equiv> (5 * doy + 2) div 153"
  shows "0 \<le> mp" "mp \<le> 11" "10 \<le> mp \<longleftrightarrow> 306 \<le> doy"
    "1 \<le> doy - (153 * mp + 2) div 5 + 1" "doy - (153 * mp + 2) div 5 + 1 \<le> 31"
  using assms(1,2) div_bounds [of 153 "5 * doy + 2"] div_bounds [of 5 "153 * mp + 2"] unfolding mp_def
  by linarith+

text \<open>The parts of a time that is not before 1970, as the code computes them.\<close>

lemma from_timestamp_parts:
  assumes "0 \<le> t"
  defines "n \<equiv> t div 86400 + 2472632"
  obtains e mp d where "from_timestamp t =
      \<lparr>year = word_of_int (e - 4800 + of_bool (306 \<le> n - days_before e)), month = word_of_int (month_of mp), day = word_of_int d,
       hour = word_of_int (t mod 86400 div 3600), minute = word_of_int (t mod 86400 div 60 mod 60),
       second = word_of_int (t mod 86400 mod 60), tz_before_gmt = False, tz_hour = 0, tz_minute = 0\<rparr>"
    "0 \<le> mp" "mp \<le> 11" "1 \<le> d" "d \<le> 31" "10 \<le> mp \<longleftrightarrow> 306 \<le> n - days_before e"
    "n = days_before e + (153 * mp + 2) div 5 + (d - 1)"
    "days_before e \<le> n" "n < days_before (e + 1)"
proof -
  let ?z = "t div 86400 + 719468"
  define era doe where "era = ?z div 146097" and "doe = ?z mod 146097"
  define yoe doy where "yoe = yoe_of doe" and "doy = doe - year_start yoe"
  define mp where "mp = (5 * doy + 2) div 153"
  define d where "d = doy - (153 * mp + 2) div 5 + 1"
  define e where "e = yoe + 400 * (era + 12)"
  have z: "0 \<le> ?z" "?z = era * 146097 + doe" "0 \<le> doe" "doe < 146097"
    using assms(1) by (simp_all add: era_def doe_def pos_imp_zdiv_nonneg_iff)
  note c = cycle_day(1,2) [OF z(3,4), of "era + 12", folded yoe_def, folded doy_def e_def]
  note doy = cycle_day(3,4) [OF z(3,4), folded yoe_def, folded doy_def]
  note m = month_parts [OF doy, folded mp_def, folded d_def]
  have n: "n = days_before e + doy"
    using z(2) c(1) by (simp add: n_def)
  then have n': "n - days_before e = doy" by simp
  have "from_timestamp t =
      \<lparr>year = word_of_int (e - 4800 + of_bool (306 \<le> n - days_before e)), month = word_of_int (month_of mp), day = word_of_int d,
       hour = word_of_int (t mod 86400 div 3600), minute = word_of_int (t mod 86400 div 60 mod 60),
       second = word_of_int (t mod 86400 mod 60), tz_before_gmt = False, tz_hour = 0, tz_minute = 0\<rparr>"
  proof -
    have mon: "month_of mp \<le> 2 \<longleftrightarrow> 306 \<le> n - days_before e" and y: "yoe + era * 400 = e - 4800"
      using m n by (auto simp: month_of_def e_def)
    have sec: "t sdiv 86400 = t div 86400" "t smod 86400 = t mod 86400"
        "(t mod 86400) sdiv 3600 = t mod 86400 div 3600" "(t mod 86400) sdiv 60 = t mod 86400 div 60"
        "(t mod 86400 div 60) smod 60 = t mod 86400 div 60 mod 60" "(t mod 86400) smod 60 = t mod 86400 mod 60"
      using assms(1) by (simp_all add: sdiv_nonneg pos_imp_zdiv_nonneg_iff)
    have day: "?z sdiv 146097 = era" using sdiv_nonneg(1) [OF z(1), of 146097] by (simp only: era_def)
    have doe: "?z - era * 146097 = doe" using z(2) by linarith
    have cycle: "doe - (365 * yoe + yoe div 4 - yoe div 100) = doy" by (simp only: doy_def year_start_def)
    show ?thesis
      by (simp only: from_timestamp_def Let_def sec if_P [OF z(1)] day doe cycle yoe_of_def [of doe, symmetric]
          yoe_def [symmetric] mp_def [symmetric] d_def [symmetric] month_of_def [of mp, symmetric] mon y)
  qed
  then show thesis
  proof (rule that)
    show "10 \<le> mp \<longleftrightarrow> 306 \<le> n - days_before e" using m(3) n' by simp
    show "n = days_before e + (153 * mp + 2) div 5 + (d - 1)" using n by (simp add: d_def)
    show "days_before e \<le> n" "n < days_before (e + 1)" using n doy(1) c by simp_all
  qed (fact m)+
qed

lemma time_of_day:
  "0 \<le> t mod 86400 div 3600" "t mod 86400 div 3600 < 24" "0 \<le> t mod 86400 div 60 mod 60"
  "t mod 86400 div 60 mod 60 < 60" "0 \<le> t mod 86400 mod 60" "t mod 86400 mod 60 < 60"
  "t mod 86400 div 3600 * 3600 + t mod 86400 div 60 mod 60 * 60 + t mod 86400 mod 60 = t mod 86400" for t :: int
proof -
  define a where "a = t mod 86400"
  have a: "0 \<le> a" "a < 86400" by (simp_all add: a_def)
  have "a div 3600 = a div 60 div 60"
    using zdiv_zmult2_eq [of 60 a 60] by simp
  moreover have "h = q \<Longrightarrow> a = m * 60 + s \<Longrightarrow> m = q * 60 + n \<Longrightarrow> h * 3600 + n * 60 + s = a" for h q m n s
    by simp
  ultimately have "a div 3600 * 3600 + a div 60 mod 60 * 60 + a mod 60 = a"
    using div_mod_decomp_int [of a 60] div_mod_decomp_int [of "a div 60" 60] by blast
  then show "t mod 86400 div 3600 * 3600 + t mod 86400 div 60 mod 60 * 60 + t mod 86400 mod 60 = t mod 86400"
    by (simp only: a_def)
  have "0 \<le> a div 3600" "a div 3600 < 24"
    using a div_bounds [of 3600 a] by (simp_all add: pos_imp_zdiv_nonneg_iff)
  then show "0 \<le> t mod 86400 div 3600" "t mod 86400 div 3600 < 24"
    by (simp_all only: a_def)
qed simp_all

lemma month_of_range: "0 \<le> mp \<Longrightarrow> mp \<le> 11 \<Longrightarrow> 1 \<le> month_of mp" "0 \<le> mp \<Longrightarrow> mp \<le> 11 \<Longrightarrow> month_of mp \<le> 12"
  by (simp_all add: month_of_def)

lemma date_is_valid_fields:
  assumes "1970 \<le> y" "y < 3001" "1 \<le> m" "m \<le> 12" "1 \<le> d" "d \<le> 31"
    and "0 \<le> h" "h < 24" "0 \<le> mn" "mn < 60" "0 \<le> s" "s < 60"
  shows "date_is_valid \<lparr>year = word_of_int y, month = word_of_int m, day = word_of_int d,
      hour = word_of_int h, minute = word_of_int mn, second = word_of_int s,
      tz_before_gmt = False, tz_hour = 0, tz_minute = 0\<rparr>"
  using assms by (simp add: date_is_valid_def word_le_def uint_small)

section \<open>Properties of the conversions\<close>

text \<open>C14: From January 1, 1970 to the end of year 65535, the last that the year's 16 bits hold, the date of
  a time denotes that very second; and up to the end of year 3000 it passes the validity check of
  the dates that clients send.\<close>

theorem date_timestamp_roundtrip:
  assumes "0 \<le> t" "t < 2005949145600"
  shows "date_timestamp (from_timestamp t) = t \<and> (t < 32535216000 \<longrightarrow> date_is_valid (from_timestamp t))"
proof -
  let ?n = "t div 86400 + 2472632" and ?h = "t mod 86400 div 3600" and ?mn = "t mod 86400 div 60 mod 60" and ?s = "t mod 86400 mod 60"
  obtain e mp d where d: "from_timestamp t =
      \<lparr>year = word_of_int (e - 4800 + of_bool (306 \<le> ?n - days_before e)), month = word_of_int (month_of mp), day = word_of_int d,
       hour = word_of_int ?h, minute = word_of_int ?mn, second = word_of_int ?s, tz_before_gmt = False, tz_hour = 0, tz_minute = 0\<rparr>"
    "0 \<le> mp" "mp \<le> 11" "1 \<le> d" "d \<le> 31" "10 \<le> mp \<longleftrightarrow> 306 \<le> ?n - days_before e"
    "?n = days_before e + (153 * mp + 2) div 5 + (d - 1)" "days_before e \<le> ?n" "?n < days_before (e + 1)"
    by (rule from_timestamp_parts [OF assms(1)])
  define y where "y = e - 4800 + of_bool (306 \<le> ?n - days_before e)"
  have y: "1970 \<le> y" "y < 65536" "t < 32535216000 \<Longrightarrow> y < 3001"
    using year_begun [OF d(8,9), of 1970, folded y_def] year_begun [OF d(8,9), of 65536, folded y_def]
      year_begun [OF d(8,9), of 3001, folded y_def] assms
    by (auto simp: days_before_def not_le [symmetric])
  note time = time_of_day [of t]
  have "e + of_bool (10 \<le> mp) = y + 4800" "0 \<le> y"
    using d(6) y(1) by (simp_all add: y_def of_bool_def)
  then have "date_timestamp (from_timestamp t)
      = (days_before e + (153 * mp + 2) div 5 + (d - 1) - 2472632) * 86400 + ?h * 3600 + ?mn * 60 + ?s"
    unfolding d(1) y_def [symmetric] by (rule date_timestamp_fields [OF d(2,3) _ _ y(2) d(4,5) time(1-6)])
  also have "\<dots> = t div 86400 * 86400 + t mod 86400"
    unfolding d(7) [symmetric] by (simp only: add.assoc time(7) [unfolded add.assoc] add_diff_cancel_right')
  finally have "date_timestamp (from_timestamp t) = t"
    by simp
  moreover have "date_is_valid (from_timestamp t)" if "t < 32535216000"
    unfolding d(1) y_def [symmetric]
    by (rule date_is_valid_fields [OF y(1) y(3) [OF that] month_of_range [OF d(2,3)] d(4,5) time(1-6)])
  ultimately show ?thesis by blast
qed

theorem date_timestamp_roundtrip_witness:
  "date_timestamp (from_timestamp 951782400) = 951782400 \<and>
   date_is_valid (from_timestamp 951782400)"
  using date_timestamp_roundtrip [of 951782400] by simp


section \<open>Printed dates\<close>

definition two_digits :: "nat \<Rightarrow> bytes" where
  "two_digits n = [0x30 + of_nat (n div 10), 0x30 + of_nat (n mod 10)]"

lemma fmt_digits_simps:
  "n < 10 \<Longrightarrow> fmt_digits n = [0x30 + of_nat n]"
  "10 \<le> n \<Longrightarrow> fmt_digits n = fmt_digits (n div 10) @ [0x30 + of_nat (n mod 10)]"
  by (simp_all add: fmt_digits.simps [of n])

lemma fmt_pad_2: "unat n < 100 \<Longrightarrow> fmt_pad 2 n = two_digits (unat n)"
  by (cases "unat n < 10") (simp_all add: fmt_pad_def two_digits_def fmt_digits_simps Let_def numeral_2_eq_2)

lemma fmt_pad_4: "unat n < 10000 \<Longrightarrow> fmt_pad 4 n = two_digits (unat n div 100) @ two_digits (unat n mod 100)"
proof -
  let ?n = "unat n"
  assume n: "?n < 10000"
  have d: "?n div 10 div 10 = ?n div 100" "?n div 100 div 10 = ?n div 1000" "?n mod 100 mod 10 = ?n mod 10"
      "?n mod 100 div 10 = ?n div 10 mod 10"
    using div_mod_decomp [of ?n 100] div_mod_decomp [of "?n mod 100" 10] div_mod_decomp [of "?n div 10" 10]
    by (simp_all add: div_mult2_eq [symmetric] mod_mod_cancel mod_mult2_eq [of _ 10 10, simplified])
  have r: "replicate 3 x = [x, x, x]" "replicate 2 x = [x, x]" for x :: u8
    by (simp_all add: numeral_3_eq_3 numeral_2_eq_2)
  consider "?n < 10" | "10 \<le> ?n" "?n < 100" | "100 \<le> ?n" "?n < 1000" | "1000 \<le> ?n" by linarith
  then show ?thesis
  proof cases
    case 3
    then have "10 \<le> ?n div 10" "?n div 10 div 10 < 10" by simp_all
    then show ?thesis using 3 d by (simp add: fmt_pad_def two_digits_def fmt_digits_simps Let_def)
  next
    case 4
    then have "10 \<le> ?n div 10" "10 \<le> ?n div 10 div 10" "?n div 10 div 10 div 10 < 10" using n by simp_all
    then show ?thesis using 4 d by (simp add: fmt_pad_def two_digits_def fmt_digits_simps Let_def)
  qed (use n d r in \<open>simp_all add: fmt_pad_def two_digits_def fmt_digits_simps Let_def\<close>)
qed

lemma digit_byte:
  assumes "d < 10"
  shows "0x30 \<le> (0x30 + of_nat d :: u8)" "(0x30 + of_nat d :: u8) \<le> 0x39" "ucast (of_nat d :: u8) = (of_nat d :: u32)"
proof -
  have "d \<in> {0, 1, 2, 3, 4, 5, 6, 7, 8, 9}" using assms by (simp, presburger)
  then show "0x30 \<le> (0x30 + of_nat d :: u8)" "(0x30 + of_nat d :: u8) \<le> 0x39" "ucast (of_nat d :: u8) = (of_nat d :: u32)"
    by auto
qed

lemma date_body_digit:
  assumes "d < 10" "\<not> d_skip_digits s" "d_sizes s ! d_pos s > 0"
  shows "date_body (0x30 + of_nat d) s =
    Inl (s\<lparr>d_sizes := (d_sizes s)[d_pos s := d_sizes s ! d_pos s - 1],
           d_parts := (d_parts s)[d_pos s := d_parts s ! d_pos s + of_nat d * 10 ^ unat (d_sizes s ! d_pos s - 1)]\<rparr>)"
  using assms digit_byte [OF assms(1)] by (simp add: date_body_def Let_def)

text \<open>What two digits do to the part they belong to.\<close>

lemma run_two_digits:
  assumes "n < 100" "\<not> d_skip_digits s" "d_pos s < length (d_sizes s)" "d_pos s < length (d_parts s)"
    and "d_sizes s ! d_pos s = k + 2" "k = 0 \<or> k = 2"
  shows "run date_body s (two_digits n @ w) =
    run date_body (s\<lparr>d_sizes := (d_sizes s)[d_pos s := k],
      d_parts := (d_parts s)[d_pos s := d_parts s ! d_pos s + of_nat n * 10 ^ unat k]\<rparr>) w"
proof -
  have n: "of_nat n = (of_nat (n div 10) * 10 + of_nat (n mod 10) :: u32)"
    by (metis div_mult_mod_eq of_nat_add of_nat_mult of_nat_numeral)
  have k: "0 < k + 2" "0 < k + 1" "k + 2 - 1 = k + 1" "k + 1 - 1 = k" "unat (k + 1) = Suc (unat k)"
    using assms(6) by auto
  let ?s = "s\<lparr>d_sizes := (d_sizes s)[d_pos s := k + 1],
      d_parts := (d_parts s)[d_pos s := d_parts s ! d_pos s + of_nat (n div 10) * 10 ^ Suc (unat k)]\<rparr>"
  have "date_body (0x30 + of_nat (n div 10)) s = Inl ?s"
    using date_body_digit [of "n div 10" s] assms(1,2) k(1) unfolding assms(5) k(3,5) by simp
  moreover have "date_body (0x30 + of_nat (n mod 10)) ?s =
      Inl (?s\<lparr>d_sizes := (d_sizes ?s)[d_pos ?s := k],
        d_parts := (d_parts ?s)[d_pos ?s := d_parts ?s ! d_pos ?s + of_nat (n mod 10) * 10 ^ unat k]\<rparr>)"
    using date_body_digit [of "n mod 10" ?s] assms(2,3) k by simp
  ultimately show ?thesis
    using assms(3,4) by (simp add: two_digits_def n algebra_simps)
qed

text \<open>
  A date that \<open>date_display\<close> prints in fixed width: a year of four digits, other parts of two, and
  no sign for a zone offset of zero.
\<close>

definition date_printable :: "utc_date \<Rightarrow> bool" where
  "date_printable d \<longleftrightarrow> year d < 10000 \<and> month d < 100 \<and> day d < 100 \<and> hour d < 100 \<and> minute d < 100 \<and> second d < 100 \<and>
     tz_hour d < 100 \<and> tz_minute d < 100 \<and> (tz_hour d = 0 \<and> tz_minute d = 0 \<longrightarrow> \<not> tz_before_gmt d)"

lemma date_body_separators:
  "d_pos s \<le> 1 \<Longrightarrow> date_body 0x2d s = Inl (s\<lparr>d_pos := d_pos s + 1\<rparr>)"
  "d_pos s = 2 \<Longrightarrow> date_body 0x54 s = Inl (s\<lparr>d_pos := 3\<rparr>)"
  "d_pos s \<in> {3, 4, 6} \<Longrightarrow> date_body 0x3a s = Inl (s\<lparr>d_pos := d_pos s + 1\<rparr>)"
  "d_pos s = 5 \<Longrightarrow> date_body 0x2d s = Inl (s\<lparr>d_pos := 6, d_is_plus := False, d_skip_digits := False\<rparr>)"
  "d_pos s = 5 \<Longrightarrow> date_body 0x2b s = Inl (s\<lparr>d_pos := 6, d_skip_digits := False\<rparr>)"
  "date_body 0x5a s = Inl s"
  by (simp_all add: date_body_def Let_def)

lemma word_digits: "n < 100 \<Longrightarrow> unat n < 100" "m < 10000 \<Longrightarrow> unat m < 10000" for n :: u8 and m :: u16
  by (simp_all add: word_less_nat_alt)

lemmas run_digits =
  run_two_digits [of _ _ 2, simplified] run_two_digits [of _ _ 0, simplified]
  run_two_digits [of _ _ 0 "[]", simplified]

lemma widened: "ucast (ucast x :: u32) = x" "ucast (ucast y :: u32) = y" for x :: u8 and y :: u16
  by (transfer, simp)+

lemma year_of_parts: "ucast (of_nat (unat y div 100) * 100 + of_nat (unat y mod 100) :: u32) = y" for y :: u16
proof -
  have "of_nat (unat y div 100) * 100 + of_nat (unat y mod 100) = (of_nat (unat y) :: u32)"
    by (metis div_mult_mod_eq of_nat_add of_nat_mult of_nat_numeral)
  then show ?thesis by (simp add: widened)
qed

lemma run_date_display:
  assumes "date_printable d"
  shows "\<exists>s. run date_body date_start (date_display d) = Some s \<and> 5 \<le> d_pos s \<and> date_done s = d"
proof -
  have y: "fmt_pad 4 (year d) = two_digits (unat (year d) div 100) @ two_digits (unat (year d) mod 100)" "unat (year d) div 100 < 100"
    using assms word_digits(2) [of "year d"] by (simp_all add: date_printable_def fmt_pad_4)
  have x: "fmt_pad 2 x = two_digits (unat x)" "unat x < 100" if "x < 100" for x :: u8
    using that by (simp_all add: fmt_pad_2 word_digits)
  have parts: "replicate 8 (0::u32) = [0, 0, 0, 0, 0, 0, 0, 0]"
    by (simp add: numeral_eq_Suc)
  show ?thesis
    using assms
    by (cases "tz_hour d = 0 \<and> tz_minute d = 0")
      (simp_all add: date_display_def date_printable_def y x date_start_def run_digits date_body_separators
        date_done_def parts widened year_of_parts,
        auto simp: word_gt_0 intro!: utc_date.equality)
qed

lemma plain_date_display: "date_printable d \<Longrightarrow> list_all plain (date_display d)"
proof -
  have "plain (0x30 + of_nat n)" if "n < 10" for n
  proof -
    have "n \<in> {0, 1, 2, 3, 4, 5, 6, 7, 8, 9}" using that by (simp, presburger)
    then show ?thesis by (auto simp: plain_def)
  qed
  then have two: "list_all plain (two_digits n)" if "n < 100" for n
    using that by (simp add: two_digits_def)
  assume d: "date_printable d"
  then have "unat (year d) div 100 < 100"
    using word_digits(2) [of "year d"] by (simp add: date_printable_def)
  with d show ?thesis
    by (simp add: date_display_def date_printable_def fmt_pad_4 fmt_pad_2 word_digits two) (simp add: plain_def)
qed

interpretation item_date: item_parser date_parse
  by unfold_locales (auto simp: date_parse_def Let_def intro!: item_parser_intros)

text \<open>The JSON parser reads the printed form of a date, between quotes, as that date, and stands
  after the closing quote.\<close>

theorem date_token:
  assumes "date_printable d" "p_next_ch p = None" "p_iter p = 0x22 # date_display d @ 0x22 # rest"
  shows "\<exists>q. next_token pf date_parse p = (Inr (String d), q) \<and> p_iter q = rest"
proof -
  let ?p = "in_string p (date_display d @ 0x22 # rest)"
  obtain s where s: "run date_body date_start (date_display d) = Some s" "5 \<le> d_pos s" "date_done s = d"
    using run_date_display [OF assms(1)] by blast
  have "while_unescaped date_body date_start ?p = (Inr (Inl s), past_quote ?p (date_display d) rest)"
    by (rule while_unescaped_plain [OF plain_date_display [OF assms(1)] _ s(1)]) (simp add: in_string_def)
  then have "date_parse ?p = (Inr d, past_quote ?p (date_display d) rest)"
    using s by (simp add: date_parse_def)
  then have "next_token pf date_parse p = (Inr (String d), past_quote ?p (date_display d) rest)"
    by (rule next_token_string [OF assms(2,3)]) (simp add: past_quote_def)
  then show ?thesis by (simp add: past_quote_def)
qed

theorem date_token_witness:
  "let d = \<lparr>year = 1969, month = 2, day = 13, hour = 23, minute = 32, second = 0,
            tz_before_gmt = True, tz_hour = 3, tz_minute = 30\<rparr> in
   \<exists>q. next_token (\<lambda>_. None) date_parse (parser_new (0x22 # date_display d @ 0x22 # lit '','')) = (Inr (String d), q) \<and>
       p_iter q = lit '',''"
  unfolding Let_def
  by (rule date_token) (simp_all add: parser_new_def date_printable_def)

end
