(* ===== verification/RustNum.thy ===== *)
theory RustNum
  imports Utf8
begin

text \<open>
  Numbers and texts as the standard library of Rust converts them: \<^verbatim>\<open>str::parse\<close> of the integer types,
  their \<^verbatim>\<open>Display\<close>, saturating arithmetic, and the ASCII classes of bytes.
\<close>

section \<open>Integers\<close>

type_synonym i64 = "64 word"

text \<open>\<^verbatim>\<open>saturating_add\<close> and its like: the exact result, moved into the range.\<close>

definition sat_i64 :: "int \<Rightarrow> i64" where
  "sat_i64 n = word_of_int (max (- (2 ^ 63)) (min (2 ^ 63 - 1) n))"

text \<open>\<^verbatim>\<open>str::parse\<close> of the integer types: an optional sign, at least one digit, no overflow.\<close>

definition is_digit :: "u8 \<Rightarrow> bool" where
  "is_digit b \<longleftrightarrow> 0x30 \<le> b \<and> b \<le> 0x39"

definition parse_digits :: "bytes \<Rightarrow> nat option" where
  "parse_digits ds =
     (if ds \<noteq> [] \<and> list_all is_digit ds then Some (foldl (\<lambda>n b. 10 * n + unat (b - 0x30)) 0 ds) else None)"

definition strip_plus :: "bytes \<Rightarrow> bytes" where
  "strip_plus s = (case s of [] \<Rightarrow> [] | c # ds \<Rightarrow> if c = 0x2b then ds else s)"

definition parse_unsigned :: "nat \<Rightarrow> bytes \<Rightarrow> nat option" where
  "parse_unsigned w s = (case parse_digits (strip_plus s) of Some n \<Rightarrow> if n < 2 ^ w then Some n else None | None \<Rightarrow> None)"

definition parse_i64 :: "bytes \<Rightarrow> i64 option" where
  "parse_i64 s =
     (if s \<noteq> [] \<and> hd s = 0x2d
      then (case parse_digits (tl s) of Some n \<Rightarrow> if n \<le> 2 ^ 63 then Some (- of_nat n) else None | None \<Rightarrow> None)
      else (case parse_digits (strip_plus s) of Some n \<Rightarrow> if n < 2 ^ 63 then Some (of_nat n) else None | None \<Rightarrow> None))"

definition i64_display :: "i64 \<Rightarrow> bytes" where
  "i64_display n = (if sint n < 0 then 0x2d # fmt_digits (nat (- sint n)) else fmt_digits (nat (sint n)))"

section \<open>ASCII\<close>

definition is_ascii_whitespace :: "u8 \<Rightarrow> bool" where
  "is_ascii_whitespace b \<longleftrightarrow> b \<in> {0x20, 0x09, 0x0a, 0x0c, 0x0d}"

definition ascii_lowercase :: "u8 \<Rightarrow> u8" where
  "ascii_lowercase b = (if 0x41 \<le> b \<and> b \<le> 0x5a then b + 0x20 else b)"

definition ascii_uppercase :: "u8 \<Rightarrow> u8" where
  "ascii_uppercase b = (if 0x61 \<le> b \<and> b \<le> 0x7a then b - 0x20 else b)"

definition is_ascii_alpha :: "u8 \<Rightarrow> bool" where
  "is_ascii_alpha b \<longleftrightarrow> (0x41 \<le> b \<and> b \<le> 0x5a) \<or> (0x61 \<le> b \<and> b \<le> 0x7a)"

definition eq_ignore_ascii_case :: "bytes \<Rightarrow> bytes \<Rightarrow> bool" where
  "eq_ignore_ascii_case a b \<longleftrightarrow> map ascii_lowercase a = map ascii_lowercase b"

lemma digits_ascii: "list_all is_digit bs \<Longrightarrow> from_utf8 bs"
  by (induction bs) (auto simp: is_digit_def from_utf8_ascii word_less_nat_alt word_le_nat_alt)

section \<open>White space\<close>

text \<open>\<^verbatim>\<open>str::trim\<close>: the characters with the Unicode property White_Space, in UTF-8, are removed at both ends.\<close>

definition WHITE_SPACE :: "bytes list" where
  "WHITE_SPACE =
     [[0x09], [0x0a], [0x0b], [0x0c], [0x0d], [0x20], [0xc2, 0x85], [0xc2, 0xa0], [0xe1, 0x9a, 0x80]]
     @ map (\<lambda>b. [0xe2, 0x80, b]) [0x80, 0x81, 0x82, 0x83, 0x84, 0x85, 0x86, 0x87, 0x88, 0x89, 0x8a, 0xa8, 0xa9, 0xaf]
     @ [[0xe2, 0x81, 0x9f], [0xe3, 0x80, 0x80]]"

fun strip_any :: "bytes list \<Rightarrow> nat \<Rightarrow> bytes \<Rightarrow> bytes" where
  "strip_any ws 0 bs = bs"
| "strip_any ws (Suc n) bs =
     (case find (\<lambda>w. take (length w) bs = w) ws of Some w \<Rightarrow> strip_any ws n (drop (length w) bs) | None \<Rightarrow> bs)"

definition trim_start :: "bytes \<Rightarrow> bytes" where
  "trim_start bs = strip_any WHITE_SPACE (length bs) bs"

definition trim_end :: "bytes \<Rightarrow> bytes" where
  "trim_end bs = rev (strip_any (map rev WHITE_SPACE) (length bs) (rev bs))"

definition trim :: "bytes \<Rightarrow> bytes" where
  "trim bs = trim_end (trim_start bs)"

text \<open>Printable ASCII at the ends stays.\<close>

definition graphic :: "u8 \<Rightarrow> bool" where
  "graphic b \<longleftrightarrow> 0x20 < b \<and> b < 0x80"

lemma strip_any_hd:
  assumes "list_all (\<lambda>w. w \<noteq> [] \<and> \<not> graphic (hd w)) ws" "bs \<noteq> []" "graphic (hd bs)"
  shows "strip_any ws n bs = bs"
proof -
  have "take (length w) bs \<noteq> w" if "w \<in> set ws" for w
  proof
    assume t: "take (length w) bs = w"
    have "w \<noteq> []" "\<not> graphic (hd w)" using that assms(1) by (auto simp: list_all_iff)
    then show False using t assms(2,3) by (metis hd_take length_greater_0_conv)
  qed
  then have "find (\<lambda>w. take (length w) bs = w) ws = None" by (auto simp: find_None_iff)
  then show ?thesis by (cases n) simp_all
qed

lemma strip_any_graphic:
  assumes "bs \<noteq> []" "graphic (hd bs)"
  shows "strip_any WHITE_SPACE n bs = bs" "strip_any (map rev WHITE_SPACE) n bs = bs"
proof -
  have "list_all (\<lambda>w. w \<noteq> [] \<and> \<not> graphic (hd w)) WHITE_SPACE" "list_all (\<lambda>w. w \<noteq> [] \<and> \<not> graphic (hd w)) (map rev WHITE_SPACE)"
    by code_simp+
  then show "strip_any WHITE_SPACE n bs = bs" "strip_any (map rev WHITE_SPACE) n bs = bs"
    using assms by (auto intro!: strip_any_hd)
qed

lemma trim_graphic: "bs \<noteq> [] \<Longrightarrow> graphic (hd bs) \<Longrightarrow> graphic (last bs) \<Longrightarrow> trim bs = bs"
  by (simp add: trim_def trim_start_def trim_end_def strip_any_graphic hd_rev)

section \<open>Printed numbers are read back\<close>

lemma is_digit_add: "d < 10 \<Longrightarrow> is_digit (0x30 + of_nat d)" "d < 10 \<Longrightarrow> unat (0x30 + of_nat d - 0x30 :: u8) = d"
  by (auto simp: is_digit_def word_le_nat_alt unat_word_ariths unat_of_nat_less)

lemma fmt_digits_digits: "fmt_digits n \<noteq> [] \<and> list_all is_digit (fmt_digits n)"
proof (induction n rule: less_induct)
  case (less n)
  show ?case
  proof (cases "n < 10")
    case False
    then show ?thesis
      using less [of "n div 10"] is_digit_add(1) [of "n mod 10"] by (subst (1 2) fmt_digits.simps) simp
  qed (simp add: fmt_digits.simps is_digit_add)
qed

lemma fold_fmt_digits: "foldl (\<lambda>n b. 10 * n + unat (b - 0x30)) 0 (fmt_digits n) = n"
proof (induction n rule: less_induct)
  case (less n)
  show ?case
  proof (cases "n < 10")
    case False
    then show ?thesis
      using less [of "n div 10"] is_digit_add(2) [of "n mod 10"] by (subst fmt_digits.simps) simp
  qed (use is_digit_add(2) [of n] in \<open>simp add: fmt_digits.simps\<close>)
qed

lemma parse_digits_fmt [simp]: "parse_digits (fmt_digits n) = Some n"
  by (simp add: parse_digits_def fmt_digits_digits fold_fmt_digits)

lemma hd_fmt_digits: "is_digit (hd (fmt_digits n))"
  using fmt_digits_digits [of n] by (cases "fmt_digits n") simp_all

lemma strip_plus_fmt [simp]: "strip_plus (fmt_digits n) = fmt_digits n"
  using hd_fmt_digits [of n] by (auto simp: strip_plus_def is_digit_def word_le_nat_alt split: list.splits)

lemma parse_unsigned_fmt: "parse_unsigned w (fmt_digits n) = (if n < 2 ^ w then Some n else None)"
  by (simp add: parse_unsigned_def)

end
