(* ===== verification/ExprTypes.thy ===== *)
theory ExprTypes
  imports RustNum "HOL-Library.List_Lexorder"
begin

text \<open>
  The values of the expression language of the configuration (crates/common/src/expr/mod.rs and
  eval.rs): their conversions, comparisons and operators. 64-bit integers are words read as signed;
  double precision floats are a type parameter with a record of the operations that the code uses.
\<close>

section \<open>Numbers\<close>

datatype ordering = OLess | OEqual | OGreater

record 'f floats =
  f_of_i64 :: "i64 \<Rightarrow> 'f"
  f_zero :: 'f
  f_add :: "'f \<Rightarrow> 'f \<Rightarrow> 'f"
  f_sub :: "'f \<Rightarrow> 'f \<Rightarrow> 'f"
  f_mul :: "'f \<Rightarrow> 'f \<Rightarrow> 'f"
  f_div :: "'f \<Rightarrow> 'f \<Rightarrow> 'f"
  f_neg :: "'f \<Rightarrow> 'f"
  f_eq :: "'f \<Rightarrow> 'f \<Rightarrow> bool"
  f_cmp :: "'f \<Rightarrow> 'f \<Rightarrow> ordering option"
  f_to_i64 :: "'f \<Rightarrow> i64"
  f_to_usize :: "'f \<Rightarrow> u64"
  f_display :: "'f \<Rightarrow> bytes"
  f_parse :: "bytes \<Rightarrow> 'f option"

definition of_bool_i64 :: "bool \<Rightarrow> i64" where
  "of_bool_i64 b = (if b then 1 else 0)"

section \<open>Values\<close>

datatype 'f variable = VString bytes | VInteger i64 | VFloat 'f | VArray "'f variable list"

datatype 'f expr_constant = CInteger i64 | CFloat 'f | CString bytes

definition var_default :: "'f variable" where
  "var_default = VString []"

definition var_of_constant :: "'f expr_constant \<Rightarrow> 'f variable" where
  "var_of_constant c = (case c of CInteger i \<Rightarrow> VInteger i | CFloat f \<Rightarrow> VFloat f | CString s \<Rightarrow> VString s)"

definition parse_number :: "'f floats \<Rightarrow> 'f variable \<Rightarrow> 'f variable" where
  "parse_number F v =
     (case v of
        VString s \<Rightarrow>
          if s \<noteq> [] then
            (case parse_i64 s of
               Some n \<Rightarrow> VInteger n
             | None \<Rightarrow> (case f_parse F s of Some n \<Rightarrow> VFloat n | None \<Rightarrow> VInteger 0))
          else VInteger 0
      | VInteger n \<Rightarrow> VInteger n
      | VFloat n \<Rightarrow> VFloat n
      | VArray l \<Rightarrow> VInteger (of_bool_i64 (l = [])))"

definition to_bool :: "'f floats \<Rightarrow> 'f variable \<Rightarrow> bool" where
  "to_bool F v =
     (case v of
        VFloat f \<Rightarrow> \<not> f_eq F f (f_zero F)
      | VInteger n \<Rightarrow> n \<noteq> 0
      | VString s \<Rightarrow> s \<noteq> []
      | VArray a \<Rightarrow> a \<noteq> [])"

text \<open>\<^verbatim>\<open>to_string\<close> and \<^verbatim>\<open>into_string\<close>: items of a list on lines of their own, lists inside it left out.\<close>

definition scalar_string :: "'f floats \<Rightarrow> 'f variable \<Rightarrow> bytes" where
  "scalar_string F v = (case v of VString s \<Rightarrow> s | VInteger n \<Rightarrow> i64_display n | VFloat n \<Rightarrow> f_display F n | VArray _ \<Rightarrow> [])"

definition var_to_string :: "'f floats \<Rightarrow> 'f variable \<Rightarrow> bytes" where
  "var_to_string F v =
     (case v of
        VArray l \<Rightarrow> foldl (\<lambda>res item. (if res \<noteq> [] then res @ [0x0d, 0x0a] else res) @ scalar_string F item) [] l
      | _ \<Rightarrow> scalar_string F v)"

definition to_integer :: "'f floats \<Rightarrow> 'f variable \<Rightarrow> i64 option" where
  "to_integer F v =
     (case v of
        VInteger n \<Rightarrow> Some n
      | VFloat n \<Rightarrow> Some (f_to_i64 F n)
      | VString s \<Rightarrow> if s \<noteq> [] then parse_i64 s else None
      | VArray _ \<Rightarrow> None)"

definition to_usize :: "'f floats \<Rightarrow> 'f variable \<Rightarrow> u64 option" where
  "to_usize F v =
     (case v of
        VInteger n \<Rightarrow> Some n
      | VFloat n \<Rightarrow> Some (f_to_usize F n)
      | VString s \<Rightarrow> if s \<noteq> [] then map_option of_nat (parse_unsigned 64 s) else None
      | VArray _ \<Rightarrow> None)"

definition var_is_empty :: "'f variable \<Rightarrow> bool" where
  "var_is_empty v = (case v of VString s \<Rightarrow> s = [] | _ \<Rightarrow> False)"

definition into_array :: "'f variable \<Rightarrow> 'f variable list" where
  "into_array v = (case v of VArray l \<Rightarrow> l | _ \<Rightarrow> if \<not> var_is_empty v then [v] else [])"

text \<open>\<^verbatim>\<open>Display\<close>: unlike \<open>to_string\<close>, lists inside lists are printed.\<close>

fun var_display :: "'f floats \<Rightarrow> 'f variable \<Rightarrow> bytes" and vars_display :: "'f floats \<Rightarrow> 'f variable list \<Rightarrow> bytes" where
  "var_display F (VString s) = s"
| "var_display F (VInteger n) = i64_display n"
| "var_display F (VFloat n) = f_display F n"
| "var_display F (VArray l) = vars_display F l"
| "vars_display F [] = []"
| "vars_display F [v] = var_display F v"
| "vars_display F (v # w # vs) = var_display F v @ 0x0a # vars_display F (w # vs)"

section \<open>Comparisons\<close>

text \<open>On numbers; a string is compared with a number as the number it is parsed to.\<close>

definition num_eq :: "'f floats \<Rightarrow> 'f variable \<Rightarrow> 'f variable \<Rightarrow> bool" where
  "num_eq F x y =
     (case (x, y) of
        (VInteger a, VInteger b) \<Rightarrow> a = b
      | (VFloat a, VFloat b) \<Rightarrow> f_eq F a b
      | (VInteger a, VFloat b) \<Rightarrow> f_eq F (f_of_i64 F a) b
      | (VFloat b, VInteger a) \<Rightarrow> f_eq F (f_of_i64 F a) b
      | _ \<Rightarrow> False)"

fun var_eq :: "'f floats \<Rightarrow> 'f variable \<Rightarrow> 'f variable \<Rightarrow> bool" and vars_eq :: "'f floats \<Rightarrow> 'f variable list \<Rightarrow> 'f variable list \<Rightarrow> bool" where
  "var_eq F (VArray a) (VArray b) = vars_eq F a b"
| "var_eq F (VArray _) _ = False"
| "var_eq F _ (VArray _) = False"
| "var_eq F (VString a) (VString b) = (a = b)"
| "var_eq F x y = num_eq F (parse_number F x) (parse_number F y)"
| "vars_eq F [] [] = True"
| "vars_eq F (x # xs) (y # ys) = (var_eq F x y \<and> vars_eq F xs ys)"
| "vars_eq F _ _ = False"

definition ord_cmp :: "'a::linorder \<Rightarrow> 'a \<Rightarrow> ordering" where
  "ord_cmp a b = (if a < b then OLess else if a = b then OEqual else OGreater)"

definition num_cmp :: "'f floats \<Rightarrow> 'f variable \<Rightarrow> 'f variable \<Rightarrow> ordering option" where
  "num_cmp F x y =
     (case (x, y) of
        (VInteger a, VInteger b) \<Rightarrow> Some (ord_cmp (sint a) (sint b))
      | (VFloat a, VFloat b) \<Rightarrow> f_cmp F a b
      | (VInteger a, VFloat b) \<Rightarrow> f_cmp F (f_of_i64 F a) b
      | (VFloat a, VInteger b) \<Rightarrow> f_cmp F a (f_of_i64 F b)
      | _ \<Rightarrow> None)"

fun partial_cmp :: "'f floats \<Rightarrow> 'f variable \<Rightarrow> 'f variable \<Rightarrow> ordering option"
  and partial_cmps :: "'f floats \<Rightarrow> 'f variable list \<Rightarrow> 'f variable list \<Rightarrow> ordering option" where
  "partial_cmp F (VArray a) (VArray b) = partial_cmps F a b"
| "partial_cmp F (VArray _) _ = Some OGreater"
| "partial_cmp F (VString _) (VArray _) = Some OGreater"
| "partial_cmp F _ (VArray _) = Some OLess"
| "partial_cmp F (VString a) (VString b) = Some (ord_cmp a b)"
| "partial_cmp F x y = num_cmp F (parse_number F x) (parse_number F y)"
| "partial_cmps F [] [] = Some OEqual"
| "partial_cmps F [] (_ # _) = Some OLess"
| "partial_cmps F (_ # _) [] = Some OGreater"
| "partial_cmps F (x # xs) (y # ys) =
     (case partial_cmp F x y of Some OEqual \<Rightarrow> partial_cmps F xs ys | r \<Rightarrow> r)"

section \<open>Operators\<close>

definition num_op :: "'f floats \<Rightarrow> (int \<Rightarrow> int \<Rightarrow> int) \<Rightarrow> ('f \<Rightarrow> 'f \<Rightarrow> 'f) \<Rightarrow> 'f variable \<Rightarrow> 'f variable \<Rightarrow> 'f variable" where
  "num_op F iop fop x y =
     (case (x, y) of
        (VInteger a, VInteger b) \<Rightarrow> VInteger (sat_i64 (iop (sint a) (sint b)))
      | (VFloat a, VFloat b) \<Rightarrow> VFloat (fop a b)
      | (VInteger a, VFloat b) \<Rightarrow> VFloat (fop (f_of_i64 F a) b)
      | (VFloat a, VInteger b) \<Rightarrow> VFloat (fop a (f_of_i64 F b))
      | _ \<Rightarrow> VInteger 0)"

fun op_add :: "'f floats \<Rightarrow> 'f variable \<Rightarrow> 'f variable \<Rightarrow> 'f variable" where
  "op_add F (VArray a) (VArray b) = VArray (a @ b)"
| "op_add F (VArray a) b = VArray (a @ [b])"
| "op_add F a (VArray b) = VArray (a # b)"
| "op_add F (VString a) b = (if a \<noteq> [] then VString (a @ var_display F b) else b)"
| "op_add F a (VString b) = (if b \<noteq> [] then VString (var_display F a @ b) else a)"
| "op_add F (VInteger a) (VInteger b) = VInteger (sat_i64 (sint a + sint b))"
| "op_add F (VFloat a) (VFloat b) = VFloat (f_add F a b)"
| "op_add F (VInteger i) (VFloat f) = VFloat (f_add F (f_of_i64 F i) f)"
| "op_add F (VFloat f) (VInteger i) = VFloat (f_add F (f_of_i64 F i) f)"

definition op_subtract :: "'f floats \<Rightarrow> 'f variable \<Rightarrow> 'f variable \<Rightarrow> 'f variable" where
  "op_subtract F x y =
     (case (x, y) of
        (VArray a, b) \<Rightarrow> VArray (filter (\<lambda>v. \<not> var_eq F v b) a)
      | (b, VArray a) \<Rightarrow> VArray (filter (\<lambda>v. \<not> var_eq F v b) a)
      | _ \<Rightarrow> num_op F (\<lambda>a b. a - b) (f_sub F) (parse_number F x) (parse_number F y))"

definition op_multiply :: "'f floats \<Rightarrow> 'f variable \<Rightarrow> 'f variable \<Rightarrow> 'f variable" where
  "op_multiply F x y =
     (case (parse_number F x, parse_number F y) of
        (VFloat f, VInteger i) \<Rightarrow> VFloat (f_mul F (f_of_i64 F i) f)
      | (x, y) \<Rightarrow> num_op F (\<lambda>a b. a * b) (f_mul F) x y)"

definition op_divide :: "'f floats \<Rightarrow> 'f variable \<Rightarrow> 'f variable \<Rightarrow> 'f variable" where
  "op_divide F x y =
     VFloat (case (parse_number F x, parse_number F y) of
        (VInteger a, VInteger b) \<Rightarrow> if b \<noteq> 0 then f_div F (f_of_i64 F a) (f_of_i64 F b) else f_zero F
      | (VFloat a, VFloat b) \<Rightarrow> if \<not> f_eq F b (f_zero F) then f_div F a b else f_zero F
      | (VInteger a, VFloat b) \<Rightarrow> if \<not> f_eq F b (f_zero F) then f_div F (f_of_i64 F a) b else f_zero F
      | (VFloat a, VInteger b) \<Rightarrow> if b \<noteq> 0 then f_div F a (f_of_i64 F b) else f_zero F
      | _ \<Rightarrow> f_zero F)"

definition var_of_bool :: "bool \<Rightarrow> 'f variable" where
  "var_of_bool b = VInteger (of_bool_i64 b)"

definition op_and :: "'f floats \<Rightarrow> 'f variable \<Rightarrow> 'f variable \<Rightarrow> 'f variable" where
  "op_and F x y = var_of_bool (to_bool F x \<and> to_bool F y)"

definition op_or :: "'f floats \<Rightarrow> 'f variable \<Rightarrow> 'f variable \<Rightarrow> 'f variable" where
  "op_or F x y = var_of_bool (to_bool F x \<or> to_bool F y)"

definition op_xor :: "'f floats \<Rightarrow> 'f variable \<Rightarrow> 'f variable \<Rightarrow> 'f variable" where
  "op_xor F x y = var_of_bool (to_bool F x \<noteq> to_bool F y)"

definition op_eq :: "'f floats \<Rightarrow> 'f variable \<Rightarrow> 'f variable \<Rightarrow> 'f variable" where
  "op_eq F x y = var_of_bool (var_eq F x y)"

definition op_ne :: "'f floats \<Rightarrow> 'f variable \<Rightarrow> 'f variable \<Rightarrow> 'f variable" where
  "op_ne F x y = var_of_bool (\<not> var_eq F x y)"

definition op_lt :: "'f floats \<Rightarrow> 'f variable \<Rightarrow> 'f variable \<Rightarrow> 'f variable" where
  "op_lt F x y = var_of_bool (partial_cmp F x y = Some OLess)"

definition op_le :: "'f floats \<Rightarrow> 'f variable \<Rightarrow> 'f variable \<Rightarrow> 'f variable" where
  "op_le F x y = var_of_bool (partial_cmp F x y \<in> {Some OLess, Some OEqual})"

definition op_gt :: "'f floats \<Rightarrow> 'f variable \<Rightarrow> 'f variable \<Rightarrow> 'f variable" where
  "op_gt F x y = var_of_bool (partial_cmp F x y = Some OGreater)"

definition op_ge :: "'f floats \<Rightarrow> 'f variable \<Rightarrow> 'f variable \<Rightarrow> 'f variable" where
  "op_ge F x y = var_of_bool (partial_cmp F x y \<in> {Some OGreater, Some OEqual})"

definition op_not :: "'f floats \<Rightarrow> 'f variable \<Rightarrow> 'f variable" where
  "op_not F x = var_of_bool (\<not> to_bool F x)"

definition op_minus :: "'f floats \<Rightarrow> 'f variable \<Rightarrow> 'f variable" where
  "op_minus F x =
     (case parse_number F x of VInteger n \<Rightarrow> VInteger (- n) | VFloat n \<Rightarrow> VFloat (f_neg F n) | v \<Rightarrow> v)"

datatype binary_operator =
  BAdd | BSubtract | BMultiply | BDivide | BAnd | BOr | BXor | BEq | BNe | BLt | BLe | BGt | BGe

datatype unary_operator = UNot | UMinus

definition apply_unary :: "'f floats \<Rightarrow> unary_operator \<Rightarrow> 'f variable \<Rightarrow> 'f variable" where
  "apply_unary F op v = (case op of UNot \<Rightarrow> op_not F v | UMinus \<Rightarrow> op_minus F v)"

definition apply_binary :: "'f floats \<Rightarrow> binary_operator \<Rightarrow> 'f variable \<Rightarrow> 'f variable \<Rightarrow> 'f variable" where
  "apply_binary F op left right =
     (case op of
        BAdd \<Rightarrow> op_add F left right
      | BSubtract \<Rightarrow> op_subtract F left right
      | BMultiply \<Rightarrow> op_multiply F left right
      | BDivide \<Rightarrow> op_divide F left right
      | BAnd \<Rightarrow> op_and F left right
      | BOr \<Rightarrow> op_or F left right
      | BXor \<Rightarrow> op_xor F left right
      | BEq \<Rightarrow> op_eq F left right
      | BNe \<Rightarrow> op_ne F left right
      | BLt \<Rightarrow> op_lt F left right
      | BLe \<Rightarrow> op_le F left right
      | BGt \<Rightarrow> op_gt F left right
      | BGe \<Rightarrow> op_ge F left right)"

end
