(* ===== verification/ExprEval.thy ===== *)
theory ExprEval
  imports ExprTypes
begin

text \<open>
  Compiled expressions and the stack machine that evaluates them (crates/common/src/expr/eval.rs),
  what an expression means, and that compiled code computes it, jumps included.
\<close>

section \<open>The machine\<close>

datatype ('f, 'r) expr_item =
    IVariable u32
  | ICapture u32
  | IConstant "'f expr_constant"
  | IBinary binary_operator
  | IUnary unary_operator
  | IRegex 'r
  | IJmpIf bool u32
  | IFunction u32 u32
  | IArrayAccess
  | IArrayBuild u32

text \<open>
  What an expression is evaluated in: the variables of the session, the table of functions with the
  asynchronous ones behind it, and the regular expressions of an external crate.
\<close>

record ('f, 'r) expr_env =
  env_floats :: "'f floats"
  resolve_variable :: "u32 \<Rightarrow> 'f variable"
  env_functions :: "('f variable list \<Rightarrow> 'f variable) list"
  eval_fnc :: "u32 \<Rightarrow> 'f variable list \<Rightarrow> 'f variable"
  regex_captures :: "'r \<Rightarrow> bytes \<Rightarrow> bytes option list option"

text \<open>The stack, its top first, and the captures of the last regular expression.\<close>

type_synonym 'f machine = "'f variable list \<times> bytes list"

definition pop_default :: "'f variable list \<Rightarrow> 'f variable \<times> 'f variable list" where
  "pop_default st = (case st of [] \<Rightarrow> (var_default, []) | v # st \<Rightarrow> (v, st))"

fun pop_args :: "nat \<Rightarrow> 'f variable list \<Rightarrow> 'f variable list \<Rightarrow> 'f variable list \<times> 'f variable list" where
  "pop_args 0 st args = (args, st)"
| "pop_args (Suc n) st args = (let (v, st) = pop_default st in pop_args n st (v # args))"

definition call_function :: "('f, 'r) expr_env \<Rightarrow> u32 \<Rightarrow> 'f variable list \<Rightarrow> 'f variable" where
  "call_function env fid args =
     (if unat fid < length (env_functions env) then (env_functions env ! unat fid) args
      else eval_fnc env (fid - of_nat (length (env_functions env))) args)"

definition array_access :: "('f, 'r) expr_env \<Rightarrow> 'f variable \<Rightarrow> 'f variable \<Rightarrow> 'f variable" where
  "array_access env array ix =
     (let i = (case to_usize (env_floats env) ix of Some i \<Rightarrow> unat i | None \<Rightarrow> 0); l = into_array array in
      if i < length l then l ! i else var_default)"

definition regex_match :: "('f, 'r) expr_env \<Rightarrow> 'r \<Rightarrow> 'f variable \<Rightarrow> 'f variable \<times> bytes list" where
  "regex_match env r v =
     (let captures = (case regex_captures env r (var_to_string (env_floats env) v) of
                        Some cs \<Rightarrow> map (\<lambda>c. case c of Some s \<Rightarrow> s | None \<Rightarrow> []) cs
                      | None \<Rightarrow> [])
      in (var_of_bool (captures \<noteq> []), captures))"

text \<open>One item: how many of the following ones to skip, and the new state.\<close>

definition eval_item :: "('f, 'r) expr_env \<Rightarrow> ('f, 'r) expr_item \<Rightarrow> 'f machine \<Rightarrow> nat \<times> 'f machine" where
  "eval_item env item m =
     (let (st, captures) = m; F = env_floats env in
      case item of
        IVariable v \<Rightarrow> (0, resolve_variable env v # st, captures)
      | IConstant c \<Rightarrow> (0, var_of_constant c # st, captures)
      | ICapture v \<Rightarrow>
          (0, VString (if unat v < length captures then captures ! unat v else []) # st, captures)
      | IUnary op \<Rightarrow> (let (v, st) = pop_default st in (0, apply_unary F op v # st, captures))
      | IBinary op \<Rightarrow>
          (let (right, st) = pop_default st; (left, st) = pop_default st in
           (0, apply_binary F op left right # st, captures))
      | IFunction fid num_args \<Rightarrow>
          (let (args, st) = pop_args (unat num_args) st [] in (0, call_function env fid args # st, captures))
      | IJmpIf val pos \<Rightarrow>
          (if (case st of [] \<Rightarrow> False | v # _ \<Rightarrow> to_bool F v) = val then unat pos else 0, st, captures)
      | IArrayAccess \<Rightarrow>
          (let (ix, st) = pop_default st; (array, st) = pop_default st in (0, array_access env array ix # st, captures))
      | IArrayBuild num_items \<Rightarrow>
          (let (items, st) = pop_args (unat num_items) st [] in (0, VArray items # st, captures))
      | IRegex r \<Rightarrow>
          (let (v, st) = pop_default st; (res, captures) = regex_match env r v in (0, res # st, captures)))"

function eval_items :: "('f, 'r) expr_env \<Rightarrow> ('f, 'r) expr_item list \<Rightarrow> 'f machine \<Rightarrow> 'f machine" where
  "eval_items env [] m = m"
| "eval_items env (item # items) m = (let (skip, m) = eval_item env item m in eval_items env (drop skip items) m)"
  by pat_completeness auto

termination
  by (relation "measure (\<lambda>(_, items, _). length items)") auto

definition expr_eval :: "('f, 'r) expr_env \<Rightarrow> ('f, 'r) expr_item list \<Rightarrow> bytes list \<Rightarrow> 'f variable \<times> bytes list" where
  "expr_eval env items captures =
     (let (st, captures) = eval_items env items ([], captures) in (fst (pop_default st), captures))"

text \<open>Conditional values: the first condition that holds selects the value.\<close>

record ('f, 'r) if_then =
  it_expr :: "('f, 'r) expr_item list"
  it_then :: "('f, 'r) expr_item list"

record ('f, 'r) if_block =
  ib_if_then :: "('f, 'r) if_then list"
  ib_default :: "('f, 'r) expr_item list"

fun if_then_eval :: "('f, 'r) expr_env \<Rightarrow> ('f, 'r) if_then list \<Rightarrow> ('f, 'r) expr_item list \<Rightarrow> bytes list \<Rightarrow> 'f variable" where
  "if_then_eval env [] dflt captures = fst (expr_eval env dflt captures)"
| "if_then_eval env (b # bs) dflt captures =
     (let (v, captures) = expr_eval env (it_expr b) captures in
      if to_bool (env_floats env) v then fst (expr_eval env (it_then b) captures)
      else if_then_eval env bs dflt captures)"

definition if_block_eval :: "('f, 'r) expr_env \<Rightarrow> ('f, 'r) if_block \<Rightarrow> 'f variable" where
  "if_block_eval env b = if_then_eval env (ib_if_then b) (ib_default b) []"

definition if_block_is_empty :: "('f, 'r) if_block \<Rightarrow> bool" where
  "if_block_is_empty b \<longleftrightarrow> ib_default b = [] \<and> ib_if_then b = []"

text \<open>The results converted to what the caller expects; an empty block or expression has none.\<close>

definition eval_if :: "('f variable \<Rightarrow> 'b option) \<Rightarrow> ('f, 'r) expr_env \<Rightarrow> ('f, 'r) if_block \<Rightarrow> 'b option" where
  "eval_if try_into env b = (if if_block_is_empty b then None else try_into (if_block_eval env b))"

definition eval_expr :: "('f variable \<Rightarrow> 'b option) \<Rightarrow> ('f, 'r) expr_env \<Rightarrow> ('f, 'r) expr_item list \<Rightarrow> 'b option" where
  "eval_expr try_into env items = (if items = [] then None else try_into (fst (expr_eval env items [])))"

section \<open>What an expression means\<close>

datatype ('f, 'r) ast =
    EVar u32
  | ECapture u32
  | EConst "'f expr_constant"
  | EUn unary_operator "('f, 'r) ast"
  | EBin binary_operator "('f, 'r) ast" "('f, 'r) ast"
  | ECall bytes u32 "('f, 'r) ast list"
  | EMatch 'r "('f, 'r) ast"
  | EIndex "('f, 'r) ast" "('f, 'r) ast"
  | EArr "('f, 'r) ast list"

text \<open>
  Operands are evaluated from left to right; \<open>&&\<close> and \<open>||\<close> skip the right one when the left one
  decides, and then have the value of the left one.
\<close>

definition decides :: "('f, 'r) expr_env \<Rightarrow> binary_operator \<Rightarrow> 'f variable \<Rightarrow> bool" where
  "decides env op v =
     (case op of BAnd \<Rightarrow> \<not> to_bool (env_floats env) v | BOr \<Rightarrow> to_bool (env_floats env) v | _ \<Rightarrow> False)"

fun sem :: "('f, 'r) expr_env \<Rightarrow> ('f, 'r) ast \<Rightarrow> bytes list \<Rightarrow> 'f variable \<times> bytes list"
  and sems :: "('f, 'r) expr_env \<Rightarrow> ('f, 'r) ast list \<Rightarrow> bytes list \<Rightarrow> 'f variable list \<times> bytes list" where
  "sem env (EVar v) cs = (resolve_variable env v, cs)"
| "sem env (ECapture v) cs = (VString (if unat v < length cs then cs ! unat v else []), cs)"
| "sem env (EConst c) cs = (var_of_constant c, cs)"
| "sem env (EUn op e) cs = (let (v, cs) = sem env e cs in (apply_unary (env_floats env) op v, cs))"
| "sem env (EBin op a b) cs =
     (let (va, cs) = sem env a cs in
      if decides env op va then (va, cs)
      else let (vb, cs) = sem env b cs in (apply_binary (env_floats env) op va vb, cs))"
| "sem env (ECall _ fid es) cs = (let (vs, cs) = sems env es cs in (call_function env fid vs, cs))"
| "sem env (EMatch r e) cs = (let (v, cs) = sem env e cs in regex_match env r v)"
| "sem env (EIndex e i) cs =
     (let (va, cs) = sem env e cs; (vi, cs) = sem env i cs in (array_access env va vi, cs))"
| "sem env (EArr es) cs = (let (vs, cs) = sems env es cs in (VArray vs, cs))"
| "sems env [] cs = ([], cs)"
| "sems env (e # es) cs = (let (v, cs) = sem env e cs; (vs, cs) = sems env es cs in (v # vs, cs))"

section \<open>Code of an expression\<close>

definition jump_over :: "binary_operator \<Rightarrow> nat \<Rightarrow> ('f, 'r) expr_item list" where
  "jump_over op n =
     (case op of BAnd \<Rightarrow> [IJmpIf False (of_nat n)] | BOr \<Rightarrow> [IJmpIf True (of_nat n)] | _ \<Rightarrow> [])"

fun compile :: "('f, 'r) ast \<Rightarrow> ('f, 'r) expr_item list" where
  "compile (EVar v) = [IVariable v]"
| "compile (ECapture v) = [ICapture v]"
| "compile (EConst c) = [IConstant c]"
| "compile (EUn op e) = compile e @ [IUnary op]"
| "compile (EBin op a b) = compile a @ jump_over op (length (compile b) + 1) @ compile b @ [IBinary op]"
| "compile (ECall _ fid es) = concat (map compile es) @ [IFunction fid (of_nat (length es))]"
| "compile (EMatch r e) = compile e @ [IRegex r]"
| "compile (EIndex e i) = compile e @ compile i @ [IArrayAccess]"
| "compile (EArr es) = concat (map compile es) @ [IArrayBuild (of_nat (length es))]"

section \<open>The code computes the meaning\<close>

text \<open>Jumps and counts fit their 32 bits.\<close>

fun code_fits :: "('f, 'r) ast \<Rightarrow> bool" where
  "code_fits (EUn _ e) = code_fits e"
| "code_fits (EBin _ a b) = (code_fits a \<and> code_fits b \<and> length (compile b) + 1 < 2 ^ 32)"
| "code_fits (ECall _ _ es) = (length es < 2 ^ 32 \<and> list_all code_fits es)"
| "code_fits (EMatch _ e) = code_fits e"
| "code_fits (EIndex e i) = (code_fits e \<and> code_fits i)"
| "code_fits (EArr es) = (length es < 2 ^ 32 \<and> list_all code_fits es)"
| "code_fits _ = True"

lemma pop_args_rev: "pop_args (length vs) (rev vs @ st) args = (vs @ args, st)"
  by (induction vs arbitrary: args rule: rev_induct) (simp_all add: pop_default_def)

lemma pop_default_Cons [simp]: "pop_default (v # st) = (v, st)"
  by (simp add: pop_default_def)

lemma length_sems: "sems env es cs = (vs, cs') \<Longrightarrow> length vs = length es"
  by (induction es arbitrary: cs vs) (auto split: prod.splits)

lemma pop_args_sems: "sems env es cs = (vs, cs') \<Longrightarrow> pop_args (length es) (rev vs @ st) [] = (vs, st)"
  using length_sems [of env es cs vs cs'] pop_args_rev [of vs st "[]"] by simp

lemma eval_jump:
  assumes "n < 2 ^ 32"
  shows "eval_items env (jump_over op n @ items) (v # st, cs)
    = eval_items env (if decides env op v then drop n items else items) (v # st, cs)"
  using assms by (cases op) (simp_all add: jump_over_def decides_def eval_item_def unat_of_nat_less)

lemma eval_compile:
  "code_fits e \<Longrightarrow> sem env e cs = (v, cs') \<Longrightarrow> eval_items env (compile e @ items) (st, cs) = eval_items env items (v # st, cs')"
  and eval_compiles:
  "list_all code_fits es \<Longrightarrow> sems env es cs = (vs, cs') \<Longrightarrow>
     eval_items env (concat (map compile es) @ items) (st, cs) = eval_items env items (rev vs @ st, cs')"
proof (induction env e cs and env es cs arbitrary: v cs' st items and vs cs' st items rule: sem_sems.induct)
  case (5 env op a b cs)
  then show ?case
    by (fastforce simp: eval_jump eval_item_def split: prod.splits if_splits)
next
  case (6 env nm fid es cs)
  then show ?case
    by (auto simp: eval_item_def pop_args_sems unat_of_nat_less split: prod.splits)
next
  case (9 env es cs)
  then show ?case
    by (auto simp: eval_item_def pop_args_sems unat_of_nat_less split: prod.splits)
next
  case (11 env e es cs)
  then show ?case
    by (fastforce split: prod.splits)
qed (auto simp: eval_item_def split: prod.splits)

text \<open>Evaluating the code of an expression on an empty stack gives its meaning.\<close>

lemma expr_eval_compile:
  assumes "code_fits e"
  shows "expr_eval env (compile e) cs = sem env e cs"
proof (cases "sem env e cs")
  case (Pair v cs')
  then show ?thesis
    using assms eval_compile [of e env cs v cs' "[]" "[]"] by (simp add: expr_eval_def)
qed

end
