(* ===== verification/ExprParser.thy ===== *)
theory ExprParser
  imports ExprEval
begin

text \<open>
  The parser of expressions (crates/common/src/expr/parser.rs): operators wait on a stack, with the
  position of the jump to be completed, until an operator that binds less tightly, a closing
  bracket, a comma or the end of the input. No sequence of tokens makes it panic.
\<close>

section \<open>Tokens and state\<close>

datatype ('f, 'r) expr_token =
    TVariable u32
  | TCapture u32
  | TFunction bytes u32 u32
  | TConstant "'f expr_constant"
  | TRegex 'r
  | TBinary binary_operator
  | TUnary unary_operator
  | TOpenParen
  | TCloseParen
  | TOpenBracket
  | TCloseBracket
  | TComma

text \<open>The errors of the parser, then those of the tokenizer; \<open>ParserPanic\<close> is an \<^verbatim>\<open>unwrap\<close> or an index that fails.\<close>

datatype expr_error =
    MismatchedParentheses
  | WrongArguments bytes u32 int
  | MissingArrayIndex
  | MatchesArguments
  | InvalidOperatorStack
  | ParserPanic
  | UnmatchedClose
  | UnmatchedOpen
  | InvalidCharacter u8
  | ExpectedCharacter u8 u8
  | UnexpectedEnd
  | InvalidUtf8
  | UnterminatedString
  | InvalidFloat bytes
  | InvalidInteger bytes
  | InvalidVariable bytes
  | InvalidRegex bytes

definition ID_ARRAY_ACCESS :: u32 where
  "ID_ARRAY_ACCESS = -1"

definition ID_ARRAY_BUILD :: u32 where
  "ID_ARRAY_BUILD = -1 - 1"

text \<open>Stacks have their top first.\<close>

type_synonym ('f, 'r) operators = "(('f, 'r) expr_token \<times> nat option) list"

record ('f, 'r) expr_parser =
  ep_output :: "('f, 'r) expr_item list"
  ep_operators :: "('f, 'r) operators"
  ep_args :: "int list"
  ep_last_is_var :: bool

definition expr_parser_new :: "('f, 'r) expr_parser" where
  "expr_parser_new = \<lparr>ep_output = [], ep_operators = [], ep_args = [], ep_last_is_var = False\<rparr>"

section \<open>Helpers\<close>

fun precedence :: "binary_operator \<Rightarrow> nat" where
  "precedence BMultiply = 7"
| "precedence BDivide = 7"
| "precedence BAdd = 6"
| "precedence BSubtract = 6"
| "precedence BGt = 5"
| "precedence BGe = 5"
| "precedence BLt = 5"
| "precedence BLe = 5"
| "precedence BEq = 4"
| "precedence BNe = 4"
| "precedence BXor = 3"
| "precedence BAnd = 2"
| "precedence BOr = 1"

definition count_argument :: "('f, 'r) expr_token \<times> nat option \<Rightarrow> ('f, 'r) expr_token \<times> nat option" where
  "count_argument op =
     (case op of
        (TFunction nm fid n, j) \<Rightarrow> if fid = ID_ARRAY_BUILD then (TFunction nm fid (n + 1), j) else op
      | _ \<Rightarrow> op)"

text \<open>The second operator from the top, or the only one.\<close>

fun count_second :: "('f, 'r) operators \<Rightarrow> ('f, 'r) operators" where
  "count_second [] = []"
| "count_second [op] = [count_argument op]"
| "count_second (op # op' # ops) = op # count_argument op' # ops"

definition inc_arg_count :: "('f, 'r) expr_parser \<Rightarrow> ('f, 'r) expr_parser" where
  "inc_arg_count p =
     (case ep_args p of
        [] \<Rightarrow> p
      | x # xs \<Rightarrow> p\<lparr>ep_args := min (2 ^ 31 - 1) (x + 1) # xs, ep_operators := count_second (ep_operators p)\<rparr>)"

definition dec_arg_count :: "('f, 'r) expr_parser \<Rightarrow> ('f, 'r) expr_parser" where
  "dec_arg_count p =
     (case ep_args p of [] \<Rightarrow> p | x # xs \<Rightarrow> p\<lparr>ep_args := max (- (2 ^ 31)) (x - 1) # xs\<rparr>)"

definition update_jmp_pos :: "nat option \<Rightarrow> ('f, 'r) expr_item list \<Rightarrow> expr_error + ('f, 'r) expr_item list" where
  "update_jmp_pos jmp_pos out =
     (case jmp_pos of
        None \<Rightarrow> Inr out
      | Some j \<Rightarrow>
          (case drop j out of
             [] \<Rightarrow> Inl ParserPanic
           | IJmpIf v _ # _ \<Rightarrow> Inr (out[j := IJmpIf v (of_nat (length out - j))])
           | _ # _ \<Rightarrow> Inr out))"

definition emit_binary ::
  "binary_operator \<Rightarrow> nat option \<Rightarrow> ('f, 'r) expr_item list \<Rightarrow> expr_error + ('f, 'r) expr_item list" where
  "emit_binary bop jmp_pos out = sbind (update_jmp_pos jmp_pos out) (\<lambda>out. Inr (out @ [IBinary bop]))"

section \<open>The loops over the operator stack\<close>

text \<open>At a closing bracket, down to the opening one.\<close>

fun close_group :: "('f, 'r) expr_token \<Rightarrow> ('f, 'r) expr_item list \<Rightarrow> ('f, 'r) operators \<Rightarrow>
    expr_error + ('f, 'r) expr_item list \<times> ('f, 'r) operators" where
  "close_group expect out [] = Inl MismatchedParentheses"
| "close_group expect out ((t, j) # ops) =
     (if t = expect then Inr (out, ops)
      else case t of
        TBinary bop \<Rightarrow> sbind (emit_binary bop j out) (\<lambda>out. close_group expect out ops)
      | TUnary uop \<Rightarrow> close_group expect (out @ [IUnary uop]) ops
      | _ \<Rightarrow> Inl MismatchedParentheses)"

text \<open>At a binary operator, those that bind at least as tightly.\<close>

fun reduce_binary :: "binary_operator \<Rightarrow> ('f, 'r) expr_item list \<Rightarrow> ('f, 'r) operators \<Rightarrow>
    expr_error + ('f, 'r) expr_item list \<times> ('f, 'r) operators" where
  "reduce_binary bop out [] = Inr (out, [])"
| "reduce_binary bop out ((t, j) # ops) =
     (case t of
        TBinary top_bop \<Rightarrow>
          if precedence bop \<le> precedence top_bop
          then sbind (emit_binary top_bop j out) (\<lambda>out. reduce_binary bop out ops)
          else Inr (out, (t, j) # ops)
      | TUnary top_uop \<Rightarrow> reduce_binary bop (out @ [IUnary top_uop]) ops
      | _ \<Rightarrow> Inr (out, (t, j) # ops))"

text \<open>At a comma, all of them.\<close>

fun reduce_comma :: "('f, 'r) expr_item list \<Rightarrow> ('f, 'r) operators \<Rightarrow>
    expr_error + ('f, 'r) expr_item list \<times> ('f, 'r) operators" where
  "reduce_comma out [] = Inr (out, [])"
| "reduce_comma out ((t, j) # ops) =
     (case t of
        TBinary bop \<Rightarrow> sbind (emit_binary bop j out) (\<lambda>out. reduce_comma out ops)
      | TUnary uop \<Rightarrow> reduce_comma (out @ [IUnary uop]) ops
      | _ \<Rightarrow> Inr (out, (t, j) # ops))"

text \<open>At the end nothing else may be left.\<close>

fun finish :: "('f, 'r) expr_item list \<Rightarrow> ('f, 'r) operators \<Rightarrow> expr_error + ('f, 'r) expr_item list" where
  "finish out [] = Inr out"
| "finish out ((t, j) # ops) =
     (case t of
        TBinary bop \<Rightarrow> sbind (emit_binary bop j out) (\<lambda>out. finish out ops)
      | TUnary uop \<Rightarrow> finish (out @ [IUnary uop]) ops
      | _ \<Rightarrow> Inl InvalidOperatorStack)"

section \<open>One token\<close>

text \<open>After a closing bracket: the function, index or array that it ends.\<close>

definition call_item :: "u32 \<Rightarrow> u32 \<Rightarrow> ('f, 'r) expr_item" where
  "call_item fid num_args =
     (if fid = ID_ARRAY_ACCESS then IArrayAccess
      else if fid = ID_ARRAY_BUILD then IArrayBuild num_args
      else IFunction fid num_args)"

definition close_call :: "('f, 'r) expr_parser \<Rightarrow> expr_error + ('f, 'r) expr_parser" where
  "close_call p =
     (case ep_operators p of
        (TFunction nm fid num_args, _) # ops \<Rightarrow>
          (case ep_args p of
             [] \<Rightarrow> Inl ParserPanic
           | got_args # args \<Rightarrow>
               if got_args \<noteq> sint num_args
               then Inl (if fid \<noteq> -1 then WrongArguments nm num_args got_args else MissingArrayIndex)
               else Inr (p\<lparr>ep_output := ep_output p @ [call_item fid num_args], ep_operators := ops, ep_args := args\<rparr>))
      | (TRegex r, _) # ops \<Rightarrow>
          (case ep_args p of
             [] \<Rightarrow> Inl ParserPanic
           | got_args # args \<Rightarrow>
               if got_args \<noteq> 1 then Inl MatchesArguments
               else Inr (p\<lparr>ep_output := ep_output p @ [IRegex r], ep_operators := ops, ep_args := args\<rparr>))
      | _ \<Rightarrow> Inr p)"

definition parse_close :: "('f, 'r) expr_token \<Rightarrow> ('f, 'r) expr_parser \<Rightarrow> expr_error + ('f, 'r) expr_parser" where
  "parse_close expect p =
     sbind (close_group expect (ep_output p) (ep_operators p)) (\<lambda>(out, ops).
     sbind (close_call (p\<lparr>ep_output := out, ep_operators := ops\<rparr>)) (\<lambda>p. Inr (p\<lparr>ep_last_is_var := True\<rparr>)))"

definition push_output :: "('f, 'r) expr_item \<Rightarrow> bool \<Rightarrow> ('f, 'r) expr_parser \<Rightarrow> ('f, 'r) expr_parser" where
  "push_output i v p = p\<lparr>ep_output := ep_output p @ [i], ep_last_is_var := v\<rparr>"

definition push_operator :: "('f, 'r) expr_token \<Rightarrow> nat option \<Rightarrow> ('f, 'r) expr_parser \<Rightarrow> ('f, 'r) expr_parser" where
  "push_operator t j p = p\<lparr>ep_operators := (t, j) # ep_operators p, ep_last_is_var := False\<rparr>"

definition push_args :: "int \<Rightarrow> ('f, 'r) expr_parser \<Rightarrow> ('f, 'r) expr_parser" where
  "push_args n p = p\<lparr>ep_args := n # ep_args p\<rparr>"

definition parse_binary :: "binary_operator \<Rightarrow> ('f, 'r) expr_parser \<Rightarrow> expr_error + ('f, 'r) expr_parser" where
  "parse_binary bop p =
     (let p = dec_arg_count p in
      sbind (reduce_binary bop (ep_output p) (ep_operators p)) (\<lambda>(out, ops).
      let (out, jmp_pos) =
            (case bop of
               BAnd \<Rightarrow> (out @ [IJmpIf False 0], Some (length out))
             | BOr \<Rightarrow> (out @ [IJmpIf True 0], Some (length out))
             | _ \<Rightarrow> (out, None))
      in Inr (push_operator (TBinary bop) jmp_pos (p\<lparr>ep_output := out, ep_operators := ops\<rparr>))))"

definition parse_token :: "('f, 'r) expr_token \<Rightarrow> ('f, 'r) expr_parser \<Rightarrow> expr_error + ('f, 'r) expr_parser" where
  "parse_token t p =
     (case t of
        TVariable v \<Rightarrow> Inr (push_output (IVariable v) True (inc_arg_count p))
      | TConstant c \<Rightarrow> Inr (push_output (IConstant c) False (inc_arg_count p))
      | TCapture c \<Rightarrow> Inr (push_output (ICapture c) False (inc_arg_count p))
      | TUnary uop \<Rightarrow> Inr (push_operator t None p)
      | TOpenParen \<Rightarrow> Inr (push_operator t None p)
      | TCloseParen \<Rightarrow> parse_close TOpenParen p
      | TCloseBracket \<Rightarrow> parse_close TOpenBracket p
      | TBinary bop \<Rightarrow> parse_binary bop p
      | TFunction _ _ _ \<Rightarrow> Inr (push_operator t None (push_args 0 (inc_arg_count p)))
      | TRegex _ \<Rightarrow> Inr (push_operator t None (push_args 0 (inc_arg_count p)))
      | TOpenBracket \<Rightarrow>
          (let (fid, num_args, arg_count, p) =
                 (if ep_last_is_var p then (ID_ARRAY_ACCESS, 2, 1, p) else (ID_ARRAY_BUILD, 0, 0, inc_arg_count p))
           in Inr (push_operator t None (push_operator (TFunction (lit ''array'') fid num_args) None (push_args arg_count p))))
      | TComma \<Rightarrow>
          sbind (reduce_comma (ep_output p) (ep_operators p)) (\<lambda>(out, ops).
            Inr (p\<lparr>ep_output := out, ep_operators := ops, ep_last_is_var := False\<rparr>)))"

fun parse_loop :: "('f, 'r) expr_token list \<Rightarrow> ('f, 'r) expr_parser \<Rightarrow> expr_error + ('f, 'r) expr_parser" where
  "parse_loop [] p = Inr p"
| "parse_loop (t # ts) p = sbind (parse_token t p) (parse_loop ts)"

text \<open>The tokens up to the end or up to where the tokenizer failed.\<close>

definition expr_parse :: "('f, 'r) expr_token list \<times> expr_error option \<Rightarrow> expr_error + ('f, 'r) expr_item list" where
  "expr_parse tokens =
     sbind (parse_loop (fst tokens) expr_parser_new) (\<lambda>p.
     case snd tokens of
       Some e \<Rightarrow> Inl e
     | None \<Rightarrow> finish (ep_output p) (ep_operators p))"

section \<open>No panic\<close>

text \<open>
  Positions on the stack are of jumps in the output, and every function or regular expression on
  the stack has its count of arguments.
\<close>

definition is_jump :: "('f, 'r) expr_item \<Rightarrow> bool" where
  "is_jump i = (case i of IJmpIf _ _ \<Rightarrow> True | _ \<Rightarrow> False)"

definition is_call :: "('f, 'r) expr_token \<Rightarrow> bool" where
  "is_call t = (case t of TFunction _ _ _ \<Rightarrow> True | TRegex _ \<Rightarrow> True | _ \<Rightarrow> False)"

definition jump_ok :: "('f, 'r) expr_item list \<Rightarrow> nat option \<Rightarrow> bool" where
  "jump_ok out j = (case j of None \<Rightarrow> True | Some j \<Rightarrow> j < length out \<and> is_jump (out ! j))"

definition jumps_ok :: "('f, 'r) expr_item list \<Rightarrow> ('f, 'r) operators \<Rightarrow> bool" where
  "jumps_ok out ops = list_all (\<lambda>(_, j). jump_ok out j) ops"

definition calls :: "('f, 'r) operators \<Rightarrow> nat" where
  "calls ops = length (filter (is_call \<circ> fst) ops)"

definition parser_wf :: "('f, 'r) expr_parser \<Rightarrow> bool" where
  "parser_wf p \<longleftrightarrow> jumps_ok (ep_output p) (ep_operators p) \<and> calls (ep_operators p) = length (ep_args p)"

lemma is_jump_JmpIf [simp]: "is_jump (IJmpIf v q)"
  by (simp add: is_jump_def)

lemma is_jumpE: "is_jump i \<Longrightarrow> (\<And>v q. i = IJmpIf v q \<Longrightarrow> P) \<Longrightarrow> P"
  by (cases i) (simp_all add: is_jump_def)

lemma is_call_simps [simp]:
  "is_call (TFunction nm i n)" "is_call (TRegex r)" "\<not> is_call (TBinary b)" "\<not> is_call (TUnary u)"
  "\<not> is_call TOpenParen" "\<not> is_call TOpenBracket"
  by (simp_all add: is_call_def)

lemma jump_ok_None [simp]: "jump_ok out None"
  by (simp add: jump_ok_def)

lemma jumps_ok_simps [simp]:
  "jumps_ok out []" "jumps_ok out ((t, j) # ops) \<longleftrightarrow> jump_ok out j \<and> jumps_ok out ops"
  by (simp_all add: jumps_ok_def)

lemma calls_simps [simp]:
  "calls [] = 0" "calls ((t, j) # ops) = (if is_call t then Suc (calls ops) else calls ops)"
  by (simp_all add: calls_def)

lemma jump_ok_append: "jump_ok out j \<Longrightarrow> jump_ok (out @ is) j"
  by (auto simp: jump_ok_def nth_append split: option.splits)

lemma jump_ok_update: "is_jump i \<Longrightarrow> jump_ok out j \<Longrightarrow> jump_ok (out[k := i]) j"
  by (cases j; cases "the j = k") (simp_all add: jump_ok_def)

lemma jumps_ok_append [simp]: "jumps_ok out ops \<Longrightarrow> jumps_ok (out @ is) ops"
  unfolding jumps_ok_def by (rule list.pred_mono_strong, assumption) (auto intro: jump_ok_append)

lemma jumps_ok_update: "is_jump i \<Longrightarrow> jumps_ok out ops \<Longrightarrow> jumps_ok (out[k := i]) ops"
  unfolding jumps_ok_def by (rule list.pred_mono_strong, assumption) (auto intro: jump_ok_update)

lemma emit_binary_ok:
  assumes "jump_ok out j" "jumps_ok out ops"
  obtains out' where "emit_binary bop j out = Inr out'" "jumps_ok out' ops"
proof (cases j)
  case None
  with assms that show ?thesis by (simp add: emit_binary_def update_jmp_pos_def)
next
  case (Some k)
  with assms obtain v q where k: "k < length out" "out ! k = IJmpIf v q"
    by (auto simp: jump_ok_def elim: is_jumpE)
  with Some assms show ?thesis
    by (intro that [of "out[k := IJmpIf v (of_nat (length out - k))] @ [IBinary bop]"])
      (simp_all add: emit_binary_def update_jmp_pos_def Cons_nth_drop_Suc [symmetric] jumps_ok_update)
qed

text \<open>The loops keep the jumps and drop no call.\<close>

definition reduced :: "('f, 'r) operators \<Rightarrow> expr_error + ('f, 'r) expr_item list \<times> ('f, 'r) operators \<Rightarrow> bool" where
  "reduced ops r =
     (case r of Inl e \<Rightarrow> e \<noteq> ParserPanic | Inr (out', ops') \<Rightarrow> jumps_ok out' ops' \<and> calls ops' = calls ops)"

lemma reduced_simps [simp]:
  "reduced ops (Inl e) \<longleftrightarrow> e \<noteq> ParserPanic" "reduced ops (Inr (out', ops')) \<longleftrightarrow> jumps_ok out' ops' \<and> calls ops' = calls ops"
  by (simp_all add: reduced_def)

lemma reduced_Cons: "\<not> is_call t \<Longrightarrow> reduced ((t, j) # ops) r \<longleftrightarrow> reduced ops r"
  by (simp add: reduced_def split: sum.split)

lemma reduced_emit:
  assumes "jump_ok out j" "jumps_ok out ops" "\<And>out. jumps_ok out ops \<Longrightarrow> reduced ops (f out)"
  shows "reduced ops (sbind (emit_binary bop j out) f)"
  using assms by (metis emit_binary_ok sbind_simps(2))

lemma close_group_ok:
  "jumps_ok out ops \<Longrightarrow> \<not> is_call expect \<Longrightarrow> reduced ops (close_group expect out ops)"
  by (induction expect out ops rule: close_group.induct)
    (auto simp: reduced_Cons split: expr_token.split intro!: reduced_emit)

lemma reduce_binary_ok: "jumps_ok out ops \<Longrightarrow> reduced ops (reduce_binary bop out ops)"
  by (induction bop out ops rule: reduce_binary.induct)
    (auto simp: reduced_Cons split: expr_token.split intro!: reduced_emit)

lemma reduce_comma_ok: "jumps_ok out ops \<Longrightarrow> reduced ops (reduce_comma out ops)"
  by (induction out ops rule: reduce_comma.induct)
    (auto simp: reduced_Cons split: expr_token.split intro!: reduced_emit)

lemma finish_ok: "jumps_ok out ops \<Longrightarrow> finish out ops \<noteq> Inl ParserPanic"
proof (induction out ops rule: finish.induct)
  case (2 out t j ops)
  then have "sbind (emit_binary bop j out) (\<lambda>out. finish out ops) \<noteq> Inl ParserPanic" if "t = TBinary bop" for bop
    using that emit_binary_ok [of out j ops bop] by (metis jumps_ok_simps(2) sbind_simps(2))
  with 2 show ?case
    by (cases t) simp_all
qed simp

text \<open>Every token keeps the invariant or ends with an error other than a panic.\<close>

definition parsed :: "expr_error + ('f, 'r) expr_parser \<Rightarrow> bool" where
  "parsed r = (case r of Inl e \<Rightarrow> e \<noteq> ParserPanic | Inr p \<Rightarrow> parser_wf p)"

lemma parsed_simps [simp]: "parsed (Inl e) \<longleftrightarrow> e \<noteq> ParserPanic" "parsed (Inr p) \<longleftrightarrow> parser_wf p"
  by (simp_all add: parsed_def)

lemma count_argument_ok:
  "jumps_ok out (count_argument op # ops) = jumps_ok out (op # ops)" "calls (count_argument op # ops) = calls (op # ops)"
  by (auto simp: count_argument_def split: prod.split expr_token.split)

lemma count_second_ok: "jumps_ok out (count_second ops) = jumps_ok out ops" "calls (count_second ops) = calls ops"
  by (induction ops rule: count_second.induct) (auto simp: count_argument_ok)

lemma inc_arg_count_wf [simp]: "parser_wf p \<Longrightarrow> parser_wf (inc_arg_count p)"
  by (auto simp: inc_arg_count_def parser_wf_def count_second_ok split: list.splits)

lemma dec_arg_count_wf [simp]: "parser_wf p \<Longrightarrow> parser_wf (dec_arg_count p)"
  by (auto simp: dec_arg_count_def parser_wf_def split: list.splits)

lemma push_wf [simp]:
  "parser_wf p \<Longrightarrow> parser_wf (push_output i v p)"
  "parser_wf p \<Longrightarrow> \<not> is_call t \<Longrightarrow> jump_ok (ep_output p) j \<Longrightarrow> parser_wf (push_operator t j p)"
  "parser_wf p \<Longrightarrow> is_call t \<Longrightarrow> parser_wf (push_operator t None (push_args n p))"
  by (simp_all add: push_output_def push_operator_def push_args_def parser_wf_def)

lemma close_call_ok: "parser_wf p \<Longrightarrow> parsed (close_call p)"
  by (auto simp: close_call_def parser_wf_def split: list.splits expr_token.splits)

lemma parse_close_ok: "parser_wf p \<Longrightarrow> \<not> is_call expect \<Longrightarrow> parsed (parse_close expect p)"
proof -
  assume p: "parser_wf p" and e: "\<not> is_call expect"
  have r: "reduced (ep_operators p) (close_group expect (ep_output p) (ep_operators p))"
    using p e by (simp add: close_group_ok parser_wf_def)
  show ?thesis
  proof (cases "close_group expect (ep_output p) (ep_operators p)")
    case (Inr q)
    then have "parser_wf (p\<lparr>ep_output := fst q, ep_operators := snd q\<rparr>)"
      using r p by (cases q) (simp add: parser_wf_def)
    then have "parsed (close_call (p\<lparr>ep_output := fst q, ep_operators := snd q\<rparr>))"
      by (rule close_call_ok)
    then show ?thesis
      using Inr by (auto simp: parse_close_def parsed_def parser_wf_def sbind_def split: sum.splits prod.splits)
  qed (use r in \<open>simp add: parse_close_def\<close>)
qed

lemma parse_binary_ok: "parser_wf p \<Longrightarrow> parsed (parse_binary bop p)"
proof -
  assume p: "parser_wf p"
  define p' where "p' = dec_arg_count p"
  have p': "parser_wf p'" using p by (simp add: p'_def)
  then have r: "reduced (ep_operators p') (reduce_binary bop (ep_output p') (ep_operators p'))"
    by (simp add: reduce_binary_ok parser_wf_def)
  show ?thesis
  proof (cases "reduce_binary bop (ep_output p') (ep_operators p')")
    case (Inr q)
    then show ?thesis
      using r p' unfolding parse_binary_def Let_def p'_def [symmetric]
      by (cases q; cases bop) (simp_all add: parser_wf_def push_operator_def jump_ok_def)
  qed (use r in \<open>simp add: parse_binary_def p'_def\<close>)
qed

lemma parse_comma_ok: "parser_wf p \<Longrightarrow> parsed (parse_token TComma p)"
  using reduce_comma_ok [of "ep_output p" "ep_operators p"]
  by (auto simp: parse_token_def parser_wf_def reduced_def sbind_def split: sum.splits)

lemma parse_token_ok: "parser_wf p \<Longrightarrow> parsed (parse_token t p)"
  using parse_close_ok [of p TOpenParen] parse_close_ok [of p TOpenBracket] parse_binary_ok [of p] parse_comma_ok [of p]
  by (cases t) (simp_all add: parse_token_def Let_def)

lemma parse_loop_ok: "parser_wf p \<Longrightarrow> parsed (parse_loop ts p)"
proof (induction ts p rule: parse_loop.induct)
  case (2 t ts p)
  then show ?case
    using parse_token_ok [of p t] by (cases "parse_token t p") auto
qed simp

end
