(* ===== verification/ExprCompile.thy ===== *)
theory ExprCompile
  imports ExprParser
begin

text \<open>
  The parser of expressions is right: from the tokens that an expression is written with, by the
  precedence of its operators and with parentheses only where they are needed, it produces the code
  of that expression.
\<close>

section \<open>Writing an expression\<close>

text \<open>How tightly the operators bind: products, sums, order, equality, exclusive or, and, or.\<close>

fun binding :: "binary_operator \<Rightarrow> nat" where
  "binding BOr = 1"
| "binding BAnd = 2"
| "binding BXor = 3"
| "binding BEq = 4"
| "binding BNe = 4"
| "binding BLt = 5"
| "binding BLe = 5"
| "binding BGt = 5"
| "binding BGe = 5"
| "binding BAdd = 6"
| "binding BSubtract = 6"
| "binding BMultiply = 7"
| "binding BDivide = 7"

lemma binding_precedence [simp]: "binding op = precedence op"
  by (cases op) simp_all

definition parens :: "bool \<Rightarrow> ('f, 'r) expr_token list \<Rightarrow> ('f, 'r) expr_token list" where
  "parens b ts = (if b then TOpenParen # ts @ [TCloseParen] else ts)"

fun commas :: "('f, 'r) expr_token list list \<Rightarrow> ('f, 'r) expr_token list" where
  "commas [] = []"
| "commas [ts] = ts"
| "commas (ts # us # uss) = ts @ TComma # commas (us # uss)"

text \<open>
  Operators of the same precedence associate to the left. An index follows a variable, a call, an
  array or a closing bracket.
\<close>

fun tokens_of :: "nat \<Rightarrow> ('f, 'r) ast \<Rightarrow> ('f, 'r) expr_token list" where
  "tokens_of p (EVar v) = [TVariable v]"
| "tokens_of p (ECapture v) = parens (9 < p) [TCapture v]"
| "tokens_of p (EConst c) = parens (9 < p) [TConstant c]"
| "tokens_of p (EUn op e) = parens (8 < p) (TUnary op # tokens_of 8 e)"
| "tokens_of p (EBin op a b) =
     parens (binding op < p) (tokens_of (binding op) a @ TBinary op # tokens_of (Suc (binding op)) b)"
| "tokens_of p (ECall nm fid es) =
     TFunction nm fid (of_nat (length es)) # TOpenParen # commas (map (tokens_of 0) es) @ [TCloseParen]"
| "tokens_of p (EMatch r e) = TRegex r # TOpenParen # tokens_of 0 e @ [TCloseParen]"
| "tokens_of p (EIndex e i) = tokens_of 10 e @ TOpenBracket # tokens_of 0 i @ [TCloseBracket]"
| "tokens_of p (EArr es) = TOpenBracket # commas (map (tokens_of 0) es) @ [TCloseBracket]"

text \<open>
  The items of an array are counted by their first operand, which must not be inside parentheses
  or behind a unary operator.
\<close>

fun plain_start :: "nat \<Rightarrow> ('f, 'r) ast \<Rightarrow> bool" where
  "plain_start p (EUn _ _) = False"
| "plain_start p (EBin op a b) = (p \<le> binding op \<and> plain_start (binding op) a)"
| "plain_start p (EIndex e i) = plain_start 10 e"
| "plain_start p (ECapture _) = (p \<le> 9)"
| "plain_start p (EConst _) = (p \<le> 9)"
| "plain_start p _ = True"

fun writable :: "('f, 'r) ast \<Rightarrow> bool" where
  "writable (EUn _ e) = writable e"
| "writable (EBin _ a b) = (writable a \<and> writable b)"
| "writable (ECall _ fid es) =
     (fid \<noteq> ID_ARRAY_ACCESS \<and> fid \<noteq> ID_ARRAY_BUILD \<and> length es < 2 ^ 31 \<and> list_all writable es)"
| "writable (EMatch _ e) = writable e"
| "writable (EIndex e i) = (writable e \<and> writable i)"
| "writable (EArr es) = (length es < 2 ^ 31 \<and> list_all writable es \<and> list_all (plain_start 0) es)"
| "writable _ = True"

section \<open>Pending operators\<close>

text \<open>
  What an expression leaves on the stack: unary operators, and binary ones that bind at least as
  tightly as the place where the expression is written demands.
\<close>

definition pending :: "nat \<Rightarrow> ('f, 'r) operators \<Rightarrow> bool" where
  "pending p = list_all (\<lambda>(t, _). case t of TBinary b \<Rightarrow> p \<le> precedence b | TUnary _ \<Rightarrow> True | _ \<Rightarrow> False)"

text \<open>The stack below an expression written at level \<open>p\<close>: its operators do not touch it.\<close>

definition below :: "nat \<Rightarrow> ('f, 'r) operators \<Rightarrow> bool" where
  "below p ops =
     (case ops of
        [] \<Rightarrow> True
      | (t, _) # _ \<Rightarrow>
          (case t of
             TBinary b \<Rightarrow> precedence b < p
           | TUnary _ \<Rightarrow> 8 \<le> p
           | TOpenParen \<Rightarrow> True
           | TOpenBracket \<Rightarrow> True
           | _ \<Rightarrow> False))"

lemma pending_simps [simp]:
  "pending p []"
  "pending p ((TBinary b, j) # ops) \<longleftrightarrow> p \<le> precedence b \<and> pending p ops"
  "pending p ((TUnary u, j) # ops) \<longleftrightarrow> pending p ops"
  "pending p (ops @ ops') \<longleftrightarrow> pending p ops \<and> pending p ops'"
  by (simp_all add: pending_def)

lemma pending_mono: "pending q ops \<Longrightarrow> p \<le> q \<Longrightarrow> pending p ops"
  unfolding pending_def by (rule list.pred_mono_strong, assumption) (auto split: expr_token.splits)

lemma pending_cases [consumes 1, case_names Nil Binary Unary]:
  assumes "pending p ops"
  obtains "ops = []"
  | b j ops' where "ops = (TBinary b, j) # ops'" "p \<le> precedence b" "pending p ops'"
  | u j ops' where "ops = (TUnary u, j) # ops'" "pending p ops'"
  using assms by (cases ops) (auto simp: pending_def split: expr_token.splits)

lemma pending_induct [consumes 1, case_names Nil Binary Unary]:
  assumes "pending p ops" "\<And>out. P out []"
    "\<And>out b j ops. p \<le> precedence b \<Longrightarrow> pending p ops \<Longrightarrow> (\<And>out. P out ops) \<Longrightarrow> P out ((TBinary b, j) # ops)"
    "\<And>out u j ops. pending p ops \<Longrightarrow> (\<And>out. P out ops) \<Longrightarrow> P out ((TUnary u, j) # ops)"
  shows "P out ops"
  using assms(1)
proof (induction ops arbitrary: out)
  case (Cons op ops)
  from Cons.prems show ?case
    by (cases rule: pending_cases) (use assms Cons.IH in auto)
qed (use assms in simp)

text \<open>On pending operators the loops of the parser do what \<^const>\<open>finish\<close> does, and stop below them.\<close>

lemma finish_append: "finish out (ops @ ops') = sbind (finish out ops) (\<lambda>out. finish out ops')"
  by (induction out ops rule: finish.induct) (auto simp: sbind_def split: expr_token.split sum.split)

lemma close_pending:
  "pending p ops \<Longrightarrow> t = TOpenParen \<or> t = TOpenBracket \<Longrightarrow>
     close_group t out (ops @ (t, j) # bs) = sbind (finish out ops) (\<lambda>out. Inr (out, bs))"
  by (induction out ops rule: pending_induct) (auto simp: sbind_def split: sum.split)

lemma comma_pending:
  "pending p ops \<Longrightarrow> t = TOpenParen \<or> t = TOpenBracket \<Longrightarrow>
     reduce_comma out (ops @ (t, j) # bs) = sbind (finish out ops) (\<lambda>out. Inr (out, (t, j) # bs))"
  by (induction out ops rule: pending_induct) (auto simp: sbind_def split: sum.split)

lemma reduce_below: "below (precedence op) ops \<Longrightarrow> reduce_binary op out ops = Inr (out, ops)"
proof (cases ops)
  case (Cons top ops')
  assume "below (precedence op) ops"
  moreover have "precedence op < 8" by (cases op) simp_all
  ultimately show ?thesis using Cons by (auto simp: below_def split: expr_token.splits)
qed simp

lemma reduce_pending:
  "pending p ops \<Longrightarrow> precedence op \<le> p \<Longrightarrow> below (precedence op) bs \<Longrightarrow>
     reduce_binary op out (ops @ bs) = sbind (finish out ops) (\<lambda>out. Inr (out, bs))"
  by (induction out ops rule: pending_induct) (auto simp: reduce_below sbind_def split: sum.split)

section \<open>Reading an expression\<close>

text \<open>
  \<open>reads p ts e\<close>: wherever an expression may start, the tokens \<open>ts\<close> leave the code of \<open>e\<close>, up to
  the pending operators, and count as one argument.
\<close>

definition args_room :: "int list \<Rightarrow> bool" where
  "args_room args = (case args of [] \<Rightarrow> True | x # _ \<Rightarrow> 0 \<le> x \<and> x < 2 ^ 31 - 1)"

fun inc_args :: "int list \<Rightarrow> int list" where
  "inc_args [] = []"
| "inc_args (x # xs) = (x + 1) # xs"

definition counted :: "bool \<Rightarrow> int list \<Rightarrow> ('f, 'r) operators \<Rightarrow> ('f, 'r) operators" where
  "counted b args ops = (if b \<and> args \<noteq> [] then count_second ops else ops)"

definition reads :: "nat \<Rightarrow> bool \<Rightarrow> ('f, 'r) expr_token list \<Rightarrow> ('f, 'r) expr_item list \<Rightarrow> bool" where
  "reads p b ts code \<longleftrightarrow>
     (\<forall>out ops args. below p ops \<longrightarrow> args_room args \<longrightarrow>
       (\<exists>out' pend v.
          parse_loop ts \<lparr>ep_output = out, ep_operators = ops, ep_args = args, ep_last_is_var = False\<rparr>
            = Inr \<lparr>ep_output = out', ep_operators = pend @ counted b args ops, ep_args = inc_args args, ep_last_is_var = v\<rparr> \<and>
          pending p pend \<and> finish out' pend = Inr (out @ code) \<and> (10 \<le> p \<longrightarrow> v \<and> pend = [])))"

lemma readsI [case_names reads]:
  assumes "\<And>out ops args. below p ops \<Longrightarrow> args_room args \<Longrightarrow> \<exists>out' pend v.
      parse_loop ts \<lparr>ep_output = out, ep_operators = ops, ep_args = args, ep_last_is_var = False\<rparr>
        = Inr \<lparr>ep_output = out', ep_operators = pend @ counted b args ops, ep_args = inc_args args, ep_last_is_var = v\<rparr> \<and>
      pending p pend \<and> finish out' pend = Inr (out @ code) \<and> (10 \<le> p \<longrightarrow> v \<and> pend = [])"
  shows "reads p b ts code"
  using assms unfolding reads_def by blast

lemma readsE:
  assumes "reads p b ts code" "below p ops" "args_room args"
  obtains out' pend v where
    "parse_loop ts \<lparr>ep_output = out, ep_operators = ops, ep_args = args, ep_last_is_var = False\<rparr>
      = Inr \<lparr>ep_output = out', ep_operators = pend @ counted b args ops, ep_args = inc_args args, ep_last_is_var = v\<rparr>"
    "pending p pend" "finish out' pend = Inr (out @ code)" "10 \<le> p \<Longrightarrow> v \<and> pend = []"
  using assms unfolding reads_def by blast

lemma parse_loop_append: "parse_loop (ts @ us) p = sbind (parse_loop ts p) (parse_loop us)"
  by (induction ts arbitrary: p) (auto simp: sbind_def split: sum.split)

lemma below_mono: "below p ops \<Longrightarrow> p \<le> q \<Longrightarrow> below q ops"
  by (auto simp: below_def split: list.splits expr_token.splits)

lemma below_simps [simp]:
  "below p ((TOpenParen, j) # ops)" "below p ((TOpenBracket, j) # ops)"
  "below p ((TUnary u, j) # ops) \<longleftrightarrow> 8 \<le> p" "below p ((TBinary b, j) # ops) \<longleftrightarrow> precedence b < p"
  by (simp_all add: below_def)

lemma count_argument_top: "below p (op # ops) \<Longrightarrow> count_argument op = op"
  by (auto simp: below_def count_argument_def split: prod.splits expr_token.splits)

lemma counted_below: "below p ops \<Longrightarrow> \<not> is_call t \<Longrightarrow> counted b args ((t, j) # ops) = (t, j) # ops"
  using count_argument_top
  by (cases ops) (auto simp: counted_def count_argument_def is_call_def split: expr_token.splits)

lemma below_counted: "below p ops \<Longrightarrow> below q (counted b args ops) = below q ops"
  by (cases ops rule: count_second.cases) (auto simp: counted_def count_argument_top below_def [of q])

lemma inc_state: "args_room args \<Longrightarrow>
  inc_arg_count \<lparr>ep_output = out, ep_operators = ops, ep_args = args, ep_last_is_var = l\<rparr>
    = \<lparr>ep_output = out, ep_operators = counted True args ops, ep_args = inc_args args, ep_last_is_var = l\<rparr>"
  by (auto simp: args_room_def inc_arg_count_def counted_def split: list.splits)

lemma dec_state: "args_room args \<Longrightarrow>
  dec_arg_count \<lparr>ep_output = out, ep_operators = ops, ep_args = inc_args args, ep_last_is_var = l\<rparr>
    = \<lparr>ep_output = out, ep_operators = ops, ep_args = args, ep_last_is_var = l\<rparr>"
  by (auto simp: args_room_def dec_arg_count_def split: list.splits)

lemma reads_operand:
  assumes "\<And>q. parse_token t q = Inr (push_output i v (inc_arg_count q))" "10 \<le> p \<Longrightarrow> v"
  shows "reads p True [t] [i]"
  using assms by (intro readsI) (auto simp: inc_state push_output_def)

lemma close_call_below: "below p (ep_operators q) \<Longrightarrow> close_call q = Inr q"
  by (auto simp: close_call_def below_def split: list.splits expr_token.splits)

lemma reads_parens:
  assumes "reads 0 b ts code"
  shows "reads p False (TOpenParen # ts @ [TCloseParen]) code"
proof (induction rule: readsI)
  case (reads out ops args)
  obtain out' pend v where r:
    "parse_loop ts \<lparr>ep_output = out, ep_operators = (TOpenParen, None) # ops, ep_args = args, ep_last_is_var = False\<rparr>
      = Inr \<lparr>ep_output = out', ep_operators = pend @ counted b args ((TOpenParen, None) # ops), ep_args = inc_args args, ep_last_is_var = v\<rparr>"
    "pending 0 pend" "finish out' pend = Inr (out @ code)"
    by (rule readsE [OF assms, where ops = "(TOpenParen, None) # ops"]) (use reads in auto)
  show ?case
    using r reads
    by (auto simp: parse_token_def push_operator_def parse_loop_append counted_below [OF reads(1)] parse_close_def
        close_pending [OF r(2)] close_call_below counted_def [of False])
qed

lemma reads_unary:
  assumes "reads 8 b ts code" "p \<le> 8"
  shows "reads p False (TUnary u # ts) (code @ [IUnary u])"
proof (induction rule: readsI)
  case (reads out ops args)
  obtain out' pend v where r:
    "parse_loop ts \<lparr>ep_output = out, ep_operators = (TUnary u, None) # ops, ep_args = args, ep_last_is_var = False\<rparr>
      = Inr \<lparr>ep_output = out', ep_operators = pend @ counted b args ((TUnary u, None) # ops), ep_args = inc_args args, ep_last_is_var = v\<rparr>"
    "pending 8 pend" "finish out' pend = Inr (out @ code)"
    by (rule readsE [OF assms(1), where ops = "(TUnary u, None) # ops"]) (use reads in auto)
  have "finish out' (pend @ [(TUnary u, None)]) = Inr (out @ code @ [IUnary u])" "pending p (pend @ [(TUnary u, None)])"
    using r assms(2) by (auto simp: finish_append elim: pending_mono)
  then show ?case
    using r assms(2) by (intro exI [of _ out'] exI [of _ "pend @ [(TUnary u, None)]"] exI [of _ v])
      (simp add: parse_token_def push_operator_def counted_below [OF reads(1)] counted_def [of False])
qed

text \<open>A binary operator: the code of the left operand is complete when it arrives, its jump when it leaves the stack.\<close>

definition open_jump :: "binary_operator \<Rightarrow> ('f, 'r) expr_item list \<Rightarrow> ('f, 'r) expr_item list \<times> nat option" where
  "open_jump bop out =
     (case bop of
        BAnd \<Rightarrow> (out @ [IJmpIf False 0], Some (length out))
      | BOr \<Rightarrow> (out @ [IJmpIf True 0], Some (length out))
      | _ \<Rightarrow> (out, None))"

lemma emit_open_jump:
  "open_jump op out = (out', j) \<Longrightarrow>
     emit_binary op j (out' @ code) = Inr (out @ jump_over op (length code + 1) @ code @ [IBinary op])"
  by (cases op) (auto simp: open_jump_def emit_binary_def update_jmp_pos_def jump_over_def)

lemma parse_binary_pending:
  assumes "pending (precedence op) pend" "finish out' pend = Inr code" "below (precedence op) ops" "args_room args"
    "open_jump op code = (out2, j)"
  shows "parse_token (TBinary op)
      \<lparr>ep_output = out', ep_operators = pend @ ops, ep_args = inc_args args, ep_last_is_var = v\<rparr>
    = Inr \<lparr>ep_output = out2, ep_operators = (TBinary op, j) # ops, ep_args = args, ep_last_is_var = False\<rparr>"
  using assms reduce_pending [of "precedence op" pend op ops out']
  by (simp add: parse_token_def parse_binary_def dec_state push_operator_def open_jump_def)

lemma reads_binary:
  assumes a: "reads (precedence op) b ts codea" and b: "reads (Suc (precedence op)) b' ts' codeb" and p: "p \<le> precedence op"
  shows "reads p b (ts @ TBinary op # ts') (codea @ jump_over op (length codeb + 1) @ codeb @ [IBinary op])"
proof (induction rule: readsI)
  case (reads out ops args)
  let ?ops = "counted b args ops"
  have below: "below (precedence op) ops" "below (precedence op) ?ops"
    using reads p by (auto simp: below_counted elim: below_mono)
  obtain out' pend v where r:
    "parse_loop ts \<lparr>ep_output = out, ep_operators = ops, ep_args = args, ep_last_is_var = False\<rparr>
      = Inr \<lparr>ep_output = out', ep_operators = pend @ ?ops, ep_args = inc_args args, ep_last_is_var = v\<rparr>"
    "pending (precedence op) pend" "finish out' pend = Inr (out @ codea)"
    using readsE [OF a below(1) reads(2)] by blast
  obtain out2 j where j: "open_jump op (out @ codea) = (out2, j)" by fastforce
  obtain out3 pend' v' where r':
    "parse_loop ts' \<lparr>ep_output = out2, ep_operators = (TBinary op, j) # ?ops, ep_args = args, ep_last_is_var = False\<rparr>
      = Inr \<lparr>ep_output = out3, ep_operators = pend' @ counted b' args ((TBinary op, j) # ?ops), ep_args = inc_args args, ep_last_is_var = v'\<rparr>"
    "pending (Suc (precedence op)) pend'" "finish out3 pend' = Inr (out2 @ codeb)"
    by (rule readsE [OF b, where ops = "(TBinary op, j) # ?ops"]) (use reads in auto)
  have "pending p pend'" using r'(2) p by (auto elim: pending_mono)
  moreover have "finish out3 (pend' @ [(TBinary op, j)]) = Inr (out @ codea @ jump_over op (length codeb + 1) @ codeb @ [IBinary op])"
    using r'(3) emit_open_jump [OF j, of codeb] by (simp add: finish_append)
  moreover have "p < 10" using p by (cases op) simp_all
  ultimately show ?case
    using p by (intro exI [of _ out3] exI [of _ "pend' @ [(TBinary op, j)]"] exI [of _ v'])
      (simp add: parse_loop_append r(1) parse_binary_pending [OF r(2,3) below(2) reads(2) j] r'(1) counted_below [OF below(2)])
qed

section \<open>Calls, indices and arrays\<close>

lemma parse_open_paren:
  "parse_token TOpenParen \<lparr>ep_output = out, ep_operators = ops, ep_args = args, ep_last_is_var = l\<rparr>
    = Inr \<lparr>ep_output = out, ep_operators = (TOpenParen, None) # ops, ep_args = args, ep_last_is_var = False\<rparr>"
  by (simp add: parse_token_def push_operator_def)

lemma close_pending_call:
  assumes "pending p pend" "finish out' pend = Inr code" "t = TOpenParen \<or> t = TOpenBracket" "got = sint n"
  shows "parse_close t
      \<lparr>ep_output = out', ep_operators = pend @ (t, None) # (TFunction nm fid n, k) # ops, ep_args = got # args, ep_last_is_var = v\<rparr>
    = Inr \<lparr>ep_output = code @ [call_item fid n], ep_operators = ops, ep_args = args, ep_last_is_var = True\<rparr>"
  using assms by (simp add: parse_close_def close_pending [OF assms(1,3)] close_call_def)

lemma parse_comma_pending:
  assumes "pending p pend" "finish out' pend = Inr code" "t = TOpenParen \<or> t = TOpenBracket"
  shows "parse_token TComma \<lparr>ep_output = out', ep_operators = pend @ (t, j) # ops, ep_args = args, ep_last_is_var = v\<rparr>
    = Inr \<lparr>ep_output = code, ep_operators = (t, j) # ops, ep_args = args, ep_last_is_var = False\<rparr>"
  using assms by (simp add: parse_token_def comma_pending [OF assms(1,3)])

text \<open>The arguments of a call or the items of an array, each counted.\<close>

lemma counted_pair: "counted b (x # xs) (op # op' # ops) = (if b then op # count_argument op' # ops else op # op' # ops)"
  by (simp add: counted_def)

lemma read_commas:
  assumes "\<And>e. e \<in> set es \<Longrightarrow> reads 0 (plain_start 0 e) (tokens_of 0 e) (compile e)" "es \<noteq> []"
    "t = TOpenParen \<or> t = TOpenBracket" "list_all (plain_start 0) es \<or> count_argument f = f"
    "0 \<le> n" "n + int (length es) < 2 ^ 31"
  shows "\<exists>out' pend v.
    parse_loop (commas (map (tokens_of 0) es)) \<lparr>ep_output = out, ep_operators = (t, None) # f # ops, ep_args = n # args, ep_last_is_var = False\<rparr>
      = Inr \<lparr>ep_output = out', ep_operators = pend @ (t, None) # (count_argument ^^ length es) f # ops,
             ep_args = (n + int (length es)) # args, ep_last_is_var = v\<rparr> \<and>
    pending 0 pend \<and> finish out' pend = Inr (out @ concat (map compile es))"
  using assms
proof (induction es arbitrary: out f n)
  case (Cons e es)
  let ?f = "count_argument f"
  have below: "below 0 ((t, None) # f # ops)" and room: "args_room (n # args)"
    using Cons.prems by (auto simp: args_room_def)
  have f: "counted (plain_start 0 e) (n # args) ((t, None) # f # ops) = (t, None) # ?f # ops"
    using Cons.prems(4) by (auto simp: counted_pair)
  obtain out' pend v where r:
    "parse_loop (tokens_of 0 e) \<lparr>ep_output = out, ep_operators = (t, None) # f # ops, ep_args = n # args, ep_last_is_var = False\<rparr>
      = Inr \<lparr>ep_output = out', ep_operators = pend @ (t, None) # ?f # ops, ep_args = (n + 1) # args, ep_last_is_var = v\<rparr>"
    "pending 0 pend" "finish out' pend = Inr (out @ compile e)"
    using readsE [OF Cons.prems(1) [of e] below room, of out] f by auto
  show ?case
  proof (cases es)
    case Nil
    then show ?thesis using r by auto
  next
    case (Cons e' es')
    obtain out3 pend' v' where r':
      "parse_loop (commas (map (tokens_of 0) es))
          \<lparr>ep_output = out @ compile e, ep_operators = (t, None) # ?f # ops, ep_args = (n + 1) # args, ep_last_is_var = False\<rparr>
        = Inr \<lparr>ep_output = out3, ep_operators = pend' @ (t, None) # (count_argument ^^ length es) ?f # ops,
               ep_args = (n + 1 + int (length es)) # args, ep_last_is_var = v'\<rparr>"
      "pending 0 pend'" "finish out3 pend' = Inr ((out @ compile e) @ concat (map compile es))"
      using Cons.IH [of ?f "n + 1" "out @ compile e"] Cons.prems Cons by auto
    have "commas (map (tokens_of 0) (e # es)) = tokens_of 0 e @ TComma # commas (map (tokens_of 0) es)"
      using Cons by simp
    then show ?thesis
      using r' by (simp add: parse_loop_append r(1) parse_comma_pending [OF r(2,3) Cons.prems(3)] funpow_swap1 add.assoc)
  qed
qed simp

lemma count_build:
  "(count_argument ^^ n) (TFunction nm ID_ARRAY_BUILD m, k) = (TFunction nm ID_ARRAY_BUILD (m + of_nat n), k)"
  by (induction n) (simp_all add: count_argument_def algebra_simps)

lemma count_fixed: "count_argument f = f \<Longrightarrow> (count_argument ^^ n) f = f"
  by (induction n) simp_all

lemma array_ids [simp]: "ID_ARRAY_BUILD \<noteq> ID_ARRAY_ACCESS" "ID_ARRAY_ACCESS \<noteq> ID_ARRAY_BUILD"
  by (simp_all add: ID_ARRAY_ACCESS_def ID_ARRAY_BUILD_def)

lemma sint_of_nat: "n < 2 ^ 31 \<Longrightarrow> sint (of_nat n :: u32) = int n"
  by (simp add: signed_of_nat signed_take_bit_int_eq_self_iff)

lemma parse_args:
  fixes es :: "('f, 'r) ast list"
  assumes "\<And>e. e \<in> set es \<Longrightarrow> reads 0 (plain_start 0 e) (tokens_of 0 e) (compile e)"
    "(t, c) \<in> {(TOpenParen, TCloseParen), (TOpenBracket, TCloseBracket)}"
    "list_all (plain_start 0) es \<or> count_argument (TFunction nm fid m :: ('f, 'r) expr_token, None) = (TFunction nm fid m, None)"
    "(count_argument ^^ length es) (TFunction nm fid m :: ('f, 'r) expr_token, None) = (TFunction nm fid (of_nat (length es)), None)"
    "length es < 2 ^ 31"
  shows "parse_loop (commas (map (tokens_of 0) es) @ [c])
      \<lparr>ep_output = out, ep_operators = (t, None) # (TFunction nm fid m, None) # ops, ep_args = 0 # args, ep_last_is_var = False\<rparr>
    = Inr \<lparr>ep_output = out @ concat (map compile es) @ [call_item fid (of_nat (length es))], ep_operators = ops, ep_args = args,
           ep_last_is_var = True\<rparr>"
proof -
  let ?F = "(TFunction nm fid (of_nat (length es)), None)"
  have t: "t = TOpenParen \<or> t = TOpenBracket" and c: "parse_token c = parse_close t"
    using assms(2) by (auto simp: parse_token_def)
  obtain out' pend v where r:
    "parse_loop (commas (map (tokens_of 0) es))
        \<lparr>ep_output = out, ep_operators = (t, None) # (TFunction nm fid m, None) # ops, ep_args = 0 # args, ep_last_is_var = False\<rparr>
      = Inr \<lparr>ep_output = out', ep_operators = pend @ (t, None) # ?F # ops, ep_args = int (length es) # args, ep_last_is_var = v\<rparr>"
    "pending 0 pend" "finish out' pend = Inr (out @ concat (map compile es))"
  proof (cases "es = []")
    case True
    then show ?thesis using that [of out "[]" False] assms(4) by simp
  next
    case False
    show ?thesis
      using read_commas [OF assms(1) False t assms(3), where n = 0 and out = out and ops = ops and args = args]
        that assms(4,5) by fastforce
  qed
  show ?thesis
    using assms(5)
    by (simp add: parse_loop_append r(1) c close_pending_call [OF r(2,3) t] sint_of_nat)
qed

lemma reads_call:
  fixes es :: "('f, 'r) ast list"
  assumes "\<And>e. e \<in> set es \<Longrightarrow> reads 0 (plain_start 0 e) (tokens_of 0 e) (compile e)"
    "fid \<noteq> ID_ARRAY_ACCESS" "fid \<noteq> ID_ARRAY_BUILD" "length es < 2 ^ 31"
  shows "reads p True (tokens_of p (ECall nm fid es)) (compile (ECall nm fid es))"
proof (induction rule: readsI)
  case (reads out ops args)
  have c: "count_argument (TFunction nm fid (of_nat (length es)) :: ('f, 'r) expr_token, None) = (TFunction nm fid (of_nat (length es)), None)"
    using assms(3) by (simp add: count_argument_def)
  show ?case
    using parse_args [OF assms(1) _ _ count_fixed [OF c] assms(4), of TOpenParen TCloseParen] c assms
    by (auto simp: parse_token_def inc_state [OF reads(2)] push_args_def push_operator_def call_item_def)
qed

lemma reads_array:
  fixes es :: "('f, 'r) ast list"
  assumes "\<And>e. e \<in> set es \<Longrightarrow> reads 0 (plain_start 0 e) (tokens_of 0 e) (compile e)"
    "list_all (plain_start 0) es" "length es < 2 ^ 31"
  shows "reads p True (tokens_of p (EArr es)) (compile (EArr es))"
proof (induction rule: readsI)
  case (reads out ops args)
  have c: "(count_argument ^^ length es) (TFunction (lit ''array'') ID_ARRAY_BUILD 0 :: ('f, 'r) expr_token, None)
      = (TFunction (lit ''array'') ID_ARRAY_BUILD (of_nat (length es)), None)"
    using count_build [of "length es" _ 0] by simp
  show ?case
    using parse_args [OF assms(1) _ _ c assms(3), of TOpenBracket TCloseBracket] c assms
    by (auto simp: parse_token_def inc_state [OF reads(2)] push_args_def push_operator_def call_item_def)
qed

lemma reads_match:
  assumes "reads 0 b ts code"
  shows "reads p True (TRegex r # TOpenParen # ts @ [TCloseParen]) (code @ [IRegex r])"
proof (induction rule: readsI)
  case (reads out ops args)
  let ?ops = "(TOpenParen, None) # (TRegex r, None) # counted True args ops"
  obtain out' pend v where r:
    "parse_loop ts \<lparr>ep_output = out, ep_operators = ?ops, ep_args = 0 # inc_args args, ep_last_is_var = False\<rparr>
      = Inr \<lparr>ep_output = out', ep_operators = pend @ ?ops, ep_args = 1 # inc_args args, ep_last_is_var = v\<rparr>"
    "pending 0 pend" "finish out' pend = Inr (out @ code)"
    by (rule readsE [OF assms, of ?ops "0 # inc_args args" out]) (auto simp: args_room_def counted_pair count_argument_def)
  show ?case
    by (auto simp: parse_token_def inc_state [OF reads(2)] push_args_def push_operator_def parse_loop_append r parse_close_def
        close_pending [OF r(2)] close_call_def)
qed

lemma reads_index:
  assumes "reads 10 b ts code" "reads 0 b' ts' code'" "p \<le> 10"
  shows "reads p b (ts @ TOpenBracket # ts' @ [TCloseBracket]) (code @ code' @ [IArrayAccess])"
proof (induction rule: readsI)
  case (reads out ops args)
  let ?ops = "(TOpenBracket, None) # (TFunction (lit ''array'') ID_ARRAY_ACCESS 2, None) # counted b args ops"
  have below: "below 10 ops" using reads(1) assms(3) by (rule below_mono)
  have r: "parse_loop ts \<lparr>ep_output = out, ep_operators = ops, ep_args = args, ep_last_is_var = False\<rparr>
      = Inr \<lparr>ep_output = out @ code, ep_operators = counted b args ops, ep_args = inc_args args, ep_last_is_var = True\<rparr>"
    by (rule readsE [OF assms(1) below reads(2), of out]) simp
  obtain out2 pend v where r':
    "parse_loop ts' \<lparr>ep_output = out @ code, ep_operators = ?ops, ep_args = 1 # inc_args args, ep_last_is_var = False\<rparr>
      = Inr \<lparr>ep_output = out2, ep_operators = pend @ ?ops, ep_args = 2 # inc_args args, ep_last_is_var = v\<rparr>"
    "pending 0 pend" "finish out2 pend = Inr ((out @ code) @ code')"
    by (rule readsE [OF assms(2), of ?ops "1 # inc_args args" "out @ code"]) (auto simp: args_room_def counted_pair count_argument_def)
  show ?case
    by (auto simp: parse_loop_append r parse_token_def push_args_def push_operator_def r'(1) close_pending_call [OF r'(2,3)] call_item_def
        simp del: lit_Cons)
qed

section \<open>The parser compiles\<close>

lemma reads_tokens_of: "writable e \<Longrightarrow> p \<le> 10 \<Longrightarrow> reads p (plain_start p e) (tokens_of p e) (compile e)"
proof (induction e arbitrary: p)
  case (EVar v)
  then show ?case by (auto simp: parse_token_def intro: reads_operand)
next
  case (ECapture v)
  have "reads q True [TCapture v] [ICapture v]" if "q \<le> 9" for q
    using that by (intro reads_operand) (auto simp: parse_token_def)
  then show ?case using reads_parens [of True "[TCapture v]"] by (auto simp: parens_def not_le)
next
  case (EConst c)
  have "reads q True [TConstant c] [IConstant c]" if "q \<le> 9" for q
    using that by (intro reads_operand) (auto simp: parse_token_def)
  then show ?case using reads_parens [of True "[TConstant c]"] by (auto simp: parens_def not_le)
next
  case (EUn op e)
  then have "reads q False (TUnary op # tokens_of 8 e) (compile (EUn op e))" if "q \<le> 8" for q
    using that by (auto intro: reads_unary [of "plain_start 8 e"])
  then show ?case using reads_parens [of False "TUnary op # tokens_of 8 e"] by (auto simp: parens_def not_le)
next
  case (EBin op a b)
  have "precedence op \<le> 7" by (cases op) simp_all
  then have "reads q (plain_start (precedence op) a) (tokens_of (precedence op) a @ TBinary op # tokens_of (Suc (precedence op)) b)
      (compile (EBin op a b))" if "q \<le> precedence op" for q
    using that EBin reads_binary [OF EBin.IH(1) EBin.IH(2), of op q] by simp
  note q = this
  show ?case using q [of p] reads_parens [OF q [of 0], of p]
    by (cases "precedence op < p") (simp_all add: parens_def)
next
  case (ECall nm fid es)
  then have "reads p True (tokens_of p (ECall nm fid es)) (compile (ECall nm fid es))"
    by (intro reads_call) (auto simp: list_all_iff)
  then show ?case by simp
next
  case (EMatch r e)
  then show ?case by (auto intro: reads_match [of "plain_start 0 e"])
next
  case (EIndex e i)
  then have "reads p (plain_start 10 e) (tokens_of p (EIndex e i)) (compile (EIndex e i))"
    by (auto intro!: reads_index [of _ _ _ "plain_start 0 i"])
  then show ?case by simp
next
  case (EArr es)
  have "writable e" if "e \<in> set es" for e
    using EArr.prems that by (simp add: list_all_iff)
  then have "reads p True (tokens_of p (EArr es)) (compile (EArr es))"
    by (intro reads_array EArr.IH) (use EArr.prems in simp_all)
  then show ?case by simp
qed

lemma expr_parse_tokens_of:
  assumes "writable e"
  shows "expr_parse (tokens_of 0 e, None) = Inr (compile e)"
proof -
  have e: "reads 0 (plain_start 0 e) (tokens_of 0 e) (compile e)"
    using assms by (rule reads_tokens_of) simp
  show ?thesis
    by (rule readsE [OF e, of "[]" "[]" "[]"])
      (auto simp: expr_parse_def expr_parser_new_def below_def args_room_def counted_def)
qed

section \<open>Properties\<close>

text \<open>Parsed and evaluated, an expression has its meaning.\<close>

lemma expression_computes:
  assumes "writable e" "code_fits e"
  shows "\<exists>items. expr_parse (tokens_of 0 e, None) = Inr items \<and> expr_eval env items captures = sem env e captures"
  using assms by (simp add: expr_parse_tokens_of expr_eval_compile)

text \<open>C21. No sequence of tokens makes the parser panic: neither the counts of arguments nor the positions of the jumps fail.\<close>

theorem expr_parse_no_panic: "expr_parse (tokens, None) \<noteq> Inl ParserPanic"
proof -
  have "parsed (parse_loop tokens expr_parser_new)"
    by (rule parse_loop_ok) (simp add: parser_wf_def expr_parser_new_def)
  then show ?thesis
    by (cases "parse_loop tokens expr_parser_new") (auto simp: expr_parse_def parser_wf_def finish_ok)
qed

end
