(* ===== verification/ExprTokenizer.thy ===== *)
theory ExprTokenizer
  imports ExprCompile Utf8
begin

text \<open>
  The tokenizer of expressions (crates/common/src/expr/tokenizer.rs), with the names of the functions
  (functions/mod.rs) and the durations of the configuration (crates/utils/src/config/utils.rs).
  It ends on every text, and reads what an expression is written with back to its tokens.
\<close>

section \<open>Durations and function names\<close>

definition duration_multiplier :: "bytes \<Rightarrow> u64 option" where
  "duration_multiplier m =
     (if m = lit ''d'' then Some (24 * 60 * 60 * 1000)
      else if m = lit ''h'' then Some (60 * 60 * 1000)
      else if m = lit ''m'' then Some (60 * 1000)
      else if m = lit ''s'' then Some 1000
      else if m = lit ''ms'' \<or> m = [] then Some 1
      else None)"

text \<open>In milliseconds.\<close>

definition duration_parse_value :: "bytes \<Rightarrow> u64 option" where
  "duration_parse_value s =
     (case duration_multiplier (map ascii_lowercase (filter (\<lambda>b. \<not> is_digit b \<and> \<not> is_ascii_whitespace b) s)) of
        None \<Rightarrow> None
      | Some multiplier \<Rightarrow>
          (case parse_unsigned 64 (filter is_digit s) of
             Some num \<Rightarrow> if num > 0 then Some (of_nat num * multiplier) else None
           | None \<Rightarrow> None))"

definition FUNCTIONS :: "(bytes \<times> u32) list" where
  "FUNCTIONS = map (apfst lit)
     [(''count'', 1), (''sort'', 2), (''dedup'', 1), (''winnow'', 1), (''is_intersect'', 2),
      (''is_email'', 1), (''email_part'', 2), (''is_empty'', 1), (''is_number'', 1), (''is_ip_addr'', 1),
      (''is_ipv4_addr'', 1), (''is_ipv6_addr'', 1), (''ip_reverse_name'', 1), (''trim'', 1), (''trim_end'', 1),
      (''trim_start'', 1), (''len'', 1), (''to_lowercase'', 1), (''to_uppercase'', 1), (''is_uppercase'', 1),
      (''is_lowercase'', 1), (''has_digits'', 1), (''count_spaces'', 1), (''count_uppercase'', 1), (''count_lowercase'', 1),
      (''count_chars'', 1), (''contains'', 2), (''contains_ignore_case'', 2), (''eq_ignore_case'', 2), (''starts_with'', 2),
      (''ends_with'', 2), (''lines'', 1), (''substring'', 3), (''strip_prefix'', 2), (''strip_suffix'', 2),
      (''split'', 2), (''rsplit'', 2), (''split_once'', 2), (''rsplit_once'', 2), (''split_words'', 1)]"

definition ASYNC_FUNCTIONS :: "(bytes \<times> u32 \<times> u32) list" where
  "ASYNC_FUNCTIONS = map (apfst lit)
     [(''is_local_domain'', 0, 2), (''is_local_address'', 1, 2), (''key_get'', 2, 2), (''key_exists'', 3, 2),
      (''key_set'', 4, 3), (''counter_incr'', 5, 3), (''counter_get'', 6, 2), (''dns_query'', 8, 2), (''sql_query'', 7, 3)]"

fun find_function :: "bytes \<Rightarrow> u32 \<Rightarrow> (bytes \<times> u32) list \<Rightarrow> ('f, 'r) expr_token option" where
  "find_function s idx [] = None"
| "find_function s idx ((nm, n) # fs) = (if nm = s then Some (TFunction nm idx n) else find_function s (idx + 1) fs)"

fun find_async :: "bytes \<Rightarrow> (bytes \<times> u32 \<times> u32) list \<Rightarrow> ('f, 'r) expr_token option" where
  "find_async s [] = None"
| "find_async s ((nm, idx, n) # fs) =
     (if nm = s then Some (TFunction nm (idx + of_nat (length FUNCTIONS)) n) else find_async s fs)"

section \<open>Variables\<close>

definition VARIABLES_MAP :: "(bytes \<times> u32) list" where
  "VARIABLES_MAP = map (apfst lit)
     [(''rcpt'', 0), (''rcpt_domain'', 1), (''sender'', 2), (''sender_domain'', 3), (''mx'', 4), (''helo_domain'', 5),
      (''authenticated_as'', 6), (''listener'', 7), (''remote_ip'', 8), (''local_ip'', 10), (''priority'', 12),
      (''local_port'', 11), (''remote_port'', 9), (''protocol'', 13), (''is_tls'', 14), (''recipients'', 15),
      (''retry_num'', 16), (''notify_num'', 17), (''expires_in'', 18), (''last_status'', 19), (''last_error'', 20)]"

type_synonym ('f, 'r) token_map = "bytes \<Rightarrow> ('f, 'r) expr_token option"

definition with_variables :: "u32 list \<Rightarrow> ('f, 'r) token_map \<Rightarrow> ('f, 'r) token_map" where
  "with_variables variables tokens =
     foldl (\<lambda>tokens (name, idx). if idx \<in> set variables then tokens(name \<mapsto> TVariable idx) else tokens) tokens VARIABLES_MAP"

definition with_all_variables :: "('f, 'r) token_map \<Rightarrow> ('f, 'r) token_map" where
  "with_all_variables = with_variables [0, 1, 2, 3, 4, 5, 6, 7, 8, 9, 10, 11, 12, 13, 14, 16, 17, 18, 19, 20]"

definition add_constant :: "bytes \<Rightarrow> 'f expr_constant \<Rightarrow> ('f, 'r) token_map \<Rightarrow> ('f, 'r) token_map" where
  "add_constant name c tokens = tokens(name \<mapsto> TConstant c)"

section \<open>State\<close>

text \<open>Variables and constants known at this place of the configuration; regular expressions are of an external crate.\<close>

record ('f, 'r) token_env =
  te_floats :: "'f floats"
  te_tokens :: "('f, 'r) token_map"
  te_regex :: "bytes \<Rightarrow> 'r option"

record ('f, 'r) tokenizer =
  tk_iter :: bytes
  tk_buf :: bytes
  tk_depth :: u32
  tk_next :: "('f, 'r) expr_token list"
  tk_has_number :: bool
  tk_has_dot :: bool
  tk_has_alpha :: bool
  tk_is_start :: bool
  tk_is_eof :: bool

definition tokenizer_new :: "bytes \<Rightarrow> ('f, 'r) tokenizer" where
  "tokenizer_new expr =
     \<lparr>tk_iter = expr, tk_buf = [], tk_depth = 0, tk_next = [], tk_has_number = False, tk_has_dot = False,
      tk_has_alpha = False, tk_is_start = True, tk_is_eof = False\<rparr>"

section \<open>Helpers\<close>

fun find_char :: "u8 list \<Rightarrow> bytes \<Rightarrow> expr_error + u8 \<times> bytes" where
  "find_char chars [] = Inl UnexpectedEnd"
| "find_char chars (ch # it) =
     (if \<not> is_ascii_whitespace ch
      then (if ch \<in> set chars then Inr (ch, it) else Inl (ExpectedCharacter (hd chars) ch))
      else find_char chars it)"

definition unescape :: "u8 \<Rightarrow> u8" where
  "unescape ch = (if ch = 0x6e then 0x0a else if ch = 0x72 then 0x0d else if ch = 0x74 then 0x09 else ch)"

fun string_loop :: "u8 \<Rightarrow> u8 \<Rightarrow> bytes \<Rightarrow> bytes \<Rightarrow> expr_error + bytes \<times> bytes" where
  "string_loop stop_ch last_ch buf [] = Inl UnterminatedString"
| "string_loop stop_ch last_ch buf (ch # it) =
     (if last_ch \<noteq> 0x5c
      then (if ch \<noteq> stop_ch then string_loop stop_ch ch (buf @ [ch]) it else Inr (buf, it))
      else string_loop stop_ch ch (buf @ [unescape ch]) it)"

definition expr_parse_string :: "u8 \<Rightarrow> bytes \<Rightarrow> expr_error + bytes \<times> bytes" where
  "expr_parse_string stop_ch it =
     sbind (string_loop stop_ch 0 [] it) (\<lambda>(buf, it). if from_utf8 buf then Inr (buf, it) else Inl InvalidUtf8)"

text \<open>A word: a number, a truth value, a capture, a function, a variable or constant, or a duration.\<close>

definition word_token :: "('f, 'r) token_env \<Rightarrow> bool \<Rightarrow> bytes \<Rightarrow> expr_error + ('f, 'r) expr_token" where
  "word_token env plain buf =
     (if plain \<and> length buf \<in> {4, 5} \<and> buf = lit ''true'' then Inr (TConstant (CInteger 1))
      else if plain \<and> length buf \<in> {4, 5} \<and> buf = lit ''false'' then Inr (TConstant (CInteger 0))
      else case (if buf \<noteq> [] \<and> hd buf = 0x24 then parse_unsigned 32 (tl buf) else None) of
        Some n \<Rightarrow> Inr (TCapture (of_nat n))
      | None \<Rightarrow>
      (case find_function buf 0 FUNCTIONS of Some t \<Rightarrow> Inr t | None \<Rightarrow>
      (case find_async buf ASYNC_FUNCTIONS of Some t \<Rightarrow> Inr t | None \<Rightarrow>
      (case te_tokens env buf of Some t \<Rightarrow> Inr t | None \<Rightarrow>
      (case duration_parse_value buf of
         Some millis \<Rightarrow> Inr (TConstant (CInteger millis))
       | None \<Rightarrow> Inl (InvalidVariable buf))))))"

definition buf_token :: "('f, 'r) token_env \<Rightarrow> bool \<Rightarrow> bool \<Rightarrow> bool \<Rightarrow> bytes \<Rightarrow> expr_error + ('f, 'r) expr_token" where
  "buf_token env has_number has_dot has_alpha buf =
     (if has_number \<and> \<not> has_alpha then
        (if has_dot
         then (case f_parse (te_floats env) buf of Some f \<Rightarrow> Inr (TConstant (CFloat f)) | None \<Rightarrow> Inl (InvalidFloat buf))
         else (case parse_i64 buf of Some i \<Rightarrow> Inr (TConstant (CInteger i)) | None \<Rightarrow> Inl (InvalidInteger buf)))
      else word_token env (\<not> has_number \<and> \<not> has_dot) buf)"

text \<open>The word is taken out of the buffer and all flags are down again.\<close>

definition parse_buf :: "('f, 'r) token_env \<Rightarrow> ('f, 'r) tokenizer \<Rightarrow> expr_error + ('f, 'r) expr_token \<times> ('f, 'r) tokenizer" where
  "parse_buf env tk =
     (let buf = (if from_utf8 (tk_buf tk) then tk_buf tk else []) in
      sbind (buf_token env (tk_has_number tk) (tk_has_dot tk) (tk_has_alpha tk) buf) (\<lambda>t.
      Inr (t, tk\<lparr>tk_buf := [], tk_has_alpha := False, tk_has_number := False, tk_has_dot := False\<rparr>)))"

section \<open>The next token\<close>

definition is_word_char :: "u8 \<Rightarrow> bool" where
  "is_word_char ch \<longleftrightarrow> (0x41 \<le> ch \<and> ch \<le> 0x5a) \<or> (0x61 \<le> ch \<and> ch \<le> 0x7a) \<or> ch = 0x5f \<or> ch = 0x24"

definition continues_buf :: "bytes \<Rightarrow> u8 \<Rightarrow> bool" where
  "continues_buf buf ch \<longleftrightarrow>
     (ch = 0x2d \<and> buf \<noteq> [] \<and> last buf = 0x5b) \<or>
     (ch = 0x3a \<and> 0x2e \<in> set buf) \<or>
     (ch = 0x5d \<and> 0x5b \<in> set buf) \<or>
     (ch = 0x2a \<and> buf \<noteq> [] \<and> (last buf = 0x5b \<or> last buf = 0x2e))"

text \<open>What a separator ends: the opening of a regular expression, a word, or nothing.\<close>

definition prev_token :: "('f, 'r) token_env \<Rightarrow> u8 \<Rightarrow> ('f, 'r) tokenizer \<Rightarrow>
    expr_error + ('f, 'r) expr_token option \<times> ('f, 'r) tokenizer" where
  "prev_token env ch tk =
     (if ch = 0x28 \<and> tk_buf tk = lit ''matches'' then
        sbind (find_char [0x22, 0x27] (tk_iter tk)) (\<lambda>(stop_ch, it).
        sbind (expr_parse_string stop_ch it) (\<lambda>(regex_str, it).
        case te_regex env regex_str of
          None \<Rightarrow> Inl (InvalidRegex regex_str)
        | Some r \<Rightarrow>
            sbind (find_char [0x2c] it) (\<lambda>(_, it).
            Inr (Some (TRegex r), tk\<lparr>tk_iter := it, tk_has_alpha := False, tk_buf := []\<rparr>))))
      else if tk_buf tk \<noteq> [] then
        sbind (parse_buf env (tk\<lparr>tk_is_start := False\<rparr>)) (\<lambda>(t, tk). Inr (Some t, tk))
      else Inr (None, tk))"

definition skip_if :: "u8 \<Rightarrow> bytes \<Rightarrow> bool \<times> bytes" where
  "skip_if ch it = (case it of c # it' \<Rightarrow> if c = ch then (True, it') else (False, it) | [] \<Rightarrow> (False, it))"

definition separator_token :: "u8 \<Rightarrow> ('f, 'r) tokenizer \<Rightarrow> expr_error + ('f, 'r) expr_token \<times> ('f, 'r) tokenizer" where
  "separator_token ch tk =
     (if ch = 0x26 then Inr (TBinary BAnd, tk\<lparr>tk_iter := snd (skip_if 0x26 (tk_iter tk))\<rparr>)
      else if ch = 0x7c then Inr (TBinary BOr, tk\<lparr>tk_iter := snd (skip_if 0x7c (tk_iter tk))\<rparr>)
      else if ch = 0x21 then
        (let (ne, it) = skip_if 0x3d (tk_iter tk) in Inr (if ne then TBinary BNe else TUnary UNot, tk\<lparr>tk_iter := it\<rparr>))
      else if ch = 0x5e then Inr (TBinary BXor, tk)
      else if ch = 0x28 then Inr (TOpenParen, tk\<lparr>tk_depth := tk_depth tk + 1\<rparr>)
      else if ch = 0x29 then
        (if tk_depth tk = 0 then Inl UnmatchedClose else Inr (TCloseParen, tk\<lparr>tk_depth := tk_depth tk - 1\<rparr>))
      else if ch = 0x2b then Inr (TBinary BAdd, tk)
      else if ch = 0x2a then Inr (TBinary BMultiply, tk)
      else if ch = 0x2f then Inr (TBinary BDivide, tk)
      else if ch = 0x2d then Inr (if tk_is_start tk then TUnary UMinus else TBinary BSubtract, tk)
      else if ch = 0x3d then
        (case tk_iter tk of
           [] \<Rightarrow> Inr (TBinary BEq, tk)
         | c # it \<Rightarrow> Inr (TBinary (if c = 0x3e then BGe else if c = 0x3c then BLe else BEq), tk\<lparr>tk_iter := it\<rparr>))
      else if ch = 0x3e then
        (let (ge, it) = skip_if 0x3d (tk_iter tk) in Inr (TBinary (if ge then BGe else BGt), tk\<lparr>tk_iter := it\<rparr>))
      else if ch = 0x3c then
        (let (le, it) = skip_if 0x3d (tk_iter tk) in Inr (TBinary (if le then BLe else BLt), tk\<lparr>tk_iter := it\<rparr>))
      else if ch = 0x2c then Inr (TComma, tk)
      else if ch = 0x5b then Inr (TOpenBracket, tk)
      else if ch = 0x5d then Inr (TCloseBracket, tk)
      else if ch = 0x22 \<or> ch = 0x27 then
        sbind (expr_parse_string ch (tk_iter tk)) (\<lambda>(s, it). Inr (TConstant (CString s), tk\<lparr>tk_iter := it\<rparr>))
      else Inl (InvalidCharacter ch))"

definition starts_operand :: "('f, 'r) expr_token \<Rightarrow> bool" where
  "starts_operand t = (case t of TOpenParen \<Rightarrow> True | TComma \<Rightarrow> True | TBinary _ \<Rightarrow> True | _ \<Rightarrow> False)"

definition is_space :: "u8 \<Rightarrow> bool" where
  "is_space ch \<longleftrightarrow> ch = 0x20 \<or> ch = 0x0d \<or> ch = 0x0a"

definition end_token :: "('f, 'r) token_env \<Rightarrow> ('f, 'r) tokenizer \<Rightarrow>
    expr_error + ('f, 'r) expr_token option \<times> ('f, 'r) tokenizer" where
  "end_token env tk =
     (if tk_depth tk > 0 then Inl UnmatchedOpen
      else if tk_buf tk \<noteq> [] then sbind (parse_buf env tk) (\<lambda>(t, tk). Inr (Some t, tk))
      else Inr (None, tk))"

definition separator :: "('f, 'r) token_env \<Rightarrow> u8 \<Rightarrow> ('f, 'r) tokenizer \<Rightarrow>
    expr_error + ('f, 'r) expr_token option \<times> ('f, 'r) tokenizer" where
  "separator env ch tk =
     sbind (prev_token env ch tk) (\<lambda>(prev, tk).
     if is_space ch then Inr (prev, tk)
     else sbind (separator_token ch tk) (\<lambda>(t, tk).
       let tk = tk\<lparr>tk_is_start := starts_operand t\<rparr> in
       case prev of
         Some _ \<Rightarrow> Inr (prev, tk\<lparr>tk_next := t # tk_next tk\<rparr>)
       | None \<Rightarrow> Inr (Some t, tk)))"

fun next_loop :: "('f, 'r) token_env \<Rightarrow> bytes \<Rightarrow> ('f, 'r) tokenizer \<Rightarrow>
    expr_error + ('f, 'r) expr_token option \<times> ('f, 'r) tokenizer" where
  "next_loop env [] tk = end_token env (tk\<lparr>tk_iter := []\<rparr>)"
| "next_loop env (ch # it) tk =
     (if is_word_char ch then next_loop env it (tk\<lparr>tk_buf := tk_buf tk @ [ch], tk_has_alpha := True\<rparr>)
      else if is_digit ch then next_loop env it (tk\<lparr>tk_buf := tk_buf tk @ [ch], tk_has_number := True\<rparr>)
      else if ch = 0x2e then next_loop env it (tk\<lparr>tk_buf := tk_buf tk @ [ch], tk_has_dot := True\<rparr>)
      else if ch = 0x7d then end_token env (tk\<lparr>tk_iter := it, tk_is_eof := True\<rparr>)
      else if continues_buf (tk_buf tk) ch then next_loop env it (tk\<lparr>tk_buf := tk_buf tk @ [ch]\<rparr>)
      else if is_space ch \<and> tk_buf tk = [] then next_loop env it tk
      else separator env ch (tk\<lparr>tk_iter := it\<rparr>))"

definition next_expr_token :: "('f, 'r) token_env \<Rightarrow> ('f, 'r) tokenizer \<Rightarrow>
    expr_error + ('f, 'r) expr_token option \<times> ('f, 'r) tokenizer" where
  "next_expr_token env tk =
     (case tk_next tk of
        t # ts \<Rightarrow> Inr (Some t, tk\<lparr>tk_next := ts\<rparr>)
      | [] \<Rightarrow> if tk_is_eof tk then Inr (None, tk) else next_loop env (tk_iter tk) tk)"

section \<open>All tokens\<close>

text \<open>What is left to do: characters, tokens held back, and a word not yet returned.\<close>

definition tk_size :: "('f, 'r) tokenizer \<Rightarrow> nat" where
  "tk_size tk = 3 * length (tk_iter tk) + length (tk_next tk) + (if tk_buf tk = [] then 0 else 1)"

lemma sbind_eq_Inr: "sbind r f = Inr y \<longleftrightarrow> (\<exists>x. r = Inr x \<and> f x = Inr y)"
  by (cases r) simp_all

lemma find_char_length: "find_char chars it = Inr (ch, it') \<Longrightarrow> length it' \<le> length it"
  by (induction chars it rule: find_char.induct) (auto split: if_splits)

lemma string_loop_length: "string_loop stop_ch last_ch buf it = Inr (s, it') \<Longrightarrow> length it' \<le> length it"
  by (induction stop_ch last_ch buf it rule: string_loop.induct) (auto split: if_splits)

lemma expr_parse_string_length: "expr_parse_string stop_ch it = Inr (s, it') \<Longrightarrow> length it' \<le> length it"
  by (auto simp: expr_parse_string_def sbind_eq_Inr split: if_splits dest: string_loop_length)

lemma skip_if_length: "length (snd (skip_if ch it)) \<le> length it"
  by (simp add: skip_if_def split: list.split)

lemma parse_buf_shape:
  "parse_buf env tk = Inr (t, tk') \<Longrightarrow> tk_iter tk' = tk_iter tk \<and> tk_next tk' = tk_next tk \<and> tk_buf tk' = []"
  by (auto simp: parse_buf_def Let_def sbind_eq_Inr split: if_splits option.splits)

lemma prev_token_shape:
  assumes "prev_token env ch tk = Inr (prev, tk')"
  shows "length (tk_iter tk') \<le> length (tk_iter tk) \<and> tk_next tk' = tk_next tk \<and> tk_buf tk' = []"
proof -
  consider (regex) "ch = 0x28" "tk_buf tk = lit ''matches''" | (buf) "tk_buf tk \<noteq> []" "\<not> (ch = 0x28 \<and> tk_buf tk = lit ''matches'')"
    | (none) "tk_buf tk = []" by auto
  then show ?thesis
  proof cases
    case regex
    then show ?thesis
      using assms
      by (auto simp: prev_token_def sbind_eq_Inr split: option.splits dest!: find_char_length expr_parse_string_length)
  next
    case buf
    then show ?thesis
      using assms unfolding prev_token_def by (auto simp: sbind_eq_Inr dest!: parse_buf_shape)
  qed (use assms in \<open>simp add: prev_token_def\<close>)
qed

lemma separator_token_shape:
  "separator_token ch tk = Inr (t, tk') \<Longrightarrow>
     length (tk_iter tk') \<le> length (tk_iter tk) \<and> tk_next tk' = tk_next tk \<and> tk_buf tk' = tk_buf tk"
  using skip_if_length [of "0x26" "tk_iter tk"] skip_if_length [of "0x7c" "tk_iter tk"] skip_if_length [of "0x3d" "tk_iter tk"]
  by (auto simp: separator_token_def Let_def sbind_eq_Inr split: if_splits prod.splits list.splits dest!: expr_parse_string_length)

lemma separator_size:
  assumes "separator env ch tk = Inr (Some t, tk')"
  shows "tk_size tk' \<le> 3 * length (tk_iter tk) + length (tk_next tk) + 1"
proof -
  obtain prev tk1 where p: "prev_token env ch tk = Inr (prev, tk1)"
    using assms by (auto simp: separator_def sbind_eq_Inr)
  show ?thesis
    using assms prev_token_shape [OF p]
    by (auto simp: separator_def p sbind_eq_Inr tk_size_def Let_def split: if_splits option.splits dest!: separator_token_shape)
qed

lemma end_token_size:
  "end_token env tk = Inr (Some t, tk') \<Longrightarrow> tk_size tk' < tk_size tk"
  by (auto simp: end_token_def sbind_eq_Inr tk_size_def split: if_splits dest!: parse_buf_shape)

lemma next_loop_size:
  "next_loop env it tk = Inr (Some t, tk') \<Longrightarrow> tk_size tk' < 3 * length it + length (tk_next tk) + (if tk_buf tk = [] then 0 else 1)"
proof (induction env it tk rule: next_loop.induct)
  case (1 env tk)
  then have "tk_size tk' < tk_size (tk\<lparr>tk_iter := []\<rparr>)" by (auto dest: end_token_size)
  then show ?case by (simp add: tk_size_def)
next
  case (2 env ch it tk)
  have "tk_size tk' < tk_size (tk\<lparr>tk_iter := it, tk_is_eof := True\<rparr>)" if "end_token env (tk\<lparr>tk_iter := it, tk_is_eof := True\<rparr>) = Inr (Some t, tk')"
    using end_token_size [OF that] .
  moreover have "tk_size tk' \<le> 3 * length it + length (tk_next tk) + 1" if "separator env ch (tk\<lparr>tk_iter := it\<rparr>) = Inr (Some t, tk')"
    using separator_size [OF that] by simp
  ultimately show ?case
    using 2 by (auto simp: tk_size_def split: if_splits)
qed

lemma next_expr_token_size: "next_expr_token env tk = Inr (Some t, tk') \<Longrightarrow> tk_size tk' < tk_size tk"
  using next_loop_size [of env "tk_iter tk" tk t tk']
  by (auto simp: next_expr_token_def tk_size_def split: list.splits if_splits)

function all_tokens :: "('f, 'r) token_env \<Rightarrow> ('f, 'r) tokenizer \<Rightarrow> ('f, 'r) expr_token list \<times> expr_error option" where
  "all_tokens env tk =
     (case next_expr_token env tk of
        Inl e \<Rightarrow> ([], Some e)
      | Inr (None, _) \<Rightarrow> ([], None)
      | Inr (Some t, tk) \<Rightarrow> (let (ts, e) = all_tokens env tk in (t # ts, e)))"
  by pat_completeness auto
termination
  by (relation "measure (\<lambda>(_, tk). tk_size tk)") (auto dest: next_expr_token_size)

declare all_tokens.simps [simp del]

definition expression_parse :: "('f, 'r) token_env \<Rightarrow> bytes \<Rightarrow> expr_error + ('f, 'r) expr_item list" where
  "expression_parse env expr = expr_parse (all_tokens env (tokenizer_new expr))"

end
