(* ===== verification/ExprText.thy ===== *)
theory ExprText
  imports ExprTokenizer
begin

text \<open>
  From the text of an expression to its value: the tokenizer reads what the tokens of an expression
  are written with, so that the text of an expression is parsed to its code.
\<close>

section \<open>Writing tokens\<close>

fun operator_text :: "binary_operator \<Rightarrow> bytes" where
  "operator_text BAdd = lit ''+''"
| "operator_text BSubtract = lit ''-''"
| "operator_text BMultiply = lit ''*''"
| "operator_text BDivide = lit ''/''"
| "operator_text BAnd = lit ''&&''"
| "operator_text BOr = lit ''||''"
| "operator_text BXor = lit ''^''"
| "operator_text BEq = lit ''==''"
| "operator_text BNe = lit ''!=''"
| "operator_text BLt = lit ''<''"
| "operator_text BLe = lit ''<=''"
| "operator_text BGt = lit ''>''"
| "operator_text BGe = lit ''>=''"

text \<open>
  Words are written as \<open>names\<close> says, strings in quotes. A regular expression is written together with the
  parenthesis that follows it.
\<close>

fun token_text :: "(('f, 'r) expr_token \<Rightarrow> bytes) \<Rightarrow> ('f, 'r) expr_token \<Rightarrow> bytes" where
  "token_text names (TBinary op) = operator_text op @ [0x20]"
| "token_text names (TUnary UNot) = lit ''! ''"
| "token_text names (TUnary UMinus) = lit ''- ''"
| "token_text names TOpenParen = lit ''( ''"
| "token_text names TCloseParen = lit '') ''"
| "token_text names TOpenBracket = lit ''[ ''"
| "token_text names TCloseBracket = lit ''] ''"
| "token_text names TComma = lit '', ''"
| "token_text names (TConstant (CString s)) = 0x22 # s @ [0x22, 0x20]"
| "token_text names (TRegex r) = lit ''matches('' @ 0x22 # names (TRegex r) @ [0x22, 0x2c]"
| "token_text names t = names t @ [0x20]"

definition is_regex :: "('f, 'r) expr_token \<Rightarrow> bool" where
  "is_regex t = (case t of TRegex _ \<Rightarrow> True | _ \<Rightarrow> False)"

fun tokens_text :: "(('f, 'r) expr_token \<Rightarrow> bytes) \<Rightarrow> bool \<Rightarrow> ('f, 'r) expr_token list \<Rightarrow> bytes" where
  "tokens_text names written [] = []"
| "tokens_text names written (t # ts) = (if written then [] else token_text names t) @ tokens_text names (is_regex t) ts"

section \<open>Texts that can be read\<close>

definition is_word_byte :: "u8 \<Rightarrow> bool" where
  "is_word_byte b \<longleftrightarrow> is_word_char b \<or> is_digit b \<or> b = 0x2e"

definition read_word :: "('f, 'r) token_env \<Rightarrow> bytes \<Rightarrow> expr_error + ('f, 'r) expr_token" where
  "read_word env w = buf_token env (list_ex is_digit w) (0x2e \<in> set w) (list_ex is_word_char w) w"

definition quotable :: "bytes \<Rightarrow> bool" where
  "quotable s \<longleftrightarrow> from_utf8 s \<and> 0x22 \<notin> set s \<and> 0x5c \<notin> set s"

text \<open>The words are read as the tokens they stand for.\<close>

fun spelled :: "('f, 'r) token_env \<Rightarrow> (('f, 'r) expr_token \<Rightarrow> bytes) \<Rightarrow> ('f, 'r) expr_token \<Rightarrow> bool" where
  "spelled env names (TConstant (CString s)) = quotable s"
| "spelled env names (TRegex r) = (quotable (names (TRegex r)) \<and> te_regex env (names (TRegex r)) = Some r)"
| "spelled env names (TVariable v) = (names (TVariable v) \<noteq> [] \<and> list_all is_word_byte (names (TVariable v)) \<and> read_word env (names (TVariable v)) = Inr (TVariable v))"
| "spelled env names (TCapture v) = (names (TCapture v) \<noteq> [] \<and> list_all is_word_byte (names (TCapture v)) \<and> read_word env (names (TCapture v)) = Inr (TCapture v))"
| "spelled env names (TFunction nm i n) = (names (TFunction nm i n) \<noteq> [] \<and> list_all is_word_byte (names (TFunction nm i n)) \<and> read_word env (names (TFunction nm i n)) = Inr (TFunction nm i n))"
| "spelled env names (TConstant c) = (names (TConstant c) \<noteq> [] \<and> list_all is_word_byte (names (TConstant c)) \<and> read_word env (names (TConstant c)) = Inr (TConstant c))"
| "spelled env names _ = True"

text \<open>A minus is unary at the start and after an operator, an opening parenthesis or a comma; binary elsewhere.\<close>

fun minus_ok :: "bool \<Rightarrow> ('f, 'r) expr_token list \<Rightarrow> bool" where
  "minus_ok start [] = True"
| "minus_ok start (t # ts) =
     ((t = TUnary UMinus \<longrightarrow> start) \<and> (t = TBinary BSubtract \<longrightarrow> \<not> start) \<and> minus_ok (starts_operand t) ts)"

text \<open>Parentheses are balanced, below the limit of the counter; one follows each regular expression.\<close>

fun nested :: "bool \<Rightarrow> nat \<Rightarrow> ('f, 'r) expr_token list \<Rightarrow> bool" where
  "nested written d [] = (\<not> written \<and> d = 0)"
| "nested written d (t # ts) =
     ((written \<longrightarrow> t = TOpenParen) \<and>
      (case t of
         TOpenParen \<Rightarrow> d + 1 < 2 ^ 32 \<and> nested False (d + 1) ts
       | TCloseParen \<Rightarrow> 0 < d \<and> nested False (d - 1) ts
       | _ \<Rightarrow> nested (is_regex t) d ts))"

section \<open>Reading them\<close>

definition st :: "bytes \<Rightarrow> nat \<Rightarrow> bool \<Rightarrow> ('f, 'r) expr_token list \<Rightarrow> ('f, 'r) tokenizer" where
  "st it d s nx =
     \<lparr>tk_iter = it, tk_buf = [], tk_depth = of_nat d, tk_next = nx, tk_has_number = False, tk_has_dot = False,
      tk_has_alpha = False, tk_is_start = s, tk_is_eof = False\<rparr>"

lemma next_loop_iter: "next_loop env it (tk\<lparr>tk_iter := x\<rparr>) = next_loop env it tk"
proof (induction env it tk rule: next_loop.induct)
  case (2 env ch it tk)
  then show ?case by (cases tk) simp
qed simp

lemma next_space: "next_expr_token env (st (0x20 # it) d s []) = next_expr_token env (st it d s [])"
  using next_loop_iter [where env = env and it = it and tk = "st it d s []" and x = "0x20 # it"]
  by (simp add: next_expr_token_def st_def is_word_char_def is_digit_def continues_buf_def is_space_def)

lemma all_tokens_space: "all_tokens env (st (0x20 # it) d s []) = all_tokens env (st it d s [])"
  by (simp add: all_tokens.simps [of env "st (0x20 # it) d s []"] all_tokens.simps [of env "st it d s []"] next_space)

lemma all_tokens_next:
  "next_expr_token env tk = Inr (Some t, tk') \<Longrightarrow> all_tokens env tk' = (ts, e) \<Longrightarrow> all_tokens env tk = (t # ts, e)"
  by (simp add: all_tokens.simps [of env tk])

lemma next_operator:
  "op = BSubtract \<longrightarrow> \<not> s \<Longrightarrow>
     next_expr_token env (st (operator_text op @ 0x20 # it) d s []) = Inr (Some (TBinary op), st (0x20 # it) d True [])"
  by (cases op)
    (simp_all add: next_expr_token_def st_def is_word_char_def is_digit_def continues_buf_def is_space_def separator_def
      prev_token_def separator_token_def skip_if_def starts_operand_def)

lemmas next_defs = next_expr_token_def is_word_char_def is_digit_def continues_buf_def is_space_def separator_def prev_token_def
  separator_token_def skip_if_def starts_operand_def

lemma next_separators:
  "next_expr_token env (st (lit ''! '' @ it) d s []) = Inr (Some (TUnary UNot), st (0x20 # it) d False [])"
  "next_expr_token env (st (lit ''- '' @ it) d True []) = Inr (Some (TUnary UMinus), st (0x20 # it) d False [])"
  "next_expr_token env (st (lit ''[ '' @ it) d s []) = Inr (Some TOpenBracket, st (0x20 # it) d False [])"
  "next_expr_token env (st (lit ''] '' @ it) d s []) = Inr (Some TCloseBracket, st (0x20 # it) d False [])"
  "next_expr_token env (st (lit '', '' @ it) d s []) = Inr (Some TComma, st (0x20 # it) d True [])"
  "next_expr_token env (st (lit ''( '' @ it) d s []) = Inr (Some TOpenParen, st (0x20 # it) (d + 1) True [])"
  by (simp_all add: st_def next_defs)

lemma next_close:
  assumes "0 < d" "d < 2 ^ 32"
  shows "next_expr_token env (st (lit '') '' @ it) d s []) = Inr (Some TCloseParen, st (0x20 # it) (d - 1) False [])"
proof -
  have "(of_nat d :: u32) \<noteq> 0"
    using assms unat_of_nat_less [of d, where 'a = 32] by force
  then show ?thesis
    using assms by (simp add: st_def next_defs of_nat_diff)
qed

text \<open>Strings.\<close>

lemma string_loop_plain:
  "0x22 \<notin> set s \<Longrightarrow> 0x5c \<notin> set s \<Longrightarrow> last_ch \<noteq> 0x5c \<Longrightarrow> string_loop 0x22 last_ch buf (s @ 0x22 # it) = Inr (buf @ s, it)"
  by (induction s arbitrary: last_ch buf) auto

lemma expr_parse_string_plain: "quotable s \<Longrightarrow> expr_parse_string 0x22 (s @ 0x22 # it) = Inr (s, it)"
  by (simp add: expr_parse_string_def quotable_def string_loop_plain)

lemma next_string:
  "quotable s \<Longrightarrow> next_expr_token env (st (0x22 # s @ 0x22 # it) d b []) = Inr (Some (TConstant (CString s)), st it d False [])"
  by (simp add: st_def next_defs expr_parse_string_plain)

text \<open>Words.\<close>

lemma next_loop_word:
  "list_all is_word_byte w \<Longrightarrow>
     next_loop env (w @ it) tk = next_loop env it (tk\<lparr>tk_buf := tk_buf tk @ w,
       tk_has_number := tk_has_number tk \<or> list_ex is_digit w, tk_has_dot := tk_has_dot tk \<or> 0x2e \<in> set w,
       tk_has_alpha := tk_has_alpha tk \<or> list_ex is_word_char w\<rparr>)"
proof (induction w arbitrary: tk)
  case (Cons b w)
  have "\<not> is_word_char 0x2e" "\<not> is_digit 0x2e" "is_digit b \<Longrightarrow> \<not> is_word_char b"
    by (auto simp: is_word_char_def is_digit_def word_le_nat_alt)
  then show ?case
    using Cons by (cases tk) (auto simp: is_word_byte_def)
qed simp

lemma word_bytes_utf8: "list_all is_word_byte w \<Longrightarrow> from_utf8 w"
proof (induction w)
  case (Cons b w)
  then have "b < 0x80"
    by (auto simp: is_word_byte_def is_word_char_def is_digit_def word_le_nat_alt word_less_nat_alt)
  then show ?case using Cons by (simp add: from_utf8_ascii)
qed simp

lemma next_word:
  assumes "w \<noteq> []" "list_all is_word_byte w" "read_word env w = Inr t"
  shows "next_expr_token env (st (w @ 0x20 # it) d s []) = Inr (Some t, st it d False [])"
  using assms
  by (simp add: next_expr_token_def st_def next_loop_word is_word_char_def is_digit_def continues_buf_def is_space_def separator_def
      prev_token_def parse_buf_def word_bytes_utf8 read_word_def)

text \<open>Regular expressions, with the parenthesis that is held back.\<close>

lemma next_regex:
  assumes "quotable w" "te_regex env w = Some r"
  shows "next_expr_token env (st (lit ''matches('' @ 0x22 # w @ 0x22 # 0x2c # it) d s [])
    = Inr (Some (TRegex r), st it (d + 1) True [TOpenParen])"
proof -
  define m where "m = lit ''matches''"
  have m: "list_all is_word_byte m" "\<not> list_ex is_digit m" "0x2e \<notin> set m" "m \<noteq> []" "lit ''matches('' = m @ [0x28]"
    by (simp_all add: m_def is_word_byte_def is_word_char_def is_digit_def)
  show ?thesis
    using assms unfolding m(5)
    by (simp add: next_expr_token_def st_def next_loop_word m(1-4))
      (simp add: next_defs m_def is_ascii_whitespace_def expr_parse_string_plain)
qed

section \<open>The text of an expression\<close>

lemma step_space:
  assumes "next_expr_token env (st it0 d s []) = Inr (Some t, st (0x20 # it) d' s' [])" "all_tokens env (st it d' s' []) = (ts, e)"
  shows "all_tokens env (st it0 d s []) = (t # ts, e)"
  using all_tokens_next [OF assms(1)] assms(2) by (simp add: all_tokens_space)

lemma step_word:
  assumes "w \<noteq> []" "list_all is_word_byte w" "read_word env w = Inr t" "all_tokens env (st it d False []) = (ts, e)"
  shows "all_tokens env (st (w @ 0x20 # it) d s []) = (t # ts, e)"
  using all_tokens_next [OF next_word [OF assms(1-3)]] assms(4) by blast

lemma next_held: "next_expr_token env (st it d s [t]) = Inr (Some t, st it d s [])"
  by (simp add: next_expr_token_def st_def)

fun is_separator :: "('f, 'r) expr_token \<Rightarrow> bool" where
  "is_separator (TVariable _) = False"
| "is_separator (TCapture _) = False"
| "is_separator (TFunction _ _ _) = False"
| "is_separator (TConstant _) = False"
| "is_separator (TRegex _) = False"
| "is_separator _ = True"

definition depth_after :: "nat \<Rightarrow> ('f, 'r) expr_token \<Rightarrow> nat" where
  "depth_after d t = (case t of TOpenParen \<Rightarrow> d + 1 | TCloseParen \<Rightarrow> d - 1 | _ \<Rightarrow> d)"

lemma next_separator:
  assumes "is_separator t" "t = TUnary UMinus \<longrightarrow> s" "t = TBinary BSubtract \<longrightarrow> \<not> s" "t = TCloseParen \<longrightarrow> 0 < d" "d < 2 ^ 32"
  shows "next_expr_token env (st (token_text names t @ it) d s []) = Inr (Some t, st (0x20 # it) (depth_after d t) (starts_operand t) [])"
proof (cases t)
  case (TUnary u)
  then show ?thesis
    using assms next_separators(1,2) [of env it d] by (cases u) (simp_all add: depth_after_def starts_operand_def)
qed (use assms next_operator [of _ s env it d] next_separators(3-6) [of env it d s] next_close [of d env it s]
    in \<open>simp_all add: depth_after_def starts_operand_def\<close>)

lemma nested_separator:
  "is_separator t \<Longrightarrow> nested False d (t # ts) \<Longrightarrow> d < 2 ^ 32 \<Longrightarrow>
     nested False (depth_after d t) ts \<and> depth_after d t < 2 ^ 32 \<and> (t = TCloseParen \<longrightarrow> 0 < d)"
  by (cases t) (auto simp: depth_after_def is_regex_def)

lemma not_separator:
  "\<not> is_separator t \<Longrightarrow> \<not> starts_operand t" "\<not> is_separator t \<Longrightarrow> nested False d (t # ts) \<longleftrightarrow> nested (is_regex t) d ts"
  "is_separator t \<Longrightarrow> \<not> is_regex t"
  by (cases t; simp add: starts_operand_def is_regex_def)+

lemma step_operand:
  assumes "\<not> is_separator t" "\<not> is_regex t" "spelled env names t" "all_tokens env (st it d False []) = (ts, None)"
  shows "all_tokens env (st (token_text names t @ it) d s []) = (t # ts, None)"
proof (cases "\<exists>str. t = TConstant (CString str)")
  case True
  then show ?thesis
    using assms step_space [OF next_string [of _ env "0x20 # it" d s]] by auto
next
  case False
  then have "token_text names t = names t @ [0x20]" "names t \<noteq> []" "list_all is_word_byte (names t)" "read_word env (names t) = Inr t"
    using assms by (cases "(names, t)" rule: token_text.cases; simp add: is_regex_def)+
  then show ?thesis using step_word assms(4) by simp
qed

lemma all_tokens_text:
  assumes "nested w d ts" "minus_ok s ts" "list_all (spelled env names) ts" "d < 2 ^ 32"
  shows "all_tokens env (if w then st (tokens_text names True ts) (d + 1) True [TOpenParen] else st (tokens_text names False ts) d s [])
    = (ts, None)"
  using assms
proof (induction ts arbitrary: w d s)
  case Nil
  then show ?case
    by (simp add: all_tokens.simps next_expr_token_def st_def end_token_def)
next
  case (Cons t ts)
  have m: "t = TUnary UMinus \<longrightarrow> s" "t = TBinary BSubtract \<longrightarrow> \<not> s" "minus_ok (starts_operand t) ts"
    and sp: "spelled env names t" "list_all (spelled env names) ts"
    using Cons.prems by simp_all
  consider (written) w | (separator) "\<not> w" "is_separator t" | (regex) r where "\<not> w" "t = TRegex r"
    | (operand) "\<not> w" "\<not> is_separator t" "\<not> is_regex t"
    by (cases t) (auto simp: is_regex_def)
  then show ?case
  proof cases
    case written
    then show ?thesis
      using Cons.prems Cons.IH [of False "d + 1" True] all_tokens_next [OF next_held]
      by (auto simp: starts_operand_def is_regex_def)
  next
    case separator
    then show ?thesis
      using Cons.prems(1,4) Cons.IH [of False "depth_after d t" "starts_operand t"] nested_separator [of t d ts] m sp
        step_space [OF next_separator [OF separator(2) m(1,2), of d env names "tokens_text names False ts"]]
      by (simp add: not_separator)
  next
    case regex
    then show ?thesis
      using Cons.prems Cons.IH [of True d False] all_tokens_next [OF next_regex [of "names t" env r "tokens_text names True ts" d s]]
      by (simp add: starts_operand_def is_regex_def)
  next
    case operand
    then show ?thesis
      using Cons.prems(1,4) Cons.IH [of False d False] m sp step_operand [OF operand(2,3) sp(1), of "tokens_text names False ts" d ts s]
      by (simp add: not_separator del: nested.simps)
  qed
qed

text \<open>The tokens of an expression are nested.\<close>

lemma nested_parens:
  assumes "\<And>d us. d + length ts < 2 ^ 32 \<Longrightarrow> nested False d (ts @ us) = nested False d us" "d + length (parens b ts) < 2 ^ 32"
  shows "nested False d (parens b ts @ us) = nested False d us"
  using assms by (cases b) (simp_all add: parens_def)

lemma nested_commas:
  assumes "\<And>ts d us. ts \<in> set tss \<Longrightarrow> d + length ts < 2 ^ 32 \<Longrightarrow> nested False d (ts @ us) = nested False d us"
    "d + length (commas tss) < 2 ^ 32"
  shows "nested False d (commas tss @ us) = nested False d us"
  using assms by (induction tss rule: commas.induct) (auto simp: is_regex_def)

lemma nested_tokens_of: "d + length (tokens_of p e) < 2 ^ 32 \<Longrightarrow> nested False d (tokens_of p e @ us) = nested False d us"
proof (induction e arbitrary: p d us)
  case (ECall nm fid es)
  then show ?case
    using nested_commas [of "map (tokens_of 0) es" "d + 1" "TCloseParen # us"] by (auto simp: is_regex_def)
next
  case (EArr es)
  then show ?case
    using nested_commas [of "map (tokens_of 0) es" d "TCloseBracket # us"] by (auto simp: is_regex_def)
next
  case (EUn op e)
  then show ?case by (auto intro!: nested_parens simp: is_regex_def)
next
  case (EBin op a b)
  then show ?case by (auto intro!: nested_parens simp: is_regex_def)
qed (auto intro!: nested_parens simp: is_regex_def)

lemma all_tokens_expression:
  assumes "length (tokens_of 0 e) < 2 ^ 32" "minus_ok True (tokens_of 0 e)" "list_all (spelled env names) (tokens_of 0 e)"
  shows "all_tokens env (tokenizer_new (tokens_text names False (tokens_of 0 e))) = (tokens_of 0 e, None)"
proof -
  have "nested False 0 (tokens_of 0 e)"
    using assms(1) nested_tokens_of [of 0 0 e "[]"] by simp
  then show ?thesis
    using all_tokens_text [of False 0 "tokens_of 0 e" True env names] assms by (simp add: st_def tokenizer_new_def)
qed

section \<open>Properties\<close>

text \<open>
  C5. The text of an expression, written with as few parentheses as the precedence of its operators allows, is
  parsed to a program whose evaluation gives the value of the expression: operands from left to right,
  operators of one precedence grouped to the left, \<open>&&\<close> and \<open>||\<close> without evaluating (and without
  the captures of) a right operand that does not matter, in any environment of variables,
  functions and regular expressions. Words must be read as what they stand for, minus signs stand where
  they can be told apart, and the sizes fit 32 bits.
\<close>

theorem expression_text_computes:
  assumes "writable e" "code_fits e" "length (tokens_of 0 e) < 2 ^ 32"
    "minus_ok True (tokens_of 0 e)" "list_all (spelled tenv names) (tokens_of 0 e)"
  shows "\<exists>items. expression_parse tenv (tokens_text names False (tokens_of 0 e)) = Inr items \<and>
    expr_eval env items captures = sem env e captures"
  using expression_computes [OF assms(1,2)] all_tokens_expression [OF assms(3-5)] by (simp add: expression_parse_def)

text \<open>An expression of the documentation's kind, with variables, an index, a comparison, a negation and a call.\<close>

definition sample_floats :: "unit floats" where
  "sample_floats =
     \<lparr>f_of_i64 = \<lambda>_. (), f_zero = (), f_add = \<lambda>_ _. (), f_sub = \<lambda>_ _. (), f_mul = \<lambda>_ _. (), f_div = \<lambda>_ _. (),
      f_neg = \<lambda>_. (), f_eq = \<lambda>_ _. True, f_cmp = \<lambda>_ _. Some OEqual, f_to_i64 = \<lambda>_. 0, f_to_usize = \<lambda>_. 0,
      f_display = \<lambda>_. lit ''0'', f_parse = \<lambda>_. None\<rparr>"

definition sample_tokens :: "(unit, bytes) token_env" where
  "sample_tokens = \<lparr>te_floats = sample_floats, te_tokens = with_all_variables (\<lambda>_. None), te_regex = Some\<rparr>"

definition sample_names :: "(unit, bytes) expr_token \<Rightarrow> bytes" where
  "sample_names t =
     (case t of
        TVariable v \<Rightarrow> if v = 2 then lit ''sender'' else lit ''rcpt''
      | TFunction nm _ _ \<Rightarrow> nm
      | TRegex r \<Rightarrow> r
      | TCapture _ \<Rightarrow> lit ''$1''
      | _ \<Rightarrow> lit ''10'')"

definition sample_env :: "(unit, bytes) expr_env" where
  "sample_env =
     \<lparr>env_floats = sample_floats, resolve_variable = \<lambda>v. VString (lit ''john''), env_functions = [],
      eval_fnc = \<lambda>_ _. VInteger 1, regex_captures = \<lambda>r s. Some [Some s]\<rparr>"

definition sample_expr :: "(unit, bytes) ast" where
  "sample_expr =
     EBin BAnd (EBin BGt (EIndex (EVar 0) (EConst (CInteger 10))) (EUn UMinus (EConst (CInteger 10))))
       (EBin BOr (EUn UNot (ECall (lit ''is_empty'') 7 [EVar 2])) (EMatch (lit ''ab'') (ECapture 1)))"

lemma sample_expr_tokens:
  "tokens_of 0 sample_expr =
     [TVariable 0, TOpenBracket, TConstant (CInteger 10), TCloseBracket, TBinary BGt, TUnary UMinus, TConstant (CInteger 10),
      TBinary BAnd, TOpenParen, TUnary UNot, TFunction (lit ''is_empty'') 7 1, TOpenParen, TVariable 2, TCloseParen,
      TBinary BOr, TRegex (lit ''ab''), TOpenParen, TCapture 1, TCloseParen, TCloseParen]"
  by (simp add: sample_expr_def parens_def)

lemma sample_spelled: "list_all (spelled sample_tokens sample_names) (tokens_of 0 sample_expr)"
proof -
  have "spelled sample_tokens sample_names t"
    if "t \<in> {TVariable 0, TVariable 2, TCapture 1, TConstant (CInteger 10), TFunction (lit ''is_empty'') 7 1, TRegex (lit ''ab'')}" for t
    using that
    by (auto simp: sample_names_def sample_tokens_def read_word_def buf_token_def word_token_def is_word_byte_def is_word_char_def
        is_digit_def FUNCTIONS_def ASYNC_FUNCTIONS_def with_all_variables_def with_variables_def VARIABLES_MAP_def parse_i64_def
        parse_unsigned_def parse_digits_def strip_plus_def quotable_def from_utf8_ascii)
  then show ?thesis by (simp add: sample_expr_tokens del: spelled.simps(1-6))
qed

lemmas parse_defs = expression_parse_def tokenizer_new_def all_tokens.simps next_defs parse_buf_def buf_token_def parse_i64_def
  parse_digits_def strip_plus_def from_utf8_ascii end_token_def expr_parse_def expr_parser_new_def parse_token_def

theorem expression_text_computes_witness:
  "writable sample_expr \<and> code_fits sample_expr \<and> length (tokens_of 0 sample_expr) < 2 ^ 32 \<and>
   minus_ok True (tokens_of 0 sample_expr) \<and> list_all (spelled sample_tokens sample_names) (tokens_of 0 sample_expr) \<and>
   (\<exists>items. expression_parse sample_tokens (tokens_text sample_names False (tokens_of 0 sample_expr)) = Inr items \<and>
      expr_eval sample_env items [] = sem sample_env sample_expr [])"
proof -
  have h: "writable sample_expr" "code_fits sample_expr" "length (tokens_of 0 sample_expr) < 2 ^ 32"
    "minus_ok True (tokens_of 0 sample_expr)"
    by (simp_all add: sample_expr_tokens starts_operand_def)
      (simp_all add: sample_expr_def jump_over_def ID_ARRAY_ACCESS_def ID_ARRAY_BUILD_def)
  then show ?thesis
    using expression_text_computes [OF h sample_spelled, of sample_env "[]"] sample_spelled by blast
qed

text \<open>A list that starts with a negative number loses that number: \<open>[-1, 2]\<close> is the list of 2 alone.\<close>

theorem array_drops_negative:
  "\<exists>items. expression_parse tenv (lit ''[-1, 2]'') = Inr items \<and> fst (expr_eval env items []) = VArray [VInteger 2]"
  by (simp add: parse_defs push_operator_def push_args_def push_output_def inc_arg_count_def parse_binary_def dec_arg_count_def
      count_argument_def ID_ARRAY_BUILD_def ID_ARRAY_ACCESS_def parse_close_def close_call_def call_item_def emit_binary_def
      update_jmp_pos_def expr_eval_def eval_item_def pop_default_def var_of_constant_def)

text \<open>A single \<open>=\<close> takes the character after it away: \<open>1=2\<close> is read as \<open>1 ==\<close> with nothing to its right.\<close>

theorem single_equals_swallows:
  "expression_parse tenv (lit ''1=2'') = Inr [IConstant (CInteger 1), IBinary BEq]"
  by (simp add: parse_defs push_output_def inc_arg_count_def parse_binary_def dec_arg_count_def push_operator_def emit_binary_def
      update_jmp_pos_def)

text \<open>An escaped character of a string keeps its backslash, and an escaped backslash hides the end of the string.\<close>

theorem string_escapes:
  "expr_parse_string 0x22 [0x61, 0x5c, 0x6e, 0x22] = Inr ([0x61, 0x5c, 0x0a], []) \<and>
   expr_parse_string 0x22 [0x5c, 0x5c, 0x22] = Inl UnterminatedString"
  by (simp add: expr_parse_string_def unescape_def from_utf8_ascii)

end
