(* ===== verification/Glob.thy ===== *)
theory Glob
  imports Prelude
begin

text \<open>
  Patterns with wildcards (crates/utils/src/glob.rs): their compilation, and that the matcher, which
  remembers only the last star, decides the same as trying all ways of matching.
  Characters are code points; the case conversions of the standard library are parameters.
\<close>

section \<open>Patterns\<close>

datatype pattern_char = WildcardMany nat nat | WildcardSingle nat | PatternChar u32 nat

record glob_pattern =
  gp_pattern :: "pattern_char list"
  gp_to_lower :: bool

record char_case =
  cc_is_uppercase :: "u32 \<Rightarrow> bool"
  cc_to_lowercase :: "u32 \<Rightarrow> u32 list"
  cc_str_to_lowercase :: "u32 list \<Rightarrow> u32 list"

function glob_chars :: "char_case \<Rightarrow> bool \<Rightarrow> bool \<Rightarrow> u32 list \<Rightarrow> pattern_char list" where
  "glob_chars cc to_lower is_escaped [] = []"
| "glob_chars cc to_lower is_escaped (c # str) =
     (if c = 0x2a \<and> \<not> is_escaped then
        WildcardMany (1 + length (takeWhile (\<lambda>c. c = 0x2a) str)) 0
          # glob_chars cc to_lower is_escaped (dropWhile (\<lambda>c. c = 0x2a) str)
      else if c = 0x3f \<and> \<not> is_escaped then WildcardSingle 0 # glob_chars cc to_lower is_escaped str
      else if c = 0x5c \<and> \<not> is_escaped then glob_chars cc to_lower True str
      else
        (if to_lower \<and> cc_is_uppercase cc c then map (\<lambda>c. PatternChar c 0) (cc_to_lowercase cc c) else [PatternChar c 0])
          @ glob_chars cc to_lower False str)"
  by pat_completeness auto
termination
  by (relation "measure (\<lambda>(_, _, _, str). length str)") (auto simp: less_Suc_eq_le length_dropWhile_le)

definition glob_compile :: "char_case \<Rightarrow> u32 list \<Rightarrow> bool \<Rightarrow> glob_pattern" where
  "glob_compile cc pattern to_lower = \<lparr>gp_pattern = glob_chars cc to_lower False pattern, gp_to_lower = to_lower\<rparr>"

section \<open>Matching\<close>

text \<open>
  One round of the loop on the positions \<open>px\<close>, \<open>nx\<close>, \<open>next_px\<close>, \<open>next_nx\<close>: go on, or the result.
\<close>

type_synonym glob_state = "nat \<times> nat \<times> nat \<times> nat"

definition glob_back :: "u32 list \<Rightarrow> glob_state \<Rightarrow> bool + glob_state" where
  "glob_back v s =
     (case s of (px, nx, next_px, next_nx) \<Rightarrow>
        if 0 < next_nx \<and> next_nx \<le> length v then Inr (next_px, next_nx, next_px, next_nx) else Inl False)"

definition glob_step :: "pattern_char list \<Rightarrow> u32 list \<Rightarrow> glob_state \<Rightarrow> bool + glob_state" where
  "glob_step p v s =
     (case s of (px, nx, next_px, next_nx) \<Rightarrow>
        if px < length p \<or> nx < length v then
          (if px < length p then
             (case p ! px of
                PatternChar c _ \<Rightarrow>
                  if nx < length v \<and> v ! nx = c then Inr (px + 1, nx + 1, next_px, next_nx) else glob_back v s
              | WildcardSingle _ \<Rightarrow> if nx < length v then Inr (px + 1, nx + 1, next_px, next_nx) else glob_back v s
              | WildcardMany _ _ \<Rightarrow> Inr (px + 1, nx, px, nx + 1))
           else glob_back v s)
        else Inl True)"

partial_function (option) glob_loop :: "pattern_char list \<Rightarrow> u32 list \<Rightarrow> glob_state \<Rightarrow> bool option" where
  "glob_loop p v s = (case glob_step p v s of Inl b \<Rightarrow> Some b | Inr s \<Rightarrow> glob_loop p v s)"

definition glob_matches :: "char_case \<Rightarrow> glob_pattern \<Rightarrow> u32 list \<Rightarrow> bool option" where
  "glob_matches cc g v =
     glob_loop (gp_pattern g) (if gp_to_lower g then cc_str_to_lowercase cc v else v) (0, 0, 0, 0)"

section \<open>All ways of matching\<close>

fun glob :: "pattern_char list \<Rightarrow> u32 list \<Rightarrow> bool" where
  "glob [] v = (v = [])"
| "glob (PatternChar c _ # p) v = (v \<noteq> [] \<and> hd v = c \<and> glob p (tl v))"
| "glob (WildcardSingle _ # p) v = (v \<noteq> [] \<and> glob p (tl v))"
| "glob (WildcardMany _ _ # p) v = list_ex (\<lambda>k. glob p (drop k v)) [0..<Suc (length v)]"

definition is_many :: "pattern_char \<Rightarrow> bool" where
  "is_many c = (case c of WildcardMany _ _ \<Rightarrow> True | _ \<Rightarrow> False)"

lemma is_many_simps [simp]: "is_many (WildcardMany a b)" "\<not> is_many (WildcardSingle b)" "\<not> is_many (PatternChar c b)"
  by (simp_all add: is_many_def)

lemma glob_many: "glob (WildcardMany a b # p) v \<longleftrightarrow> (\<exists>k \<le> length v. glob p (drop k v))"
  by (auto simp: list_ex_iff less_Suc_eq_le simp del: upt_Suc)

declare glob.simps(4) [simp del]

lemma glob_many_skip: "glob (WildcardMany a b # p) (drop n v) \<Longrightarrow> m \<le> n \<Longrightarrow> glob (WildcardMany a b # p) (drop m v)"
proof -
  assume "glob (WildcardMany a b # p) (drop n v)" and m: "m \<le> n"
  then obtain k where k: "glob p (drop (k + n) v)"
    by (auto simp: glob_many drop_drop)
  show ?thesis
  proof (cases "k + n \<le> length v")
    case True
    then show ?thesis
      using k m unfolding glob_many by (intro exI [of _ "k + n - m"]) (simp add: drop_drop)
  next
    case False
    then show ?thesis
      using k unfolding glob_many by (intro exI [of _ "length v - m"]) (simp add: drop_drop)
  qed
qed

lemma glob_many_unfold:
  "glob (WildcardMany a b # p) v \<longleftrightarrow> glob p v \<or> (v \<noteq> [] \<and> glob (WildcardMany a b # p) (tl v))"
proof -
  have "(\<exists>k \<le> length v. glob p (drop k v)) \<longleftrightarrow> glob p v \<or> (\<exists>k. Suc k \<le> length v \<and> glob p (drop (Suc k) v))"
    by (metis drop0 le0 not0_implies_Suc)
  then show ?thesis unfolding glob_many by (cases v) auto
qed

lemma glob_append_fixed:
  "glob (xs @ p) v \<Longrightarrow> \<not> list_ex is_many xs \<Longrightarrow> length xs \<le> length v \<and> glob p (drop (length xs) v)"
proof (induction xs arbitrary: v)
  case (Cons x xs)
  then show ?case by (cases x; cases v) auto
qed simp

section \<open>The matcher decides the same\<close>

text \<open>
  With a star remembered at \<open>next_px\<close>, either the loop has just gone back to it, or the pattern between
  it and \<open>px\<close> has no star and has been matched from position \<open>next_nx - 1\<close> on. The value matches if
  it does from here, or from the star on with one character more for it.
\<close>

definition glob_inv :: "pattern_char list \<Rightarrow> u32 list \<Rightarrow> glob_state \<Rightarrow> bool" where
  "glob_inv p v s =
     (case s of (px, nx, npx, nnx) \<Rightarrow>
        px \<le> length p \<and> nx \<le> length v \<and>
        (if nnx = 0 then glob p v = glob (drop px p) (drop nx v)
         else npx < length p \<and> is_many (p ! npx) \<and>
           (px = npx \<and> nx = nnx \<or>
            npx < px \<and> nx + npx + 2 = px + nnx \<and> (\<forall>i. npx < i \<and> i < px \<longrightarrow> \<not> is_many (p ! i))) \<and>
           glob p v = (glob (drop px p) (drop nx v) \<or> (nnx \<le> length v \<and> glob (drop npx p) (drop nnx v)))))"

definition glob_measure :: "pattern_char list \<Rightarrow> u32 list \<Rightarrow> glob_state \<Rightarrow> nat" where
  "glob_measure p v s =
     (case s of (px, nx, npx, nnx) \<Rightarrow>
        (2 * (length v + 1 - nnx) + (if px = npx \<and> nx = nnx \<and> 0 < nnx then 0 else 1)) * (length p + 1) + (length p - px))"

lemma is_manyE: "is_many c \<Longrightarrow> (\<And>a b. c = WildcardMany a b \<Longrightarrow> P) \<Longrightarrow> P"
  by (cases c) simp_all

text \<open>At a further star the earlier one can be forgotten.\<close>

lemma glob_later_star:
  assumes "glob (drop npx p) (drop nnx v)" "is_many (p ! npx)" "is_many (p ! px)" "npx < px" "px < length p"
    "nx + npx + 2 = px + nnx" "\<forall>i. npx < i \<and> i < px \<longrightarrow> \<not> is_many (p ! i)"
  shows "glob (drop px p) (drop nx v)"
proof -
  obtain a b where npx: "drop npx p = WildcardMany a b # drop (Suc npx) p"
    using assms(2,4,5) by (metis Cons_nth_drop_Suc is_manyE less_trans)
  obtain c d where px: "drop px p = WildcardMany c d # drop (Suc px) p"
    using assms(3,5) by (metis Cons_nth_drop_Suc is_manyE)
  define xs where "xs = take (px - Suc npx) (drop (Suc npx) p)"
  have xs: "drop (Suc npx) p = xs @ drop px p" "length xs = px - Suc npx"
    using assms(4,5) append_take_drop_id [of "px - Suc npx" "drop (Suc npx) p"] by (simp_all add: xs_def drop_drop)
  have "\<not> list_ex is_many xs"
    using assms(4,5,7) by (auto simp: xs_def list_ex_length)
  moreover obtain k where "glob (xs @ drop px p) (drop (k + nnx) v)"
    using assms(1) unfolding npx glob_many xs(1) by (auto simp: drop_drop)
  ultimately have "glob (drop px p) (drop (length xs + (k + nnx)) v)"
    using glob_append_fixed by (metis drop_drop)
  then show ?thesis
    unfolding px by (rule glob_many_skip) (use assms(4,6) xs(2) in simp)
qed

lemma measure_less:
  fixes n :: nat
  assumes "a < b \<or> a = b \<and> x < y" "x \<le> n"
  shows "a * (n + 1) + x < b * (n + 1) + y"
proof (cases "a < b")
  case True
  then have "(a + 1) * (n + 1) \<le> b * (n + 1)" by (intro mult_right_mono) simp_all
  then show ?thesis using assms(2) by (simp add: algebra_simps)
qed (use assms in simp)

lemma drop_nth: "n < length xs \<Longrightarrow> drop n xs = xs ! n # drop (Suc n) xs"
  by (rule Cons_nth_drop_Suc [symmetric])

lemma glob_inv_advance:
  assumes "glob_inv p v (px, nx, npx, nnx)" "px < length p" "nx < length v" "\<not> is_many (p ! px)"
    "glob (drop px p) (drop nx v) = glob (drop (px + 1) p) (drop (nx + 1) v)"
  shows "glob_inv p v (px + 1, nx + 1, npx, nnx) \<and> glob_measure p v (px + 1, nx + 1, npx, nnx) < glob_measure p v (px, nx, npx, nnx)"
proof -
  have "0 < nnx \<Longrightarrow> px \<noteq> npx" using assms(1,4) by (auto simp: glob_inv_def)
  then show ?thesis
    using assms by (auto simp: glob_inv_def glob_measure_def less_Suc_eq split: if_splits)
qed

lemma glob_inv_star:
  assumes "glob_inv p v (px, nx, npx, nnx)" "px < length p" "is_many (p ! px)"
  shows "glob_inv p v (px + 1, nx, px, nx + 1) \<and> glob_measure p v (px + 1, nx, px, nx + 1) < glob_measure p v (px, nx, npx, nnx)"
proof -
  obtain a b where px: "drop px p = WildcardMany a b # drop (Suc px) p"
    using assms(2,3) by (metis drop_nth is_manyE)
  have star: "glob (drop px p) (drop nx v) \<longleftrightarrow> glob (drop (Suc px) p) (drop nx v) \<or> (Suc nx \<le> length v \<and> glob (drop px p) (drop (Suc nx) v))"
    unfolding px by (subst glob_many_unfold) (auto simp: tl_drop drop_Suc)
  have later: "glob (drop npx p) (drop nnx v) \<Longrightarrow> 0 < nnx \<Longrightarrow> glob (drop px p) (drop nx v)"
    using assms glob_later_star [of npx p nnx v px nx] by (auto simp: glob_inv_def)
  then have "glob p v = glob (drop px p) (drop nx v)"
    using assms(1) by (auto simp: glob_inv_def split: if_splits)
  then have "glob_inv p v (px + 1, nx, px, nx + 1)"
    using assms star by (auto simp: glob_inv_def split: if_splits)
  moreover have "glob_measure p v (px + 1, nx, px, nx + 1) < glob_measure p v (px, nx, npx, nnx)"
    using assms(1,2) unfolding glob_measure_def prod.case by (intro measure_less) (auto simp: glob_inv_def split: if_splits)
  ultimately show ?thesis ..
qed

lemma glob_inv_back:
  assumes "glob_inv p v (px, nx, npx, nnx)" "\<not> glob (drop px p) (drop nx v)" "px < length p \<Longrightarrow> \<not> is_many (p ! px)"
  shows "case glob_back v (px, nx, npx, nnx) of Inl b \<Rightarrow> b = glob p v
    | Inr s' \<Rightarrow> glob_inv p v s' \<and> glob_measure p v s' < glob_measure p v (px, nx, npx, nnx)"
proof (cases "0 < nnx \<and> nnx \<le> length v")
  case True
  then have "\<not> (px = npx \<and> nx = nnx)" using assms by (auto simp: glob_inv_def)
  then have "glob_measure p v (npx, nnx, npx, nnx) < glob_measure p v (px, nx, npx, nnx)"
    using True unfolding glob_measure_def prod.case by (intro measure_less) auto
  with True show ?thesis
    using assms by (auto simp: glob_back_def glob_inv_def split: if_splits)
qed (use assms in \<open>auto simp: glob_back_def glob_inv_def split: if_splits\<close>)

lemma glob_step_inv:
  assumes inv: "glob_inv p v (px, nx, npx, nnx)"
  shows "case glob_step p v (px, nx, npx, nnx) of Inl b \<Rightarrow> b = glob p v
    | Inr s' \<Rightarrow> glob_inv p v s' \<and> glob_measure p v s' < glob_measure p v (px, nx, npx, nnx)"
proof (cases "px < length p")
  case True
  then show ?thesis
    using inv glob_inv_advance [OF inv] glob_inv_star [OF inv] glob_inv_back [OF inv]
    by (cases "p ! px"; cases "nx < length v") (auto simp: glob_step_def drop_nth)
next
  case False
  then have "drop px p = []" by simp
  then show ?thesis
    using inv glob_inv_back [OF inv] False by (auto simp: glob_step_def glob_inv_def split: if_splits)
qed

lemma glob_loop_correct: "glob_inv p v s \<Longrightarrow> glob_loop p v s = Some (glob p v)"
proof (induction s rule: measure_induct_rule [where f = "glob_measure p v"])
  case (less s)
  then have "case glob_step p v s of Inl b \<Rightarrow> b = glob p v | Inr s' \<Rightarrow> glob_inv p v s' \<and> glob_measure p v s' < glob_measure p v s"
    using glob_step_inv by (cases s) blast
  then show ?case
    using less.IH by (subst glob_loop.simps) (auto split: sum.splits)
qed

section \<open>Properties\<close>

text \<open>
  C9. The matcher always ends, although it forgets all stars but the last one, and it accepts a value exactly
  if some choice of what each star stands for makes the pattern and the value the same.
\<close>

theorem glob_matches_correct:
  "glob_matches cc g v = Some (glob (gp_pattern g) (if gp_to_lower g then cc_str_to_lowercase cc v else v))"
  unfolding glob_matches_def by (rule glob_loop_correct) (simp add: glob_inv_def)

definition glob_quote :: "u32 list \<Rightarrow> u32 list" where
  "glob_quote s = concat (map (\<lambda>c. if c \<in> {0x2a, 0x3f, 0x5c} then [0x5c, c] else [c]) s)"

lemma glob_chars_quote: "glob_chars cc False False (glob_quote s) = map (\<lambda>c. PatternChar c 0) s"
  unfolding glob_quote_def by (induction s) simp_all

lemma glob_literal: "glob (map (\<lambda>c. PatternChar c 0) s) v \<longleftrightarrow> v = s"
proof (induction s arbitrary: v)
  case (Cons c s)
  then show ?case by (cases v) auto
qed simp

text \<open>
  A text in which every special character is escaped is a pattern for this text alone.
\<close>

theorem glob_quote_matches: "glob_matches cc (glob_compile cc (glob_quote s) False) v = Some (v = s)"
  using glob_loop_correct [of "gp_pattern (glob_compile cc (glob_quote s) False)" v "(0, 0, 0, 0)"]
  by (simp add: glob_matches_def glob_compile_def glob_chars_quote glob_literal glob_inv_def)

end
