(* ===== verification/Snowflake.thy ===== *)
theory Snowflake
  imports Prelude
begin

text \<open>
  Identifiers made of the time, the node and a counter (crates/utils/src/snowflake.rs): those of one generator
  are distinct, those of different nodes too, they follow the clock, and the bound of a period in the
  past is below all identifiers of that period. The clock is an argument: the nanoseconds since the
  epoch of the generator, or none before it.
\<close>

section \<open>Generator\<close>

record snowflake =
  sf_node_id :: u64
  sf_sequence :: u64

definition SEQUENCE_LEN :: nat where
  "SEQUENCE_LEN = 12"

definition NODE_ID_LEN :: nat where
  "NODE_ID_LEN = 9"

definition SEQUENCE_MASK :: u64 where
  "SEQUENCE_MASK = push_bit SEQUENCE_LEN 1 - 1"

definition NODE_ID_MASK :: u64 where
  "NODE_ID_MASK = push_bit NODE_ID_LEN 1 - 1"

definition snowflake_with_node_id :: "u64 \<Rightarrow> snowflake" where
  "snowflake_with_node_id node_id = \<lparr>sf_node_id = node_id, sf_sequence = 0\<rparr>"

definition as_millis :: "nat \<Rightarrow> nat" where
  "as_millis nanos = nanos div 1000000"

definition past_id :: "nat option \<Rightarrow> nat \<Rightarrow> u64 option" where
  "past_id elapsed period =
     (case elapsed of
        None \<Rightarrow> None
      | Some t \<Rightarrow> if period \<le> t then Some (push_bit (SEQUENCE_LEN + NODE_ID_LEN) (of_nat (as_millis (t - period)))) else None)"

definition generate :: "nat option \<Rightarrow> snowflake \<Rightarrow> u64 option \<times> snowflake" where
  "generate elapsed s =
     (case elapsed of
        None \<Rightarrow> (None, s)
      | Some t \<Rightarrow>
          (Some (push_bit (SEQUENCE_LEN + NODE_ID_LEN) (of_nat (as_millis t))
             OR push_bit SEQUENCE_LEN (sf_node_id s AND NODE_ID_MASK)
             OR (sf_sequence s AND SEQUENCE_MASK)),
           s\<lparr>sf_sequence := sf_sequence s + 1\<rparr>))"

text \<open>The identifiers of a sequence of calls at the given times.\<close>

fun generate_all :: "nat list \<Rightarrow> snowflake \<Rightarrow> u64 list" where
  "generate_all [] s = []"
| "generate_all (t # ts) s =
     (case generate (Some t) s of (Some n, s) \<Rightarrow> n # generate_all ts s | (None, s) \<Rightarrow> generate_all ts s)"

section \<open>The parts of an identifier\<close>

definition snow_id :: "nat \<Rightarrow> u64 \<Rightarrow> u64 \<Rightarrow> nat" where
  "snow_id millis node n = millis * 2 ^ 21 + (unat node mod 2 ^ 9) * 2 ^ 12 + unat n mod 2 ^ 12"

lemma masks: "v AND SEQUENCE_MASK = take_bit 12 v" "v AND NODE_ID_MASK = take_bit 9 v"
  by (simp_all add: SEQUENCE_MASK_def NODE_ID_MASK_def SEQUENCE_LEN_def NODE_ID_LEN_def take_bit_eq_mask mask_eq_exp_minus_1)

lemma or_disjoint_parts:
  fixes m node n :: u64
  shows "push_bit 21 m OR push_bit 12 (take_bit 9 node) OR take_bit 12 n = push_bit 21 m + push_bit 12 (take_bit 9 node) + take_bit 12 n"
proof -
  have "push_bit 21 m AND push_bit 12 (take_bit 9 node) = 0"
    by (rule bit_word_eqI) (auto simp: bit_simps)
  then have a: "push_bit 21 m OR push_bit 12 (take_bit 9 node) = push_bit 21 m + push_bit 12 (take_bit 9 node)"
    by (rule disjunctive_add_eq_or [symmetric])
  have "(push_bit 21 m OR push_bit 12 (take_bit 9 node)) AND take_bit 12 n = 0"
    by (rule bit_word_eqI) (auto simp: bit_simps)
  then show ?thesis
    unfolding or.assoc [symmetric] by (subst disjunctive_add_eq_or [symmetric]) (simp_all add: a)
qed

lemma take_bit_word_of_nat: "take_bit k v = of_nat (unat v mod 2 ^ k)" for v :: "'a::len word"
proof -
  have "unat (take_bit k v) = unat v mod 2 ^ k"
    by (simp add: unsigned_take_bit_eq take_bit_eq_mod [where 'a = nat])
  then show ?thesis by (metis of_nat_unat ucast_id)
qed

lemma snow_id_less: "millis < 2 ^ 43 \<Longrightarrow> snow_id millis node n < 2 ^ 64"
proof -
  assume "millis < 2 ^ 43"
  then have "(millis + 1) * 2 ^ 21 \<le> 2 ^ 43 * 2 ^ 21" by (intro mult_right_mono) simp_all
  moreover have "unat node mod 2 ^ 9 < 2 ^ 9" "unat n mod 2 ^ 12 < 2 ^ 12" by simp_all
  ultimately show ?thesis by (simp add: snow_id_def)
qed

lemma generate_parts:
  assumes "as_millis t < 2 ^ 43"
  obtains n where "generate (Some t) s = (Some n, s\<lparr>sf_sequence := sf_sequence s + 1\<rparr>)"
    "unat n = snow_id (as_millis t) (sf_node_id s) (sf_sequence s)"
proof -
  define w :: u64 where "w = of_nat (snow_id (as_millis t) (sf_node_id s) (sf_sequence s))"
  have "push_bit 21 (of_nat (as_millis t)) OR push_bit 12 (take_bit 9 (sf_node_id s)) OR take_bit 12 (sf_sequence s) = w"
    unfolding or_disjoint_parts w_def snow_id_def
    by (simp add: take_bit_word_of_nat push_bit_eq_mult)
  moreover have "unat w = snow_id (as_millis t) (sf_node_id s) (sf_sequence s)"
    unfolding w_def using snow_id_less [OF assms] by (intro unat_of_nat_less) simp
  ultimately show ?thesis
    using that by (simp add: generate_def masks SEQUENCE_LEN_def NODE_ID_LEN_def)
qed

lemma snow_id_eq:
  assumes "snow_id m node n = snow_id m' node' n'"
  shows "m = m' \<and> unat node mod 2 ^ 9 = unat node' mod 2 ^ 9 \<and> unat n mod 2 ^ 12 = unat n' mod 2 ^ 12"
proof -
  have parts: "snow_id m node n div 2 ^ 21 = m" "snow_id m node n div 2 ^ 12 mod 2 ^ 9 = unat node mod 2 ^ 9"
    "snow_id m node n mod 2 ^ 12 = unat n mod 2 ^ 12" for m and node n :: u64
  proof -
    define q where "q = m * 2 ^ 9 + unat node mod 2 ^ 9"
    have "snow_id m node n = q * 2 ^ 12 + unat n mod 2 ^ 12" "q mod 2 ^ 9 = unat node mod 2 ^ 9"
      by (simp_all add: snow_id_def q_def)
    then show "snow_id m node n div 2 ^ 12 mod 2 ^ 9 = unat node mod 2 ^ 9" "snow_id m node n mod 2 ^ 12 = unat n mod 2 ^ 12"
      by simp_all
    show "snow_id m node n div 2 ^ 21 = m" by (simp add: snow_id_def)
  qed
  then show ?thesis using assms by metis
qed

section \<open>Sequences of identifiers\<close>

lemma generate_all_nth:
  "\<forall>t \<in> set ts. as_millis t < 2 ^ 43 \<Longrightarrow> i < length ts \<Longrightarrow>
     length (generate_all ts s) = length ts \<and>
     unat (generate_all ts s ! i) = snow_id (as_millis (ts ! i)) (sf_node_id s) (sf_sequence s + of_nat i)"
proof (induction ts arbitrary: s i)
  case (Cons t ts)
  obtain n where n: "generate (Some t) s = (Some n, s\<lparr>sf_sequence := sf_sequence s + 1\<rparr>)"
    "unat n = snow_id (as_millis t) (sf_node_id s) (sf_sequence s)"
    using generate_parts [of t s] Cons.prems(1) by auto
  show ?case
  proof (cases i)
    case 0
    then show ?thesis using n Cons.IH [of 0 "s\<lparr>sf_sequence := sf_sequence s + 1\<rparr>"] Cons.prems by (cases ts) auto
  next
    case (Suc j)
    then show ?thesis
      using n Cons.IH [of j "s\<lparr>sf_sequence := sf_sequence s + 1\<rparr>"] Cons.prems by (simp add: ac_simps)
  qed
qed simp

lemma seq_mod:
  fixes n :: u64
  assumes "i < j" "j - i < 2 ^ 12"
  shows "unat (n + of_nat i) mod 2 ^ 12 \<noteq> unat (n + of_nat j) mod 2 ^ 12"
proof
  assume eq: "unat (n + of_nat i) mod 2 ^ 12 = unat (n + of_nat j) mod 2 ^ 12"
  have m: "unat (n + of_nat k) mod 2 ^ 12 = (unat n + k) mod 2 ^ 12" for k
    by (simp add: unat_word_ariths unsigned_of_nat take_bit_eq_mod [where 'a = nat] mod_mod_cancel mod_simps)
  have "(2 ^ 12 :: nat) dvd (unat n + j) - (unat n + i)"
    using eq assms unfolding m by (metis add_le_cancel_left less_imp_le mod_eq_dvd_iff_nat)
  then show False
    using assms by (auto dest: nat_dvd_not_less)
qed

section \<open>Properties\<close>

text \<open>
  C18. The identifiers of one generator are distinct as long as any two calls in the same millisecond are less than
  4,096 calls apart, whatever the clock does otherwise, up to the year 2300; and a later millisecond gives a
  larger identifier.
\<close>

theorem snowflake_distinct:
  assumes "\<forall>t \<in> set ts. as_millis t < 2 ^ 43" "i < j" "j < length ts"
    "as_millis (ts ! i) = as_millis (ts ! j) \<Longrightarrow> j - i < 2 ^ 12"
  shows "generate_all ts s ! i \<noteq> generate_all ts s ! j \<and>
    (as_millis (ts ! i) < as_millis (ts ! j) \<longrightarrow> generate_all ts s ! i < generate_all ts s ! j)"
proof -
  have i: "unat (generate_all ts s ! i) = snow_id (as_millis (ts ! i)) (sf_node_id s) (sf_sequence s + of_nat i)"
    and j: "unat (generate_all ts s ! j) = snow_id (as_millis (ts ! j)) (sf_node_id s) (sf_sequence s + of_nat j)"
    using generate_all_nth [OF assms(1)] assms(2,3) by simp_all
  have "generate_all ts s ! i \<noteq> generate_all ts s ! j"
  proof
    assume "generate_all ts s ! i = generate_all ts s ! j"
    then show False
      using i j snow_id_eq seq_mod [OF assms(2)] assms(4) by metis
  qed
  moreover have "generate_all ts s ! i < generate_all ts s ! j" if less: "as_millis (ts ! i) < as_millis (ts ! j)"
  proof -
    have "(as_millis (ts ! i) + 1) * 2 ^ 21 \<le> as_millis (ts ! j) * 2 ^ 21"
      using less by (intro mult_right_mono) simp_all
    moreover have "unat (sf_node_id s) mod 2 ^ 9 < 2 ^ 9" "unat (sf_sequence s + of_nat i) mod 2 ^ 12 < 2 ^ 12" by simp_all
    ultimately have "unat (generate_all ts s ! i) < unat (generate_all ts s ! j)"
      unfolding i j snow_id_def by simp
    then show ?thesis by (simp add: word_less_nat_alt)
  qed
  ultimately show ?thesis by blast
qed

theorem snowflake_distinct_witness:
  "as_millis 5000000 < 2 ^ 43 \<and> as_millis 5100000 < 2 ^ 43 \<and>
   generate_all [5000000, 5100000] (snowflake_with_node_id 7) ! 0 \<noteq> generate_all [5000000, 5100000] (snowflake_with_node_id 7) ! 1"
  using snowflake_distinct [of "[5000000, 5100000]" 0 1 "snowflake_with_node_id 7"] by (simp add: as_millis_def)

text \<open>Generators of nodes whose numbers differ in the lowest nine bits never make the same identifier.\<close>

theorem snowflake_nodes_distinct:
  assumes "as_millis t < 2 ^ 43" "as_millis t' < 2 ^ 43" "unat (sf_node_id s) mod 2 ^ 9 \<noteq> unat (sf_node_id s') mod 2 ^ 9"
  shows "fst (generate (Some t) s) \<noteq> fst (generate (Some t') s')"
  using generate_parts [OF assms(1), of s] generate_parts [OF assms(2), of s'] snow_id_eq assms(3) by (metis fst_conv option.inject)

theorem snowflake_nodes_distinct_witness:
  "fst (generate (Some 5000000) (snowflake_with_node_id 7)) \<noteq> fst (generate (Some 5000000) (snowflake_with_node_id 8))"
  by (rule snowflake_nodes_distinct) (simp_all add: as_millis_def snowflake_with_node_id_def)

text \<open>The bound of a period is not above any identifier made in that period, so that nothing of the period is left out.\<close>

theorem past_id_bound:
  assumes "past_id (Some now) period = Some b" "generate (Some t) s = (Some n, s')" "now - period \<le> t" "t \<le> now" "as_millis now < 2 ^ 43"
  shows "b \<le> n"
proof -
  have le: "as_millis (now - period) \<le> as_millis t" "as_millis t < 2 ^ 43"
    using assms(3-5) div_le_mono [of t now 1000000] by (auto simp: as_millis_def div_le_mono)
  then have small: "as_millis (now - period) * 2 ^ 21 < 2 ^ 64" by simp
  have b: "b = of_nat (as_millis (now - period) * 2 ^ 21)"
    using assms(1) by (simp add: past_id_def SEQUENCE_LEN_def NODE_ID_LEN_def push_bit_eq_mult split: if_splits)
  have "unat b = as_millis (now - period) * 2 ^ 21"
    unfolding b using small by (intro unat_of_nat_less) simp
  also have "\<dots> \<le> as_millis t * 2 ^ 21" using le by simp
  also have "\<dots> \<le> unat n"
    by (rule generate_parts [OF le(2), of s]) (use assms(2) in \<open>simp add: snow_id_def\<close>)
  finally show ?thesis by (simp add: word_le_nat_alt)
qed

theorem past_id_bound_witness:
  "\<exists>b n s'. past_id (Some 9000000) 4000000 = Some b \<and> generate (Some 6000000) (snowflake_with_node_id 7) = (Some n, s') \<and> b \<le> n"
proof -
  obtain b n s' where h: "past_id (Some 9000000) 4000000 = Some b" "generate (Some 6000000) (snowflake_with_node_id 7) = (Some n, s')"
    by (simp add: past_id_def generate_def)
  then show ?thesis using past_id_bound [OF h] by (auto simp: as_millis_def)
qed

end
