(* ===== verification/Cron.thy ===== *)
theory Cron
  imports RustNum
begin

text \<open>
  The simple schedules of the configuration (crates/utils/src/config/cron.rs). Times are nanoseconds;
  the conversion of a time of day to a time, which depends on the time zone, is an argument, and the limits of
  the calendar library are not modelled.
\<close>

section \<open>Schedules\<close>

datatype simple_cron = CronDay u32 u32 | CronWeek u32 u32 u32 | CronHour u32

datatype cron_error = BadMinute | BadHour | BadWeekday | BadCron

fun split_spaces :: "bytes \<Rightarrow> bytes list" where
  "split_spaces [] = [[]]"
| "split_spaces (b # bs) =
     (if b = 0x20 then [] # split_spaces bs else case split_spaces bs of [] \<Rightarrow> [[b]] | w # ws \<Rightarrow> (b # w) # ws)"

definition parse_u32 :: "bytes \<Rightarrow> u32 option" where
  "parse_u32 s = map_option of_nat (parse_unsigned 32 s)"

definition cron_minute :: "bytes \<Rightarrow> cron_error + u32" where
  "cron_minute v =
     (case parse_u32 v of None \<Rightarrow> Inl BadMinute | Some minute \<Rightarrow> if \<not> minute \<le> 59 then Inl BadMinute else Inr minute)"

definition cron_hour :: "bytes \<Rightarrow> cron_error + u32 option" where
  "cron_hour v =
     (case v of
        [] \<Rightarrow> Inl BadHour
      | c # _ \<Rightarrow>
          if c = 0x2a then Inr None
          else (case parse_u32 v of None \<Rightarrow> Inl BadHour | Some hour \<Rightarrow> if \<not> hour \<le> 23 then Inl BadHour else Inr (Some hour)))"

definition cron_weekday :: "u32 \<Rightarrow> u32 \<Rightarrow> bytes \<Rightarrow> cron_error + simple_cron" where
  "cron_weekday hour minute v =
     (case v of
        [] \<Rightarrow> Inl BadWeekday
      | c # _ \<Rightarrow>
          if c = 0x2a then Inr (CronDay hour minute)
          else (case parse_u32 v of
                  None \<Rightarrow> Inl BadWeekday
                | Some day \<Rightarrow> if \<not> (1 \<le> hour \<and> hour \<le> 7) then Inl BadWeekday else Inr (CronWeek day hour minute)))"

definition cron_parse_value :: "bytes \<Rightarrow> cron_error + simple_cron" where
  "cron_parse_value value =
     (case split_spaces value of
        [] \<Rightarrow> Inl BadCron
      | m # rest \<Rightarrow>
          sbind (cron_minute m) (\<lambda>minute.
          case rest of
            [] \<Rightarrow> Inl BadCron
          | h # rest \<Rightarrow>
              sbind (cron_hour h) (\<lambda>hour.
              case hour of
                None \<Rightarrow> Inr (CronHour minute)
              | Some hour \<Rightarrow> (case rest of [] \<Rightarrow> Inl BadCron | d # _ \<Rightarrow> cron_weekday hour minute d))))"

section \<open>Time to the next run\<close>

text \<open>
  A zone gives, for the current time, the hour and the weekday (1 is Monday), and the first time of a given hour and
  minute on the current day, if there is one.
\<close>

record zone =
  z_hour :: "int \<Rightarrow> u32"
  z_weekday :: "int \<Rightarrow> u32"
  z_today_at :: "int \<Rightarrow> u32 \<Rightarrow> u32 \<Rightarrow> int option"

definition seconds :: "int \<Rightarrow> int" where
  "seconds n = n * 1000000000"

definition today_or_past :: "zone \<Rightarrow> int \<Rightarrow> u32 \<Rightarrow> u32 \<Rightarrow> int" where
  "today_or_past z now hour minute = (case z_today_at z now hour minute of Some t \<Rightarrow> t | None \<Rightarrow> now - seconds 1)"

definition cron_next :: "zone \<Rightarrow> int \<Rightarrow> simple_cron \<Rightarrow> int" where
  "cron_next z now c =
     (case c of
        CronDay hour minute \<Rightarrow>
          (let n = today_or_past z now hour minute in if n \<le> now then n + seconds 86400 else n)
      | CronWeek day hour minute \<Rightarrow>
          (let n = today_or_past z now hour minute in
           if n \<le> now then n + seconds 86400 * int (unat (7 - z_weekday z now + day)) else n)
      | CronHour minute \<Rightarrow>
          (let n = today_or_past z now (z_hour z now) minute in if n \<le> now then n + seconds 3600 else n))"

text \<open>\<^verbatim>\<open>to_std().unwrap()\<close>: a negative time is a panic, here no result.\<close>

definition time_to_next :: "zone \<Rightarrow> int \<Rightarrow> simple_cron \<Rightarrow> int option" where
  "time_to_next z now c = (let d = cron_next z now c - now in if d < 0 then None else Some d)"

section \<open>A zone without clock changes\<close>

text \<open>Time 0 is the start of a Monday.\<close>

definition day_start :: "int \<Rightarrow> int" where
  "day_start now = now div seconds 86400 * seconds 86400"

definition fixed_zone :: zone where
  "fixed_zone =
     \<lparr>z_hour = \<lambda>now. word_of_int (now mod seconds 86400 div seconds 3600),
      z_weekday = \<lambda>now. word_of_int (now div seconds 86400 mod 7 + 1),
      z_today_at = \<lambda>now hour minute.
        if hour < 24 \<and> minute < 60 then Some (day_start now + seconds (3600 * int (unat hour) + 60 * int (unat minute))) else None\<rparr>"

lemma fixed_today:
  assumes "hour < 24" "minute < 60"
  shows "today_or_past fixed_zone now hour minute = day_start now + seconds (3600 * int (unat hour) + 60 * int (unat minute))"
  using assms by (simp add: today_or_past_def fixed_zone_def)

lemma day_start_bounds: "day_start now \<le> now" "now < day_start now + seconds 86400"
proof -
  have "now = now div seconds 86400 * seconds 86400 + now mod seconds 86400" by simp
  moreover have "0 \<le> now mod seconds 86400" "now mod seconds 86400 < seconds 86400" by (simp_all add: seconds_def)
  ultimately show "day_start now \<le> now" "now < day_start now + seconds 86400" unfolding day_start_def by linarith+
qed

lemma cron_time_of_day:
  assumes "hour < (24 :: u32)" "minute < (60 :: u32)"
  shows "0 \<le> 3600 * int (unat hour) + 60 * int (unat minute)" "3600 * int (unat hour) + 60 * int (unat minute) \<le> 86400 - 60"
proof -
  have "unat hour \<le> 23" "unat minute \<le> 59" using assms by (simp_all add: word_less_nat_alt)
  then show "0 \<le> 3600 * int (unat hour) + 60 * int (unat minute)" "3600 * int (unat hour) + 60 * int (unat minute) \<le> 86400 - 60"
    by linarith+
qed

section \<open>Properties\<close>

text \<open>
  C24. A daily schedule always comes round: where the clocks do not change, the time to its next run is positive and at
  most a day, and ends at the given hour and minute.
\<close>

theorem cron_day_comes_round:
  assumes "hour < 24" "minute < 60"
  shows "\<exists>d. time_to_next fixed_zone now (CronDay hour minute) = Some d \<and> 0 < d \<and> d \<le> seconds 86400 \<and>
    (now + d) mod seconds 86400 = seconds (3600 * int (unat hour) + 60 * int (unat minute))"
proof -
  let ?t = "3600 * int (unat hour) + 60 * int (unat minute)"
  define d where "d = cron_next fixed_zone now (CronDay hour minute) - now"
  have t: "0 \<le> seconds ?t" "seconds ?t < seconds 86400"
    using cron_time_of_day [OF assms] by (simp_all add: seconds_def)
  have upcoming: "now + d = day_start now + seconds ?t \<or> now + d = day_start now + seconds ?t + seconds 86400"
    by (auto simp: d_def cron_next_def Let_def fixed_today [OF assms])
  have "0 < d" "d \<le> seconds 86400"
    using t day_start_bounds [of now] by (auto simp: d_def cron_next_def Let_def fixed_today [OF assms])
  moreover have "(now + d) mod seconds 86400 = seconds ?t"
    using upcoming t by (auto simp: day_start_def add.commute mod_simps)
  ultimately show ?thesis
    by (intro exI [of _ d]) (simp add: time_to_next_def d_def)
qed

theorem cron_day_comes_round_witness:
  "\<exists>d. time_to_next fixed_zone 0 (CronDay 3 30) = Some d \<and> 0 < d \<and> d \<le> seconds 86400 \<and>
    (0 + d) mod seconds 86400 = seconds (3600 * int (unat (3 :: u32)) + 60 * int (unat (30 :: u32)))"
  using cron_day_comes_round [of 3 30 0] by simp

text \<open>
  On a day on which the clocks go back an hour, a daily schedule for midnight has no time to its next run when
  it is asked for in the last hour of the day: the code adds 24 hours to the midnight that is 24 and a half hours ago, and
  the conversion of the negative difference panics.
\<close>

theorem cron_day_long_day_panics:
  assumes "z_today_at z now 0 0 = Some (now - seconds 88200)"
  shows "time_to_next z now (CronDay 0 0) = None"
  using assms by (simp add: time_to_next_def cron_next_def today_or_past_def Let_def seconds_def)

theorem cron_day_long_day_panics_witness:
  "time_to_next \<lparr>z_hour = \<lambda>_. 23, z_weekday = \<lambda>_. 7, z_today_at = \<lambda>now _ _. Some (now - seconds 88200)\<rparr> 0 (CronDay 0 0) = None"
  by (rule cron_day_long_day_panics) simp

text \<open>
  A weekly schedule is run on the wrong days: on a Wednesday at two o'clock, the schedule for Mondays at three is due in
  one hour; on a Monday at four o'clock, the one for Wednesdays at three is due in nine days less an hour.
\<close>

theorem cron_week_wrong_day:
  "time_to_next fixed_zone (seconds (2 * 86400 + 2 * 3600)) (CronWeek 1 3 0) = Some (seconds 3600) \<and>
   time_to_next fixed_zone (seconds (4 * 3600)) (CronWeek 3 3 0) = Some (seconds (9 * 86400 - 3600))"
  by (simp add: time_to_next_def cron_next_def today_or_past_def fixed_zone_def day_start_def seconds_def Let_def)

text \<open>
  The weekday of a schedule is not checked, and the hour is in its place: the weekly schedule of Mondays at eight is
  refused, and one for the ninth day of the week at three is accepted.
\<close>

theorem cron_weekday_unchecked:
  "cron_parse_value (lit ''0 8 1'') = Inl BadWeekday \<and> cron_parse_value (lit ''0 3 9'') = Inr (CronWeek 9 3 0)"
  by (simp add: cron_parse_value_def cron_minute_def cron_hour_def cron_weekday_def parse_u32_def parse_unsigned_def
      parse_digits_def strip_plus_def is_digit_def)

end
