(* ===== verification/IpMask.thy ===== *)
theory IpMask
  imports RustNum
begin

text \<open>
  Networks of addresses (crates/utils/src/config/ipmask.rs). Addresses are words of 32 and 128 bits, the number that
  their octets are in big-endian order.
\<close>

section \<open>Addresses and masks\<close>

type_synonym u128 = "128 word"

datatype ip_addr = IpV4 u32 | IpV6 u128

datatype ip_addr_mask = MaskV4 u32 u32 | MaskV6 u128 u128

datatype ip_addr_or_mask = IpOrMaskIp ip_addr | IpOrMaskMask ip_addr_mask

text \<open>IPv4 addresses inside IPv6: the mapped ones \<open>::ffff:a.b.c.d\<close>, and for \<^verbatim>\<open>to_ipv4\<close> also \<open>::a.b.c.d\<close>.\<close>

definition to_ipv6_mapped :: "u32 \<Rightarrow> u128" where
  "to_ipv6_mapped a = push_bit 32 0xffff OR ucast a"

definition to_ipv4_mapped :: "u128 \<Rightarrow> u32 option" where
  "to_ipv4_mapped a = (if drop_bit 32 a = 0xffff then Some (ucast a) else None)"

definition to_ipv4 :: "u128 \<Rightarrow> u32 option" where
  "to_ipv4 a = (if drop_bit 32 a = 0xffff \<or> drop_bit 32 a = 0 then Some (ucast a) else None)"

definition mask_matches :: "ip_addr_mask \<Rightarrow> ip_addr \<Rightarrow> bool" where
  "mask_matches m remote =
     (case m of
        MaskV4 addr netmask \<Rightarrow>
          if netmask = -1 then
            (case remote of
               IpV4 r \<Rightarrow> addr = r
             | IpV6 r \<Rightarrow> (case to_ipv4_mapped r of Some r \<Rightarrow> addr = r | None \<Rightarrow> False))
          else if netmask = 0 then (case remote of IpV4 _ \<Rightarrow> True | IpV6 _ \<Rightarrow> False)
          else
            (case remote of
               IpV4 r \<Rightarrow> r AND netmask = addr AND netmask
             | IpV6 r \<Rightarrow> (case to_ipv4 r of Some r \<Rightarrow> r AND netmask = addr AND netmask | None \<Rightarrow> False))
      | MaskV6 addr netmask \<Rightarrow>
          if netmask = -1 then (case remote of IpV6 r \<Rightarrow> r = addr | IpV4 r \<Rightarrow> to_ipv6_mapped r = addr)
          else if netmask = 0 then (case remote of IpV6 _ \<Rightarrow> True | IpV4 _ \<Rightarrow> False)
          else (case remote of IpV6 r \<Rightarrow> r | IpV4 r \<Rightarrow> to_ipv6_mapped r) AND netmask = addr AND netmask)"

section \<open>Parsing\<close>

text \<open>
  \<^verbatim>\<open>str::parse::<IpAddr>\<close> of the standard library: what is read, and the rest of the text. A number has at most
  \<open>maxd\<close> digits and has to be below \<open>bound\<close>; those of an IPv4 address have no leading zeros.
\<close>

definition hex_value :: "u8 \<Rightarrow> nat option" where
  "hex_value b =
     (if is_digit b then Some (unat b - 0x30)
      else if 0x61 \<le> b \<and> b \<le> 0x66 then Some (unat b - 0x61 + 10)
      else if 0x41 \<le> b \<and> b \<le> 0x46 then Some (unat b - 0x41 + 10)
      else None)"

definition is_radix_digit :: "nat \<Rightarrow> u8 \<Rightarrow> bool" where
  "is_radix_digit radix b = (case hex_value b of Some d \<Rightarrow> d < radix | None \<Rightarrow> False)"

definition read_number :: "nat \<Rightarrow> nat \<Rightarrow> bool \<Rightarrow> nat \<Rightarrow> bytes \<Rightarrow> (nat \<times> bytes) option" where
  "read_number radix maxd allow_zero_prefix bound bs =
     (let ds = takeWhile (is_radix_digit radix) bs; n = foldl (\<lambda>n b. radix * n + the (hex_value b)) 0 ds in
      if ds = [] \<or> length ds > maxd \<or> \<not> n < bound \<or> (\<not> allow_zero_prefix \<and> hd ds = 0x30 \<and> length ds > 1) then None
      else Some (n, drop (length ds) bs))"

definition read_given_char :: "u8 \<Rightarrow> bytes \<Rightarrow> bytes option" where
  "read_given_char c bs = (case bs of b # bs \<Rightarrow> if b = c then Some bs else None | [] \<Rightarrow> None)"

definition read_separator :: "u8 \<Rightarrow> nat \<Rightarrow> (bytes \<Rightarrow> ('a \<times> bytes) option) \<Rightarrow> bytes \<Rightarrow> ('a \<times> bytes) option" where
  "read_separator sep i f bs = (if i > 0 then (case read_given_char sep bs of Some bs \<Rightarrow> f bs | None \<Rightarrow> None) else f bs)"

fun read_octets :: "nat \<Rightarrow> nat \<Rightarrow> nat \<Rightarrow> bytes \<Rightarrow> (nat \<times> bytes) option" where
  "read_octets i 0 acc bs = Some (acc, bs)"
| "read_octets i (Suc k) acc bs =
     (case read_separator 0x2e i (read_number 10 3 False 256) bs of
        Some (n, bs) \<Rightarrow> read_octets (i + 1) k (acc * 256 + n) bs
      | None \<Rightarrow> None)"

definition read_ipv4_addr :: "bytes \<Rightarrow> (u32 \<times> bytes) option" where
  "read_ipv4_addr bs = map_option (\<lambda>(n, bs). (of_nat n, bs)) (read_octets 0 4 0 bs)"

text \<open>Groups of an IPv6 address: up to \<open>k\<close> more after the first \<open>i\<close>, and whether the last two came from an IPv4 address.\<close>

fun read_groups :: "nat \<Rightarrow> nat \<Rightarrow> bytes \<Rightarrow> nat list \<times> bool \<times> bytes" where
  "read_groups i 0 bs = ([], False, bs)"
| "read_groups i (Suc k) bs =
     (case (if 0 < k then read_separator 0x3a i read_ipv4_addr bs else None) of
        Some (a, bs) \<Rightarrow> ([unat a div 65536, unat a mod 65536], True, bs)
      | None \<Rightarrow>
          (case read_separator 0x3a i (read_number 16 4 True 65536) bs of
             Some (g, bs) \<Rightarrow> (let (gs, v4, bs) = read_groups (i + 1) k bs in (g # gs, v4, bs))
           | None \<Rightarrow> ([], False, bs)))"

definition of_groups :: "nat list \<Rightarrow> u128" where
  "of_groups gs = of_nat (foldl (\<lambda>n g. n * 65536 + g) 0 gs)"

definition read_ipv6_addr :: "bytes \<Rightarrow> (u128 \<times> bytes) option" where
  "read_ipv6_addr bs =
     (let (head, v4, bs) = read_groups 0 8 bs in
      if length head = 8 then Some (of_groups head, bs)
      else if v4 then None
      else
        (case Option.bind (read_given_char 0x3a bs) (read_given_char 0x3a) of
           Some bs \<Rightarrow>
             (let (tail, _, bs) = read_groups 0 (8 - (length head + 1)) bs in
              Some (of_groups (head @ replicate (8 - length head - length tail) 0 @ tail), bs))
         | None \<Rightarrow> None))"

definition parse_ip :: "bytes \<Rightarrow> ip_addr option" where
  "parse_ip bs =
     (case (case read_ipv4_addr bs of
              Some (a, bs) \<Rightarrow> Some (IpV4 a, bs)
            | None \<Rightarrow> map_option (\<lambda>(a, bs). (IpV6 a, bs)) (read_ipv6_addr bs)) of
        Some (a, []) \<Rightarrow> Some a
      | _ \<Rightarrow> None)"

definition rsplit_slash :: "bytes \<Rightarrow> (bytes \<times> bytes) option" where
  "rsplit_slash s =
     (if 0x2f \<in> set s
      then Some (butlast (rev (dropWhile (\<lambda>b. b \<noteq> 0x2f) (rev s))), rev (takeWhile (\<lambda>b. b \<noteq> 0x2f) (rev s)))
      else None)"

definition mask_parse_value :: "bytes \<Rightarrow> ip_addr_mask option" where
  "mask_parse_value s =
     (case rsplit_slash s of
        Some (addr, prefix) \<Rightarrow>
          (case (parse_ip (trim addr), parse_unsigned 32 (trim prefix)) of
             (Some (IpV4 addr), Some prefix) \<Rightarrow>
               if 8 \<le> prefix \<and> prefix \<le> 32 then Some (MaskV4 addr (push_bit (32 - prefix) (-1))) else None
           | (Some (IpV6 addr), Some prefix) \<Rightarrow>
               if 8 \<le> prefix \<and> prefix \<le> 128 then Some (MaskV6 addr (push_bit (128 - prefix) (-1))) else None
           | _ \<Rightarrow> None)
      | None \<Rightarrow>
          (case parse_ip (trim s) of
             Some (IpV4 addr) \<Rightarrow> Some (MaskV4 addr (-1))
           | Some (IpV6 addr) \<Rightarrow> Some (MaskV6 addr (-1))
           | None \<Rightarrow> None))"

definition ip_or_mask_parse_value :: "bytes \<Rightarrow> ip_addr_or_mask option" where
  "ip_or_mask_parse_value s =
     (if 0x2f \<in> set s then map_option IpOrMaskMask (mask_parse_value s) else map_option IpOrMaskIp (parse_ip s))"

section \<open>Membership\<close>

text \<open>Two addresses are in the same network if they agree above the mask.\<close>

lemma and_mask_eq:
  fixes a b :: "'a::len word"
  assumes "n \<le> LENGTH('a)"
  shows "a AND push_bit n (-1) = b AND push_bit n (-1) \<longleftrightarrow> drop_bit n a = drop_bit n b"
proof
  assume eq: "a AND push_bit n (-1) = b AND push_bit n (-1)"
  show "drop_bit n a = drop_bit n b"
  proof (rule bit_word_eqI)
    fix k assume k: "k < LENGTH('a)"
    have "bit (a AND push_bit n (-1)) (n + k) = bit (b AND push_bit n (-1)) (n + k)" using eq by simp
    then show "bit (drop_bit n a) k = bit (drop_bit n b) k"
      by (cases "n + k < LENGTH('a)") (auto simp: bit_simps bit_imp_le_length)
  qed
next
  assume eq: "drop_bit n a = drop_bit n b"
  show "a AND push_bit n (-1) = b AND push_bit n (-1)"
  proof (rule bit_word_eqI)
    fix k assume k: "k < LENGTH('a)"
    have "bit (drop_bit n a) (k - n) = bit (drop_bit n b) (k - n)" using eq by simp
    then show "bit (a AND push_bit n (-1)) k = bit (b AND push_bit n (-1)) k"
      by (cases "n \<le> k") (auto simp: bit_simps)
  qed
qed

lemma push_bit_minus_one_neq:
  assumes "0 < n" "n < LENGTH('a)"
  shows "push_bit n (-1) \<noteq> (-1 :: 'a::len word)" "push_bit n (-1) \<noteq> (0 :: 'a::len word)"
proof -
  have "\<not> bit (push_bit n (-1) :: 'a word) 0" "bit (push_bit n (-1) :: 'a word) n"
    using assms by (simp_all add: bit_simps)
  then show "push_bit n (-1) \<noteq> (-1 :: 'a word)" "push_bit n (-1) \<noteq> (0 :: 'a word)"
    by auto
qed

lemma to_ipv4_to_ipv6 [simp]:
  "to_ipv4_mapped (to_ipv6_mapped r) = Some r" "to_ipv4 (to_ipv6_mapped r) = Some r"
proof -
  have parts: "drop_bit 32 (push_bit 32 x OR ucast r) = take_bit 96 x" "ucast (push_bit 32 x OR ucast r) = r" for x :: u128
    by (rule bit_word_eqI; auto simp: bit_simps dest: bit_imp_le_length)+
  have "drop_bit 32 (to_ipv6_mapped r) = 0xffff"
    unfolding to_ipv6_mapped_def parts by simp
  moreover have "ucast (to_ipv6_mapped r) = r"
    unfolding to_ipv6_mapped_def parts ..
  ultimately show "to_ipv4_mapped (to_ipv6_mapped r) = Some r" "to_ipv4 (to_ipv6_mapped r) = Some r"
    by (simp_all add: to_ipv4_mapped_def to_ipv4_def)
qed

lemma mask_v4_matches:
  assumes "0 < n" "n \<le> 32"
  shows "mask_matches (MaskV4 addr (push_bit (32 - n) (-1))) (IpV4 r) \<longleftrightarrow> drop_bit (32 - n) r = drop_bit (32 - n) addr"
    "mask_matches (MaskV4 addr (push_bit (32 - n) (-1))) (IpV6 (to_ipv6_mapped r)) \<longleftrightarrow> drop_bit (32 - n) r = drop_bit (32 - n) addr"
  using assms push_bit_minus_one_neq [of "32 - n", where 'a = 32] and_mask_eq [of "32 - n" r addr]
  by (cases "n = 32"; auto simp: mask_matches_def)+

lemma rsplit_slash_digits: "rsplit_slash (a @ 0x2f # fmt_digits n) = Some (a, fmt_digits n)"
proof -
  have "0x2f \<notin> set (fmt_digits n)"
    using fmt_digits_digits [of n] by (auto simp: list_all_iff is_digit_def word_le_nat_alt)
  then have "takeWhile (\<lambda>b. b \<noteq> 0x2f) (rev (fmt_digits n) @ 0x2f # rev a) = rev (fmt_digits n)"
    "dropWhile (\<lambda>b. b \<noteq> 0x2f) (rev (fmt_digits n) @ 0x2f # rev a) = 0x2f # rev a"
    by (subst takeWhile_append2 dropWhile_append2; auto)+
  then show ?thesis
    by (simp add: rsplit_slash_def)
qed

lemma trim_digits: "trim (fmt_digits n) = fmt_digits n"
proof -
  have g: "graphic b" if "is_digit b" for b
    using that by (simp add: is_digit_def graphic_def word_le_nat_alt word_less_nat_alt)
  have "fmt_digits n \<noteq> []" "\<forall>b \<in> set (fmt_digits n). graphic b"
    using fmt_digits_digits [of n] g by (auto simp: list_all_iff)
  then show ?thesis by (simp add: trim_graphic)
qed

text \<open>An IPv4 address as it is written, and read back.\<close>

definition octets :: "u32 \<Rightarrow> nat list" where
  "octets a = [unat a div 2 ^ 24, unat a div 2 ^ 16 mod 256, unat a div 2 ^ 8 mod 256, unat a mod 256]"

definition ipv4_display :: "u32 \<Rightarrow> bytes" where
  "ipv4_display a =
     (case octets a of [w, x, y, z] \<Rightarrow> fmt_digits w @ [0x2e] @ fmt_digits x @ [0x2e] @ fmt_digits y @ [0x2e] @ fmt_digits z)"

lemma radix_digit: "is_digit b \<Longrightarrow> is_radix_digit 10 b" "is_digit b \<Longrightarrow> the (hex_value b) = unat (b - 0x30)"
  by (auto simp: is_radix_digit_def hex_value_def is_digit_def word_le_nat_alt unat_sub)

lemma fmt_digits_short: "n < 1000 \<Longrightarrow> length (fmt_digits n) \<le> 3"
  by (subst fmt_digits.simps, simp, subst fmt_digits.simps, simp, subst fmt_digits.simps, simp)

lemma fmt_digits_zero: "hd (fmt_digits n) = 0x30 \<Longrightarrow> n = 0"
proof (induction n rule: less_induct)
  case (less n)
  show ?case
  proof (cases "n < 10")
    case True
    then have "(0x30 + of_nat n :: u8) = 0x30" using less(2) by (simp add: fmt_digits.simps [of n])
    then have "of_nat n = (0 :: u8)" by simp
    then have "unat (of_nat n :: u8) = 0" by simp
    then show ?thesis using True by (simp add: unat_of_nat_less)
  next
    case False
    then have "hd (fmt_digits (n div 10)) = 0x30" using less(2) fmt_digits_digits [of "n div 10"] by (simp add: fmt_digits.simps [of n])
    then have "n div 10 = 0" using less(1) [of "n div 10"] False by simp
    then show ?thesis using False by simp
  qed
qed

lemma read_number_fmt:
  assumes "n < 256" "rest = [] \<or> \<not> is_radix_digit 10 (hd rest)"
  shows "read_number 10 3 False 256 (fmt_digits n @ rest) = Some (n, rest)"
proof -
  have d: "\<forall>b \<in> set (fmt_digits n). is_digit b" and ne: "fmt_digits n \<noteq> []"
    using fmt_digits_digits [of n] by (auto simp: list_all_iff)
  have tw: "takeWhile (is_radix_digit 10) (fmt_digits n @ rest) = fmt_digits n"
    using d assms(2) by (subst takeWhile_append2) (auto simp: radix_digit takeWhile_eq_Nil_iff)
  have "foldl (\<lambda>k b. 10 * k + the (hex_value b)) 0 (fmt_digits n) = foldl (\<lambda>k b. 10 * k + unat (b - 0x30)) 0 (fmt_digits n)"
    using d by (intro foldl_cong) (simp_all add: radix_digit)
  also have "\<dots> = n" using parse_digits_fmt [of n] by (simp add: parse_digits_def split: if_splits)
  finally show ?thesis
    using assms(1) ne fmt_digits_short [of n] fmt_digits_zero [of n]
    by (auto simp: read_number_def tw Let_def) (simp add: fmt_digits.simps)
qed

lemma read_octets_fmt:
  assumes "w < 256" "x < 256" "y < 256" "z < 256"
  shows "read_octets 0 (Suc (Suc (Suc (Suc 0)))) 0
      (fmt_digits w @ 0x2e # fmt_digits x @ 0x2e # fmt_digits y @ 0x2e # fmt_digits z) =
    Some (((w * 256 + x) * 256 + y) * 256 + z, [])"
proof -
  have n: "\<not> is_radix_digit 10 0x2e" by code_simp
  have "read_number 10 3 False 256 (fmt_digits k @ 0x2e # bs) = Some (k, 0x2e # bs)" if "k < 256" for k bs
    using that n by (intro read_number_fmt) simp_all
  moreover have "read_number 10 3 False 256 (fmt_digits z) = Some (z, [])"
    using assms(4) read_number_fmt [of z "[]"] by simp
  ultimately show ?thesis using assms by (simp add: read_separator_def read_given_char_def)
qed

lemma octets_value: "((w div 2 ^ 24 * 256 + w div 2 ^ 16 mod 256) * 256 + w div 2 ^ 8 mod 256) * 256 + w mod 256 = (w :: nat)"
proof -
  have a: "w div 2 ^ 24 = w div 256 div 256 div 256" "w div 2 ^ 16 = w div 256 div 256" "w div 2 ^ 8 = w div 256"
    by (simp_all add: div_mult2_eq [symmetric])
  show ?thesis unfolding a by simp
qed

lemma read_ipv4_display: "parse_ip (ipv4_display a) = Some (IpV4 a)"
proof -
  have "unat a < 2 ^ 32" using unsigned_less [of a, where 'a = nat] by simp
  then have "unat a div 2 ^ 24 < 256" by simp
  then have "read_octets 0 (Suc (Suc (Suc (Suc 0)))) 0 (ipv4_display a) = Some (unat a, [])"
    using read_octets_fmt [of "unat a div 2 ^ 24" "unat a div 2 ^ 16 mod 256" "unat a div 2 ^ 8 mod 256" "unat a mod 256"]
    unfolding octets_value by (simp add: ipv4_display_def octets_def)
  moreover have "(4::nat) = Suc (Suc (Suc (Suc 0)))" by simp
  ultimately have "read_ipv4_addr (ipv4_display a) = Some (a, [])" unfolding read_ipv4_addr_def by (simp only:) simp
  then show ?thesis by (simp add: parse_ip_def)
qed

lemma ipv4_display_ends: "ipv4_display a \<noteq> []" "is_digit (hd (ipv4_display a))" "is_digit (last (ipv4_display a))"
proof -
  have "fmt_digits n \<noteq> []" "is_digit (last (fmt_digits n))" for n
    using fmt_digits_digits [of n] by (auto simp: list_all_iff)
  then show "ipv4_display a \<noteq> []" "is_digit (hd (ipv4_display a))" "is_digit (last (ipv4_display a))"
    by (simp_all add: ipv4_display_def octets_def hd_fmt_digits)
qed

lemma trim_ipv4: "trim (ipv4_display a) = ipv4_display a"
  using ipv4_display_ends [of a] by (intro trim_graphic) (auto simp: is_digit_def graphic_def word_le_nat_alt word_less_nat_alt)

section \<open>Properties\<close>

text \<open>
  C25. A network written with an IPv4 address and a prefix length contains exactly the addresses that have
  the same first bits, also when the remote address comes as an IPv4-mapped IPv6 address.
\<close>

theorem mask_network:
  assumes "8 \<le> n" "n \<le> 32"
  shows "\<exists>m. mask_parse_value (ipv4_display addr @ 0x2f # fmt_digits n) = Some m \<and>
    (\<forall>r. mask_matches m (IpV4 r) = (drop_bit (32 - n) r = drop_bit (32 - n) addr)) \<and>
    (\<forall>r. mask_matches m (IpV6 (to_ipv6_mapped r)) = (drop_bit (32 - n) r = drop_bit (32 - n) addr))"
  using assms mask_v4_matches [of n addr]
  by (simp add: mask_parse_value_def rsplit_slash_digits trim_digits parse_unsigned_fmt trim_ipv4 read_ipv4_display)

theorem mask_network_witness:
  "\<exists>m. mask_parse_value (ipv4_display 0x0a000000 @ 0x2f # fmt_digits 8) = Some m \<and>
    mask_matches m (IpV4 0x0a1e140b) = (drop_bit (32 - 8) (0x0a1e140b :: u32) = drop_bit (32 - 8) 0x0a000000)"
  using mask_network [of 8 "0x0a000000"] by auto

text \<open>
  The deprecated IPv6 form \<open>::10.0.0.1\<close> of an address is in the networks of the address but is not the address itself.
\<close>

theorem compatible_address_in_networks_only:
  "mask_matches (MaskV4 0x0a000001 (push_bit 8 (-1))) (IpV6 0x0a000001) \<and> \<not> mask_matches (MaskV4 0x0a000001 (-1)) (IpV6 0x0a000001)"
  using push_bit_minus_one_neq [of 8, where 'a = 32] by (simp add: mask_matches_def to_ipv4_def to_ipv4_mapped_def)

end
