(* ===== verification/ImapReceiver.thy ===== *)
theory ImapReceiver
  imports RustNum
begin

text \<open>
  The receiver of client commands (crates/imap-proto/src/receiver.rs), shared by the IMAP and ManageSieve servers: a state
  machine that is fed the bytes of the connection in pieces of any size.
  Sizes (\<^verbatim>\<open>usize\<close>) are natural numbers: they count bytes in memory.
\<close>

section \<open>Tokens, requests and state\<close>

datatype imap_token =
    Argument bytes
  | ParenthesisOpen
  | ParenthesisClose
  | BracketOpen
  | BracketClose
  | TokLt
  | TokGt
  | Dot
  | TokNil

text \<open>The trait \<^verbatim>\<open>CommandParser\<close>: the commands of a protocol.\<close>

record 'c command_parser =
  cp_parse :: "bytes \<Rightarrow> bool \<Rightarrow> 'c option"
  cp_default :: 'c
  cp_tokenize_brackets :: "'c \<Rightarrow> bool"

record 'c request =
  rq_tag :: bytes
  rq_command :: 'c
  rq_tokens :: "imap_token list"

definition request_default :: "'c command_parser \<Rightarrow> 'c request" where
  "request_default cp = \<lparr>rq_tag = [], rq_command = cp_default cp, rq_tokens = []\<rparr>"

datatype receiver_state =
    StStart
  | StTag
  | StCommand bool
  | StArgument u8
  | StArgumentQuoted bool
  | StLiteral bool
  | StLiteralSeek u32 bool
  | StLiteralData u32

record 'c receiver =
  rc_buf :: bytes
  rc_request :: "'c request"
  rc_state :: receiver_state
  rc_max_request_size :: nat
  rc_current_request_size :: nat
  rc_start_state :: receiver_state

definition receiver_with_max_request_size :: "'c command_parser \<Rightarrow> nat \<Rightarrow> 'c receiver" where
  "receiver_with_max_request_size cp n =
     \<lparr>rc_buf = [], rc_request = request_default cp, rc_state = StStart, rc_max_request_size = n,
      rc_current_request_size = 0, rc_start_state = StStart\<rparr>"

definition receiver_new :: "'c command_parser \<Rightarrow> 'c receiver" where
  "receiver_new cp = receiver_with_max_request_size cp (25 * 1024 * 1024)"

definition with_start_state :: "receiver_state \<Rightarrow> 'c receiver \<Rightarrow> 'c receiver" where
  "with_start_state s r = r\<lparr>rc_state := s, rc_start_state := s\<rparr>"

datatype receiver_message =
    RequestTooLarge
  | TagNotUtf8
  | MissingCommand bytes
  | TagTooLong
  | CommandTooLong
  | UnrecognizedCommand bytes
  | InvalidCommandCharacter u8
  | QuotedTooLong
  | UnterminatedQuoted
  | LiteralSizeInvalid
  | LiteralTooLarge
  | EmptyLiteral
  | InvalidNonSync
  | InvalidLiteral
  | InvalidLiteralCharacter u8
  | ExpectedCrlf
  | ReceiverPanic

text \<open>How a call of \<^verbatim>\<open>parse\<close> ends; an error carries the tag of the command, if there was one.\<close>

datatype 'c outcome =
    Done "'c request"
  | NeedsMoreData
  | NeedsLiteral u32
  | Failed "bytes option" receiver_message

section \<open>Helpers\<close>

definition error_reset :: "'c command_parser \<Rightarrow> receiver_message \<Rightarrow> 'c receiver \<Rightarrow> 'c outcome \<times> 'c receiver" where
  "error_reset cp m r =
     (Failed (if rq_tag (rc_request r) \<noteq> [] then Some (rq_tag (rc_request r)) else None) m,
      r\<lparr>rc_request := request_default cp, rc_buf := [], rc_state := rc_start_state r, rc_current_request_size := 0\<rparr>)"

definition add_token :: "imap_token \<Rightarrow> 'c receiver \<Rightarrow> 'c receiver" where
  "add_token t r = r\<lparr>rc_request := (rc_request r)\<lparr>rq_tokens := rq_tokens (rc_request r) @ [t]\<rparr>\<rparr>"

text \<open>An error ends the step; otherwise it goes on with the new state.\<close>

type_synonym 'c step = "'c outcome option \<times> 'c receiver"

definition fail :: "'c command_parser \<Rightarrow> receiver_message \<Rightarrow> 'c receiver \<Rightarrow> 'c step" where
  "fail cp m r = (case error_reset cp m r of (e, r) \<Rightarrow> (Some e, r))"

definition andThen :: "'c step \<Rightarrow> ('c receiver \<Rightarrow> 'c step) \<Rightarrow> 'c step" where
  "andThen s f = (case s of (None, r) \<Rightarrow> f r | (Some e, r) \<Rightarrow> (Some e, r))"

definition go :: "receiver_state \<Rightarrow> 'c receiver \<Rightarrow> 'c step" where
  "go s r = (None, r\<lparr>rc_state := s\<rparr>)"

definition push_argument :: "'c command_parser \<Rightarrow> bool \<Rightarrow> 'c receiver \<Rightarrow> 'c step" where
  "push_argument cp in_quote r =
     (if rc_buf r \<noteq> [] then
        (let r = r\<lparr>rc_current_request_size := rc_current_request_size r + length (rc_buf r)\<rparr> in
         if rc_current_request_size r > rc_max_request_size r then fail cp RequestTooLarge r
         else (None, (add_token (Argument (rc_buf r)) r)\<lparr>rc_buf := []\<rparr>))
      else if in_quote then (None, add_token TokNil r)
      else (None, r))"

definition push_token :: "'c command_parser \<Rightarrow> imap_token \<Rightarrow> 'c receiver \<Rightarrow> 'c step" where
  "push_token cp t r =
     (let r = r\<lparr>rc_current_request_size := rc_current_request_size r + 1\<rparr> in
      if rc_current_request_size r > rc_max_request_size r then fail cp RequestTooLarge r
      else (None, add_token t r))"

definition rc_push_byte :: "u8 \<Rightarrow> 'c receiver \<Rightarrow> 'c receiver" where
  "rc_push_byte ch r = r\<lparr>rc_buf := rc_buf r @ [ch]\<rparr>"

text \<open>The request is complete.\<close>

definition finish_request :: "'c command_parser \<Rightarrow> 'c receiver \<Rightarrow> 'c step" where
  "finish_request cp r =
     (Some (Done (rc_request r)),
      r\<lparr>rc_state := rc_start_state r, rc_current_request_size := 0, rc_request := request_default cp\<rparr>)"

section \<open>The states\<close>

definition step_start :: "u8 \<Rightarrow> 'c receiver \<Rightarrow> 'c step" where
  "step_start ch r = (if \<not> is_ascii_whitespace ch then go StTag (rc_push_byte ch r) else (None, r))"

definition step_tag :: "'c command_parser \<Rightarrow> u8 \<Rightarrow> 'c receiver \<Rightarrow> 'c step" where
  "step_tag cp ch r =
     (if ch = 0x20 then
        (if rc_buf r \<noteq> [] then
           (if from_utf8 (rc_buf r)
            then go (StCommand False) (r\<lparr>rc_request := (rc_request r)\<lparr>rq_tag := rc_buf r\<rparr>, rc_buf := []\<rparr>)
            else fail cp TagNotUtf8 (r\<lparr>rc_buf := []\<rparr>))
         else (None, r))
      else if ch = 0x09 \<or> ch = 0x0d then (None, r)
      else if ch = 0x0a then fail cp (MissingCommand (if from_utf8 (rc_buf r) then rc_buf r else [])) r
      else if length (rc_buf r) < 128 then (None, rc_push_byte ch r)
      else fail cp TagTooLong r)"

definition step_command :: "'c command_parser \<Rightarrow> bool \<Rightarrow> u8 \<Rightarrow> 'c receiver \<Rightarrow> 'c step" where
  "step_command cp is_uid ch r =
     (if is_ascii_alpha ch \<or> is_digit ch then
        (if length (rc_buf r) < 15 then (None, rc_push_byte (ascii_uppercase ch) r) else fail cp CommandTooLong r)
      else if is_ascii_whitespace ch then
        (if rc_buf r \<noteq> [] then
           (if \<not> eq_ignore_ascii_case (rc_buf r) (lit ''UID'') then
              (case cp_parse cp (rc_buf r) is_uid of
                 None \<Rightarrow> fail cp (UnrecognizedCommand (from_utf8_lossy (rc_buf r))) r
               | Some c \<Rightarrow>
                   (let r = r\<lparr>rc_request := (rc_request r)\<lparr>rq_command := c\<rparr>, rc_buf := []\<rparr> in
                    if ch \<noteq> 0x0a then go (StArgument 0x20) r else finish_request cp r))
            else go (StCommand True) (r\<lparr>rc_buf := []\<rparr>))
         else (None, r))
      else fail cp (InvalidCommandCharacter ch) r)"

definition bracket_token :: "u8 \<Rightarrow> imap_token option" where
  "bracket_token ch =
     (if ch = 0x5b then Some BracketOpen
      else if ch = 0x5d then Some BracketClose
      else if ch = 0x3c then Some TokLt
      else if ch = 0x3e then Some TokGt
      else if ch = 0x2e then Some Dot
      else None)"

definition step_argument :: "'c command_parser \<Rightarrow> u8 \<Rightarrow> u8 \<Rightarrow> 'c receiver \<Rightarrow> 'c step" where
  "step_argument cp last_ch ch r =
     (if ch = 0x22 \<and> is_ascii_whitespace last_ch then
        andThen (push_argument cp False r) (go (StArgumentQuoted False))
      else if ch = 0x7b \<and> (is_ascii_whitespace last_ch \<or> (last_ch = 0x7e \<and> length (rc_buf r) = 1)) then
        andThen (if last_ch \<noteq> 0x7e then push_argument cp False r else (None, r\<lparr>rc_buf := []\<rparr>)) (go (StLiteral False))
      else if ch = 0x28 then andThen (push_argument cp False r) (push_token cp ParenthesisOpen)
      else if ch = 0x29 then andThen (push_argument cp False r) (push_token cp ParenthesisClose)
      else if bracket_token ch \<noteq> None \<and> cp_tokenize_brackets cp (rq_command (rc_request r)) then
        andThen (push_argument cp False r) (push_token cp (the (bracket_token ch)))
      else if ch = 0x0a then andThen (push_argument cp False r) (finish_request cp)
      else if is_ascii_whitespace ch then andThen (push_argument cp False r) (go (StArgument ch))
      else go (StArgument ch) (rc_push_byte ch r))"

definition step_quoted :: "'c command_parser \<Rightarrow> bool \<Rightarrow> u8 \<Rightarrow> 'c receiver \<Rightarrow> 'c step" where
  "step_quoted cp escaped ch r =
     (if ch = 0x22 then
        (if \<not> escaped then andThen (push_argument cp True r) (go (StArgument 0x20))
         else if length (rc_buf r) < 1024 then go (StArgumentQuoted False) (rc_push_byte ch r)
         else fail cp QuotedTooLong r)
      else if ch = 0x5c then go (StArgumentQuoted (\<not> escaped)) (if escaped then rc_push_byte ch r else r)
      else if ch = 0x0a then fail cp UnterminatedQuoted r
      else if length (rc_buf r) < 1024 then
        go (StArgumentQuoted False) (rc_push_byte ch (if escaped then rc_push_byte 0x5c r else r))
      else fail cp QuotedTooLong r)"

definition step_literal :: "'c command_parser \<Rightarrow> bool \<Rightarrow> u8 \<Rightarrow> 'c receiver \<Rightarrow> 'c step" where
  "step_literal cp non_sync ch r =
     (if ch = 0x7d then
        (if rc_buf r \<noteq> [] then
           (if \<not> from_utf8 (rc_buf r) then fail cp ReceiverPanic r
            else case parse_unsigned 32 (rc_buf r) of
              None \<Rightarrow> fail cp LiteralSizeInvalid r
            | Some sz \<Rightarrow>
                if rc_current_request_size r + sz > rc_max_request_size r then fail cp LiteralTooLarge r
                else go (StLiteralSeek (of_nat sz) non_sync) (r\<lparr>rc_buf := []\<rparr>))
         else fail cp EmptyLiteral r)
      else if ch = 0x2b then
        (if rc_buf r \<noteq> [] then go (StLiteral True) r else fail cp InvalidNonSync r)
      else if is_digit ch then (if \<not> non_sync then (None, rc_push_byte ch r) else fail cp InvalidLiteral r)
      else fail cp (InvalidLiteralCharacter ch) r)"

definition step_seek :: "'c command_parser \<Rightarrow> u32 \<Rightarrow> bool \<Rightarrow> u8 \<Rightarrow> 'c receiver \<Rightarrow> 'c step" where
  "step_seek cp sz non_sync ch r =
     (if ch = 0x0a then
        andThen
          (if sz > 0 then go (StLiteralData sz) r else push_token cp TokNil (r\<lparr>rc_state := StArgument 0x20\<rparr>))
          (\<lambda>r. (if \<not> non_sync then Some (NeedsLiteral sz) else None, r))
      else if \<not> is_ascii_whitespace ch then fail cp ExpectedCrlf r
      else (None, r))"

definition step_data :: "'c command_parser \<Rightarrow> u32 \<Rightarrow> u8 \<Rightarrow> 'c receiver \<Rightarrow> 'c step" where
  "step_data cp remaining ch r =
     (let r = rc_push_byte ch r in
      if remaining > 1 then go (StLiteralData (remaining - 1)) r
      else andThen (push_argument cp False r) (go (StArgument 0x20)))"

definition rc_step :: "'c command_parser \<Rightarrow> u8 \<Rightarrow> 'c receiver \<Rightarrow> 'c step" where
  "rc_step cp ch r =
     (case rc_state r of
        StStart \<Rightarrow> step_start ch r
      | StTag \<Rightarrow> step_tag cp ch r
      | StCommand is_uid \<Rightarrow> step_command cp is_uid ch r
      | StArgument last_ch \<Rightarrow> step_argument cp last_ch ch r
      | StArgumentQuoted escaped \<Rightarrow> step_quoted cp escaped ch r
      | StLiteral non_sync \<Rightarrow> step_literal cp non_sync ch r
      | StLiteralSeek sz non_sync \<Rightarrow> step_seek cp sz non_sync ch r
      | StLiteralData remaining \<Rightarrow> step_data cp remaining ch r)"

section \<open>Parsing\<close>

fun rc_parse :: "'c command_parser \<Rightarrow> bytes \<Rightarrow> 'c receiver \<Rightarrow> 'c outcome \<times> bytes \<times> 'c receiver" where
  "rc_parse cp [] r = (NeedsMoreData, [], r)"
| "rc_parse cp (ch # bs) r =
     (case rc_step cp ch r of
        (None, r) \<Rightarrow> rc_parse cp bs r
      | (Some out, r) \<Rightarrow> (out, bs, r))"

text \<open>
  The session (crates/imap/src/core/client.rs): requests are taken from the bytes read until there are no more, a literal has
  to be asked for, or a command is wrong; what is left of the bytes is then dropped. Whether the session allows a request is decided elsewhere.
\<close>

lemma rc_parse_shorter: "rc_parse cp bs r = (Done q, bs', r') \<Longrightarrow> length bs' < length bs"
proof (induction cp bs r rule: rc_parse.induct)
  case (2 cp ch bs r)
  then show ?case by (auto simp: less_Suc_eq split: prod.splits option.splits)
qed simp

function rc_collect :: "'c command_parser \<Rightarrow> bytes \<Rightarrow> 'c receiver \<Rightarrow> 'c request list \<times> 'c outcome \<times> 'c receiver" where
  "rc_collect cp bs r =
     (case rc_parse cp bs r of
        (Done q, bs, r) \<Rightarrow> (let (qs, out, r) = rc_collect cp bs r in (q # qs, out, r))
      | (out, _, r) \<Rightarrow> ([], out, r))"
  by pat_completeness auto
termination
  by (relation "measure (\<lambda>(_, bs, _). length bs)") (auto dest: rc_parse_shorter [OF sym])

declare rc_collect.simps [simp del]

text \<open>The bytes of a connection come in pieces, one read after the other, whatever became of the earlier ones.\<close>

fun rc_reads :: "'c command_parser \<Rightarrow> bytes list \<Rightarrow> 'c receiver \<Rightarrow> 'c request list \<times> 'c receiver" where
  "rc_reads cp [] r = ([], r)"
| "rc_reads cp (bs # bss) r =
     (let (qs, out, r) = rc_collect cp bs r; (qs', r) = rc_reads cp bss r in (qs @ qs', r))"

text \<open>The states a receiver comes to.\<close>

inductive rc_reach :: "'c command_parser \<Rightarrow> nat \<Rightarrow> 'c receiver \<Rightarrow> bool" for cp m where
  imap: "rc_reach cp m (receiver_with_max_request_size cp m)"
| managesieve: "rc_reach cp m (with_start_state (StCommand False) (receiver_with_max_request_size cp m))"
| reset: "rc_reach cp m r \<Longrightarrow> rc_reach cp m (snd (error_reset cp e r))"
| parse: "rc_reach cp m r \<Longrightarrow> rc_reach cp m (snd (snd (rc_parse cp bs r)))"

section \<open>Pieces\<close>

lemmas step_defs = step_start_def step_tag_def step_command_def step_argument_def step_quoted_def step_literal_def step_seek_def
  step_data_def

lemmas push_defs = fail_def error_reset_def go_def push_argument_def push_token_def finish_request_def Let_def

lemma andThen_simps [simp]: "andThen (None, r) f = f r" "andThen (Some e, r) f = (Some e, r)"
  by (simp_all add: andThen_def)

lemma fail_eq: "fail cp m r = (Some (Failed (if rq_tag (rc_request r) \<noteq> [] then Some (rq_tag (rc_request r)) else None) m),
    r\<lparr>rc_request := request_default cp, rc_buf := [], rc_state := rc_start_state r, rc_current_request_size := 0\<rparr>)"
  by (simp add: fail_def error_reset_def)

text \<open>Only the end of the bytes asks for more of them.\<close>

definition ends :: "'c step \<Rightarrow> bool" where
  "ends s \<longleftrightarrow> fst s \<noteq> Some NeedsMoreData"

lemma ends_simps [simp]:
  "ends (fail cp m r)" "ends (go s r)" "ends (None, r)" "ends (push_argument cp q r)" "ends (push_token cp t r)" "ends (finish_request cp r)"
  "ends (Some (NeedsLiteral n), r)"
  by (simp_all add: ends_def fail_eq go_def push_argument_def push_token_def finish_request_def Let_def)

lemma ends_andThen [simp]: "ends s \<Longrightarrow> (\<And>r. ends (f r)) \<Longrightarrow> ends (andThen s f)"
  by (cases s; cases "fst s") (auto simp: ends_def)

lemma ends_if: "ends s \<Longrightarrow> ends t \<Longrightarrow> ends (if c then s else t)"
  by simp

lemma ends_steps:
  "ends (step_start ch r)" "ends (step_tag cp ch r)" "ends (step_command cp b ch r)" "ends (step_argument cp l ch r)"
  "ends (step_quoted cp b ch r)" "ends (step_literal cp b ch r)" "ends (step_seek cp n b ch r)" "ends (step_data cp n ch r)"
  unfolding step_defs Let_def by (intro ends_if ends_andThen ends_simps; simp split: option.split)+

lemma rc_step_ends: "ends (rc_step cp ch r)"
  by (cases "rc_state r") (simp_all add: rc_step_def ends_steps)

text \<open>Parsing goes on where it stopped for want of data.\<close>

lemma rc_parse_append:
  "rc_parse cp (xs @ ys) r =
     (case rc_parse cp xs r of
        (NeedsMoreData, _, r) \<Rightarrow> rc_parse cp ys r
      | (out, zs, r) \<Rightarrow> (out, zs @ ys, r))"
proof (induction cp xs r rule: rc_parse.induct)
  case (2 cp ch bs r)
  show ?case
  proof (cases "rc_step cp ch r")
    case (Pair out r')
    then have "out \<noteq> Some NeedsMoreData" using rc_step_ends [of cp ch r] by (simp add: ends_def)
    then show ?thesis using 2 Pair by (auto split: option.split outcome.split)
  qed
qed simp

lemma rc_collect_append:
  "rc_collect cp xs r = (qs, NeedsMoreData, r1) \<Longrightarrow>
     rc_collect cp (xs @ ys) r = (case rc_collect cp ys r1 of (qs', out, r2) \<Rightarrow> (qs @ qs', out, r2))"
proof (induction cp xs r arbitrary: qs r1 rule: rc_collect.induct)
  case (1 cp xs r)
  obtain out zs r' where p: "rc_parse cp xs r = (out, zs, r')" by (cases "rc_parse cp xs r") auto
  show ?case
  proof (cases out)
    case (Done q)
    then obtain qs' where "rc_collect cp zs r' = (qs', NeedsMoreData, r1)" "qs = q # qs'"
      using 1(2) p by (subst (asm) rc_collect.simps) (auto split: prod.splits)
    then show ?thesis
      using 1(1) [OF p [symmetric] Done refl] Done p
      by (subst rc_collect.simps) (auto simp: rc_parse_append split: prod.splits)
  next
    case NeedsMoreData
    then have "qs = []" "r1 = r'" using 1(2) p by (subst (asm) rc_collect.simps, simp)+
    then show ?thesis
      using NeedsMoreData p by (subst (1 2) rc_collect.simps) (auto simp: rc_parse_append split: prod.splits outcome.splits)
  qed (use 1(2) p in \<open>subst (asm) rc_collect.simps, simp\<close>)+
qed

section \<open>Sizes\<close>

definition tokens_size :: "imap_token list \<Rightarrow> nat" where
  "tokens_size ts = sum_list (map (\<lambda>t. case t of Argument a \<Rightarrow> length a | _ \<Rightarrow> 0) ts)"

text \<open>
  The arguments of the request are counted, and their sum is below the limit; a literal is only begun when it fits;
  the length of a literal is written with digits.
\<close>

fun state_ok :: "receiver_state \<Rightarrow> bytes \<Rightarrow> nat \<Rightarrow> nat \<Rightarrow> bool" where
  "state_ok StStart buf n m = (buf = [])"
| "state_ok StTag buf n m = (length buf \<le> 128)"
| "state_ok (StCommand _) buf n m = (length buf \<le> 15)"
| "state_ok (StArgument _) buf n m = True"
| "state_ok (StArgumentQuoted _) buf n m = True"
| "state_ok (StLiteral _) buf n m = list_all is_digit buf"
| "state_ok (StLiteralSeek sz _) buf n m = (buf = [] \<and> n + unat sz \<le> m)"
| "state_ok (StLiteralData rest) buf n m = (0 < rest \<and> n + length buf + unat rest \<le> m)"

definition counts_ok :: "nat \<Rightarrow> 'c receiver \<Rightarrow> bool" where
  "counts_ok m r \<longleftrightarrow>
     rc_max_request_size r = m \<and> tokens_size (rq_tokens (rc_request r)) \<le> rc_current_request_size r \<and>
     rc_current_request_size r \<le> m \<and> (rc_start_state r = StStart \<or> rc_start_state r = StCommand False)"

definition receiver_ok :: "nat \<Rightarrow> 'c receiver \<Rightarrow> bool" where
  "receiver_ok m r \<longleftrightarrow> counts_ok m r \<and> state_ok (rc_state r) (rc_buf r) (rc_current_request_size r) m"

text \<open>A step keeps this, does not panic, and returns no request above the limit.\<close>

definition outcome_ok :: "nat \<Rightarrow> 'c outcome \<Rightarrow> bool" where
  "outcome_ok m out =
     (case out of
        Done q \<Rightarrow> tokens_size (rq_tokens q) \<le> m
      | NeedsLiteral n \<Rightarrow> unat n \<le> m
      | Failed _ e \<Rightarrow> e \<noteq> ReceiverPanic
      | NeedsMoreData \<Rightarrow> True)"

definition step_ok :: "nat \<Rightarrow> 'c step \<Rightarrow> bool" where
  "step_ok m s = (receiver_ok m (snd s) \<and> (case fst s of Some out \<Rightarrow> outcome_ok m out | None \<Rightarrow> True))"

lemma tokens_size_simps [simp]:
  "tokens_size [] = 0" "tokens_size (ts @ [t]) = tokens_size ts + (case t of Argument a \<Rightarrow> length a | _ \<Rightarrow> 0)"
  by (simp_all add: tokens_size_def)

lemma step_ok_fail:
  "rc_max_request_size r = m \<Longrightarrow> rc_start_state r = StStart \<or> rc_start_state r = StCommand False \<Longrightarrow> e \<noteq> ReceiverPanic \<Longrightarrow>
     step_ok m (fail cp e r)"
  by (auto simp: step_ok_def fail_eq receiver_ok_def counts_ok_def request_default_def outcome_ok_def)

lemma step_ok_fail': "counts_ok m r \<Longrightarrow> e \<noteq> ReceiverPanic \<Longrightarrow> step_ok m (fail cp e r)"
  by (rule step_ok_fail) (simp_all add: counts_ok_def)

lemma step_ok_go: "counts_ok m r \<Longrightarrow> state_ok s (rc_buf r) (rc_current_request_size r) m \<Longrightarrow> step_ok m (go s r)"
  by (simp add: step_ok_def go_def receiver_ok_def counts_ok_def)

lemma step_ok_stay: "counts_ok m r \<Longrightarrow> state_ok (rc_state r) (rc_buf r) (rc_current_request_size r) m \<Longrightarrow> step_ok m (None, r)"
  by (simp add: step_ok_def receiver_ok_def)

lemma step_ok_finish: "counts_ok m r \<Longrightarrow> rc_buf r = [] \<Longrightarrow> step_ok m (finish_request cp r)"
  by (auto simp: step_ok_def finish_request_def receiver_ok_def counts_ok_def outcome_ok_def request_default_def)

lemma counts_ok_updates [simp]:
  "counts_ok m (r\<lparr>rc_buf := b\<rparr>) = counts_ok m r" "counts_ok m (r\<lparr>rc_state := s\<rparr>) = counts_ok m r"
  "counts_ok m (rc_push_byte ch r) = counts_ok m r"
  "counts_ok m (r\<lparr>rc_request := (rc_request r)\<lparr>rq_tag := t\<rparr>\<rparr>) = counts_ok m r"
  "counts_ok m (r\<lparr>rc_request := (rc_request r)\<lparr>rq_command := c\<rparr>\<rparr>) = counts_ok m r"
  by (simp_all add: counts_ok_def rc_push_byte_def)

text \<open>Pushing an argument empties the buffer and leaves the state.\<close>

lemma step_ok_push_argument:
  assumes "counts_ok m r" "\<And>r'. counts_ok m r' \<Longrightarrow> rc_buf r' = [] \<Longrightarrow> rc_state r' = rc_state r \<Longrightarrow> step_ok m (f r')"
  shows "step_ok m (andThen (push_argument cp q r) f)"
proof (cases "rc_buf r = [] \<or> rc_current_request_size r + length (rc_buf r) \<le> rc_max_request_size r")
  case True
  obtain p r' where p: "push_argument cp q r = (p, r')"
    by fastforce
  then have "p = None \<and> counts_ok m r' \<and> rc_buf r' = [] \<and> rc_state r' = rc_state r"
    using True assms(1) by (auto simp: push_argument_def add_token_def counts_ok_def Let_def split: if_splits)
  then show ?thesis using assms(2) p by simp
next
  case False
  then have "push_argument cp q r = fail cp RequestTooLarge (r\<lparr>rc_current_request_size := rc_current_request_size r + length (rc_buf r)\<rparr>)"
    by (simp add: push_argument_def Let_def)
  moreover have "step_ok m (fail cp RequestTooLarge (r\<lparr>rc_current_request_size := rc_current_request_size r + length (rc_buf r)\<rparr>))"
    using assms(1) by (intro step_ok_fail) (simp_all add: counts_ok_def)
  ultimately show ?thesis by (simp add: fail_eq)
qed

lemma step_ok_push_token:
  assumes "counts_ok m r" "rc_buf r = []" "\<exists>c. rc_state r = StArgument c" "\<And>a. t \<noteq> Argument a"
  shows "step_ok m (push_token cp t r)"
proof (cases "rc_current_request_size r + 1 \<le> rc_max_request_size r")
  case True
  then show ?thesis
    using assms by (auto simp: push_token_def add_token_def step_ok_def receiver_ok_def counts_ok_def Let_def split: imap_token.split)
next
  case False
  have "step_ok m (fail cp RequestTooLarge (r\<lparr>rc_current_request_size := rc_current_request_size r + 1\<rparr>))"
    using assms(1) by (intro step_ok_fail) (simp_all add: counts_ok_def)
  then show ?thesis using False by (simp add: push_token_def Let_def)
qed

lemma step_ok_if: "(c \<Longrightarrow> step_ok m s) \<Longrightarrow> (\<not> c \<Longrightarrow> step_ok m t) \<Longrightarrow> step_ok m (if c then s else t)"
  by simp

lemma receiver_okD: "receiver_ok m r \<Longrightarrow> counts_ok m r" "receiver_ok m r \<Longrightarrow> state_ok (rc_state r) (rc_buf r) (rc_current_request_size r) m"
  by (simp_all add: receiver_ok_def)

lemma rc_push_byte_simps [simp]:
  "rc_buf (rc_push_byte ch r) = rc_buf r @ [ch]" "rc_state (rc_push_byte ch r) = rc_state r"
  "rc_current_request_size (rc_push_byte ch r) = rc_current_request_size r"
  by (simp_all add: rc_push_byte_def)

lemmas step_ok_intros = step_ok_if step_ok_push_argument step_ok_push_token step_ok_go step_ok_stay step_ok_finish step_ok_fail'

lemma step_start_ok: "receiver_ok m r \<Longrightarrow> rc_state r = StStart \<Longrightarrow> step_ok m (step_start ch r)"
  unfolding step_start_def by (intro step_ok_intros) (auto dest: receiver_okD)

lemma step_tag_ok: "receiver_ok m r \<Longrightarrow> rc_state r = StTag \<Longrightarrow> step_ok m (step_tag cp ch r)"
  unfolding step_tag_def by (intro step_ok_intros) (auto dest: receiver_okD)

lemma step_command_ok:
  assumes "receiver_ok m r" "rc_state r = StCommand u"
  shows "step_ok m (step_command cp u ch r)"
proof (cases "cp_parse cp (rc_buf r) u")
  case None
  then show ?thesis
    unfolding step_command_def using assms by (simp only: option.case) (intro step_ok_intros; auto dest: receiver_okD)
next
  case (Some c)
  then show ?thesis
    unfolding step_command_def Let_def using assms by (simp only: option.case) (intro step_ok_intros; auto dest: receiver_okD)
qed

lemma step_argument_ok:
  assumes "receiver_ok m r" "rc_state r = StArgument l"
  shows "step_ok m (step_argument cp l ch r)"
proof -
  have c: "counts_ok m r" using assms by (simp add: receiver_ok_def)
  have t: "\<And>a. bracket_token ch \<noteq> None \<Longrightarrow> the (bracket_token ch) \<noteq> Argument a"
    by (auto simp: bracket_token_def split: if_splits)
  have l: "step_ok m (andThen (if b then push_argument cp False r else (None, r\<lparr>rc_buf := []\<rparr>)) (go (StLiteral False)))" for b
    by (cases b) (auto intro!: step_ok_push_argument step_ok_go simp: c)
  show ?thesis
    unfolding step_argument_def by (intro step_ok_intros l) (use c t assms(2) in auto)
qed

lemma step_quoted_ok: "receiver_ok m r \<Longrightarrow> rc_state r = StArgumentQuoted e \<Longrightarrow> step_ok m (step_quoted cp e ch r)"
  unfolding step_quoted_def by (intro step_ok_intros) (auto dest: receiver_okD)

lemma step_literal_ok:
  assumes "receiver_ok m r" "rc_state r = StLiteral n"
  shows "step_ok m (step_literal cp n ch r)"
proof -
  have c: "counts_ok m r" "rc_max_request_size r = m" and d: "list_all is_digit (rc_buf r)"
    using assms by (simp_all add: receiver_ok_def counts_ok_def)
  have sz: "unat (of_nat sz :: u32) = sz" if "parse_unsigned 32 (rc_buf r) = Some sz" for sz
    using that by (auto simp: parse_unsigned_def unat_of_nat split: if_splits option.splits)
  show ?thesis
    unfolding step_literal_def
    by (intro step_ok_intros; (split option.split, intro conjI allI impI step_ok_intros)?)
       (use c d assms(2) digits_ascii [OF d] sz in auto)
qed

lemma step_seek_ok:
  assumes "receiver_ok m r" "rc_state r = StLiteralSeek sz n"
  shows "step_ok m (step_seek cp sz n ch r)"
proof -
  have c: "counts_ok m r" "rc_buf r = []" "rc_current_request_size r + unat sz \<le> m"
    using assms by (simp_all add: receiver_ok_def)
  have w: "step_ok m (andThen s (\<lambda>r. (if \<not> n then Some (NeedsLiteral sz) else None, r)))" if "step_ok m s" for s :: "'a step"
    using that c(3) by (cases s; cases "fst s") (auto simp: step_ok_def outcome_ok_def)
  show ?thesis
    unfolding step_seek_def by (intro w step_ok_intros) (use c assms(2) in auto)
qed

lemma step_data_ok:
  assumes "receiver_ok m r" "rc_state r = StLiteralData n"
  shows "step_ok m (step_data cp n ch r)"
proof -
  have c: "counts_ok m r" "rc_current_request_size r + length (rc_buf r) + unat n \<le> m"
    using assms by (simp_all add: receiver_ok_def)
  have u: "1 < n \<Longrightarrow> unat n = Suc (unat (n - 1)) \<and> 0 < n - 1"
    by (auto simp: unat_sub word_le_nat_alt word_less_nat_alt)
  show ?thesis
    unfolding step_data_def Let_def by (intro step_ok_intros) (use c u in auto)
qed

lemma rc_step_ok: "receiver_ok m r \<Longrightarrow> step_ok m (rc_step cp ch r)"
  by (cases "rc_state r")
     (simp_all add: rc_step_def step_start_ok step_tag_ok step_command_ok step_argument_ok step_quoted_ok step_literal_ok
        step_seek_ok step_data_ok)

lemma rc_parse_ok: "receiver_ok m r \<Longrightarrow> rc_parse cp bs r = (out, rest, r') \<Longrightarrow> receiver_ok m r' \<and> outcome_ok m out"
proof (induction cp bs r rule: rc_parse.induct)
  case (2 cp ch bs r)
  then show ?case using rc_step_ok [OF 2(2), of cp ch] by (auto simp: step_ok_def split: prod.splits option.splits)
qed (auto simp: outcome_ok_def)

lemma rc_reach_ok: "rc_reach cp m r \<Longrightarrow> receiver_ok m r"
proof (induction rule: rc_reach.induct)
  case (parse r bs)
  then show ?case using rc_parse_ok [OF parse(2)] by (metis prod.collapse)
qed (auto simp: receiver_ok_def counts_ok_def receiver_with_max_request_size_def with_start_state_def request_default_def error_reset_def)

lemma rc_collect_prefix:
  "rc_collect cp (xs @ ys) r = (qs, NeedsMoreData, r2) \<Longrightarrow> \<exists>qs1 r1. rc_collect cp xs r = (qs1, NeedsMoreData, r1)"
proof (induction cp xs r arbitrary: qs rule: rc_collect.induct)
  case (1 cp xs r)
  obtain out zs r' where p: "rc_parse cp xs r = (out, zs, r')" by (cases "rc_parse cp xs r") auto
  have c: "rc_collect cp (xs @ ys) r = (case rc_parse cp (xs @ ys) r of
        (Done q, bs, r) \<Rightarrow> (let (qs, out, r) = rc_collect cp bs r in (q # qs, out, r))
      | (out, _, r) \<Rightarrow> ([], out, r))"
    by (subst rc_collect.simps) simp
  show ?case
  proof (cases out)
    case (Done q)
    then obtain qs' where "rc_collect cp (zs @ ys) r' = (qs', NeedsMoreData, r2)"
      using 1(2) c p by (auto simp: rc_parse_append split: prod.splits)
    then show ?thesis
      using 1(1) [OF p [symmetric] Done refl] Done p by (subst rc_collect.simps) (auto split: prod.splits)
  next
    case NeedsMoreData
    then show ?thesis using p by (subst rc_collect.simps) simp
  qed (use 1(2) c p in \<open>simp_all add: rc_parse_append\<close>)
qed

lemma rc_reads_concat: "rc_collect cp (concat bss) r = (qs, NeedsMoreData, r') \<Longrightarrow> rc_reads cp bss r = (qs, r')"
proof (induction bss arbitrary: r qs)
  case Nil
  then show ?case by (simp add: rc_collect.simps [of cp "[]"])
next
  case (Cons bs bss)
  then obtain qs1 r1 where 1: "rc_collect cp bs r = (qs1, NeedsMoreData, r1)"
    using rc_collect_prefix [of cp bs "concat bss" r] by auto
  then obtain qs2 where "rc_collect cp (concat bss) r1 = (qs2, NeedsMoreData, r')" "qs = qs1 @ qs2"
    using Cons(2) rc_collect_append [OF 1, of "concat bss"] by (auto split: prod.splits)
  then show ?case using Cons(1) 1 by auto
qed

end
