(* ===== verification/ImapCommand.thy ===== *)
theory ImapCommand
  imports ImapReceiver
begin

text \<open>
  The commands of IMAP (crates/imap-proto/src/lib.rs, parser/mod.rs, protocol/mod.rs), the strings the protocol quotes, and
  what the receiver makes of a command line.
\<close>

section \<open>Commands\<close>

datatype imap_command =
    CmdCapability
  | CmdNoop
  | CmdLogout
  | CmdStartTls
  | CmdAuthenticate
  | CmdLogin
  | CmdEnable
  | CmdSelect
  | CmdExamine
  | CmdCreate
  | CmdDelete
  | CmdRename
  | CmdSubscribe
  | CmdUnsubscribe
  | CmdList
  | CmdNamespace
  | CmdStatus
  | CmdAppend
  | CmdIdle
  | CmdClose
  | CmdUnselect
  | CmdExpunge bool
  | CmdSearch bool
  | CmdFetch bool
  | CmdStore bool
  | CmdCopy bool
  | CmdMove bool
  | CmdLsub
  | CmdCheck
  | CmdSort bool
  | CmdThread bool
  | CmdSetAcl
  | CmdDeleteAcl
  | CmdGetAcl
  | CmdListRights
  | CmdMyRights
  | CmdUnauthenticate
  | CmdId

fun is_uid :: "imap_command \<Rightarrow> bool" where
  "is_uid (CmdFetch u) = u"
| "is_uid (CmdSearch u) = u"
| "is_uid (CmdCopy u) = u"
| "is_uid (CmdMove u) = u"
| "is_uid (CmdStore u) = u"
| "is_uid (CmdExpunge u) = u"
| "is_uid (CmdSort u) = u"
| "is_uid (CmdThread u) = u"
| "is_uid _ = False"

definition COMMANDS :: "(bytes \<times> (bool \<Rightarrow> imap_command)) list" where
  "COMMANDS =
  [(lit ''CAPABILITY'', \<lambda>_. CmdCapability),
   (lit ''NOOP'', \<lambda>_. CmdNoop),
   (lit ''LOGOUT'', \<lambda>_. CmdLogout),
   (lit ''STARTTLS'', \<lambda>_. CmdStartTls),
   (lit ''AUTHENTICATE'', \<lambda>_. CmdAuthenticate),
   (lit ''LOGIN'', \<lambda>_. CmdLogin),
   (lit ''ENABLE'', \<lambda>_. CmdEnable),
   (lit ''SELECT'', \<lambda>_. CmdSelect),
   (lit ''EXAMINE'', \<lambda>_. CmdExamine),
   (lit ''CREATE'', \<lambda>_. CmdCreate),
   (lit ''DELETE'', \<lambda>_. CmdDelete),
   (lit ''RENAME'', \<lambda>_. CmdRename),
   (lit ''SUBSCRIBE'', \<lambda>_. CmdSubscribe),
   (lit ''UNSUBSCRIBE'', \<lambda>_. CmdUnsubscribe),
   (lit ''LIST'', \<lambda>_. CmdList),
   (lit ''NAMESPACE'', \<lambda>_. CmdNamespace),
   (lit ''STATUS'', \<lambda>_. CmdStatus),
   (lit ''APPEND'', \<lambda>_. CmdAppend),
   (lit ''IDLE'', \<lambda>_. CmdIdle),
   (lit ''CLOSE'', \<lambda>_. CmdClose),
   (lit ''UNSELECT'', \<lambda>_. CmdUnselect),
   (lit ''EXPUNGE'', CmdExpunge),
   (lit ''SEARCH'', CmdSearch),
   (lit ''FETCH'', CmdFetch),
   (lit ''STORE'', CmdStore),
   (lit ''COPY'', CmdCopy),
   (lit ''MOVE'', CmdMove),
   (lit ''SORT'', CmdSort),
   (lit ''THREAD'', CmdThread),
   (lit ''LSUB'', \<lambda>_. CmdLsub),
   (lit ''CHECK'', \<lambda>_. CmdCheck),
   (lit ''SETACL'', \<lambda>_. CmdSetAcl),
   (lit ''DELETEACL'', \<lambda>_. CmdDeleteAcl),
   (lit ''GETACL'', \<lambda>_. CmdGetAcl),
   (lit ''LISTRIGHTS'', \<lambda>_. CmdListRights),
   (lit ''MYRIGHTS'', \<lambda>_. CmdMyRights),
   (lit ''UNAUTHENTICATE'', \<lambda>_. CmdUnauthenticate),
   (lit ''ID'', \<lambda>_. CmdId)]"

definition command_parse :: "bytes \<Rightarrow> bool \<Rightarrow> imap_command option" where
  "command_parse bs uid = map_option (\<lambda>f. f uid) (map_of COMMANDS bs)"

fun tokenize_brackets :: "imap_command \<Rightarrow> bool" where
  "tokenize_brackets (CmdFetch _) = True"
| "tokenize_brackets _ = False"

fun command_display :: "imap_command \<Rightarrow> bytes" where
  "command_display CmdCapability = lit ''CAPABILITY''"
| "command_display CmdNoop = lit ''NOOP''"
| "command_display CmdLogout = lit ''LOGOUT''"
| "command_display CmdStartTls = lit ''STARTTLS''"
| "command_display CmdAuthenticate = lit ''AUTHENTICATE''"
| "command_display CmdLogin = lit ''LOGIN''"
| "command_display CmdEnable = lit ''ENABLE''"
| "command_display CmdSelect = lit ''SELECT''"
| "command_display CmdExamine = lit ''EXAMINE''"
| "command_display CmdCreate = lit ''CREATE''"
| "command_display CmdDelete = lit ''DELETE''"
| "command_display CmdRename = lit ''RENAME''"
| "command_display CmdSubscribe = lit ''SUBSCRIBE''"
| "command_display CmdUnsubscribe = lit ''UNSUBSCRIBE''"
| "command_display CmdList = lit ''LIST''"
| "command_display CmdNamespace = lit ''NAMESPACE''"
| "command_display CmdStatus = lit ''STATUS''"
| "command_display CmdAppend = lit ''APPEND''"
| "command_display CmdIdle = lit ''IDLE''"
| "command_display CmdClose = lit ''CLOSE''"
| "command_display CmdUnselect = lit ''UNSELECT''"
| "command_display (CmdExpunge u) = (if u then lit ''UID EXPUNGE'' else lit ''EXPUNGE'')"
| "command_display (CmdSearch u) = (if u then lit ''UID SEARCH'' else lit ''SEARCH'')"
| "command_display (CmdFetch u) = (if u then lit ''UID FETCH'' else lit ''FETCH'')"
| "command_display (CmdStore u) = (if u then lit ''UID STORE'' else lit ''STORE'')"
| "command_display (CmdCopy u) = (if u then lit ''UID COPY'' else lit ''COPY'')"
| "command_display (CmdMove u) = (if u then lit ''UID MOVE'' else lit ''MOVE'')"
| "command_display (CmdSort u) = (if u then lit ''UID SORT'' else lit ''SORT'')"
| "command_display (CmdThread u) = (if u then lit ''UID THREAD'' else lit ''THREAD'')"
| "command_display CmdLsub = lit ''LSUB''"
| "command_display CmdCheck = lit ''CHECK''"
| "command_display CmdSetAcl = lit ''SETACL''"
| "command_display CmdDeleteAcl = lit ''DELETEACL''"
| "command_display CmdGetAcl = lit ''GETACL''"
| "command_display CmdListRights = lit ''LISTRIGHTS''"
| "command_display CmdMyRights = lit ''MYRIGHTS''"
| "command_display CmdUnauthenticate = lit ''UNAUTHENTICATE''"
| "command_display CmdId = lit ''ID''"

definition imap_parser :: "imap_command command_parser" where
  "imap_parser = \<lparr>cp_parse = command_parse, cp_default = CmdNoop, cp_tokenize_brackets = tokenize_brackets\<rparr>"

section \<open>Tokens as text\<close>

fun token_display :: "imap_token \<Rightarrow> bytes" where
  "token_display (Argument v) = from_utf8_lossy v"
| "token_display ParenthesisOpen = lit ''(''"
| "token_display ParenthesisClose = lit '')''"
| "token_display BracketOpen = lit ''[''"
| "token_display BracketClose = lit '']''"
| "token_display TokGt = lit ''>''"
| "token_display TokLt = lit ''<''"
| "token_display Dot = lit ''.''"
| "token_display TokNil = []"

fun token_unwrap_string :: "imap_token \<Rightarrow> unit + bytes" where
  "token_unwrap_string (Argument v) = (if from_utf8 v then Inr v else Inl ())"
| "token_unwrap_string t = Inr (token_display t)"

fun token_unwrap_bytes :: "imap_token \<Rightarrow> bytes" where
  "token_unwrap_bytes (Argument v) = v"
| "token_unwrap_bytes t = token_display t"

fun token_eq_ignore_ascii_case :: "imap_token \<Rightarrow> bytes \<Rightarrow> bool" where
  "token_eq_ignore_ascii_case (Argument a) bs = eq_ignore_ascii_case a bs"
| "token_eq_ignore_ascii_case t bs = (bs = token_display t)"

section \<open>Strings\<close>

definition quoted_string :: "bytes \<Rightarrow> bytes" where
  "quoted_string text = [0x22] @ concat (map (\<lambda>c. if c = 0x5c \<or> c = 0x22 then [0x5c, c] else [c]) text) @ [0x22]"

definition literal_string :: "bytes \<Rightarrow> bytes" where
  "literal_string text = [0x7b] @ fmt_digits (length text) @ [0x7d, 0x0d, 0x0a] @ text"

definition quoted_or_literal_string :: "bytes \<Rightarrow> bytes" where
  "quoted_or_literal_string text =
     (if list_ex (\<lambda>ch. ch \<in> set [0x5c, 0x22, 0x0d, 0x0a]) text then literal_string text else [0x22] @ text @ [0x22])"

definition quoted_or_literal_string_or_nil :: "bytes option \<Rightarrow> bytes" where
  "quoted_or_literal_string_or_nil text = (case text of Some t \<Rightarrow> quoted_or_literal_string t | None \<Rightarrow> lit ''NIL'')"

definition quoted_string_or_nil :: "bytes option \<Rightarrow> bytes" where
  "quoted_string_or_nil text = (case text of Some t \<Rightarrow> quoted_string t | None \<Rightarrow> lit ''NIL'')"

section \<open>Reading a line\<close>

text \<open>A receiver in the given state, with the given buffer, in the middle of a request.\<close>

definition rc_at :: "'c receiver \<Rightarrow> receiver_state \<Rightarrow> bytes \<Rightarrow> nat \<Rightarrow> 'c request \<Rightarrow> 'c receiver" where
  "rc_at r s buf n q = r\<lparr>rc_state := s, rc_buf := buf, rc_current_request_size := n, rc_request := q\<rparr>"

lemma rc_at_simps [simp]:
  "rc_state (rc_at r s buf n q) = s" "rc_buf (rc_at r s buf n q) = buf" "rc_current_request_size (rc_at r s buf n q) = n"
  "rc_request (rc_at r s buf n q) = q" "rc_max_request_size (rc_at r s buf n q) = rc_max_request_size r"
  "rc_start_state (rc_at r s buf n q) = rc_start_state r"
  "rc_state_update f (rc_at r s buf n q) = rc_at r (f s) buf n q"
  "rc_buf_update g (rc_at r s buf n q) = rc_at r s (g buf) n q"
  "rc_current_request_size_update h (rc_at r s buf n q) = rc_at r s buf (h n) q"
  "rc_request_update k (rc_at r s buf n q) = rc_at r s buf n (k q)"
  by (simp_all add: rc_at_def)

lemma rc_push_byte_at [simp]: "rc_push_byte ch (rc_at r s buf n q) = rc_at r s (buf @ [ch]) n q"
  by (simp add: rc_push_byte_def)

lemma rc_parse_then:
  "rc_parse cp xs r = (NeedsMoreData, zs, r1) \<Longrightarrow> rc_parse cp (xs @ ys) r = rc_parse cp ys r1"
  by (simp add: rc_parse_append)

text \<open>The tag.\<close>

definition tag_char :: "u8 \<Rightarrow> bool" where
  "tag_char ch \<longleftrightarrow> \<not> is_ascii_whitespace ch"

lemma parse_tag:
  "list_all tag_char ts \<Longrightarrow> length buf + length ts \<le> 128 \<Longrightarrow>
     rc_parse cp (ts @ ys) (rc_at r StTag buf n q) = rc_parse cp ys (rc_at r StTag (buf @ ts) n q)"
  by (induction ts arbitrary: buf) (auto simp: rc_step_def step_tag_def tag_char_def is_ascii_whitespace_def)

lemma parse_tag_start:
  "ts \<noteq> [] \<Longrightarrow> list_all tag_char ts \<Longrightarrow> length ts \<le> 128 \<Longrightarrow> from_utf8 ts \<Longrightarrow>
     rc_parse cp (ts @ 0x20 # ys) (rc_at r StStart [] n q) = rc_parse cp ys (rc_at r (StCommand False) [] n (q\<lparr>rq_tag := ts\<rparr>))"
  by (cases ts) (simp_all add: rc_step_def step_start_def tag_char_def go_def parse_tag step_tag_def)

text \<open>The command.\<close>

definition name_char :: "u8 \<Rightarrow> bool" where
  "name_char ch \<longleftrightarrow> (is_ascii_alpha ch \<or> is_digit ch) \<and> ascii_uppercase ch = ch"

lemma parse_name:
  "list_all name_char ns \<Longrightarrow> length buf + length ns \<le> 15 \<Longrightarrow>
     rc_parse cp (ns @ ys) (rc_at r (StCommand u) buf n q) = rc_parse cp ys (rc_at r (StCommand u) (buf @ ns) n q)"
  by (induction ns arbitrary: buf) (auto simp: rc_step_def step_command_def name_char_def)

text \<open>The name of a command without \<^verbatim>\<open>UID\<close>.\<close>

definition command_name :: "imap_command \<Rightarrow> bytes" where
  "command_name c = (if is_uid c then drop 4 (command_display c) else command_display c)"

lemma command_display_name: "command_display c = (if is_uid c then lit ''UID '' else []) @ command_name c"
  by (cases c) (simp_all add: command_name_def)

lemma command_parse_name: "command_parse (command_name c) (is_uid c) = Some c"
  by (cases c) (simp_all add: command_name_def command_parse_def COMMANDS_def)

lemma command_name_ok:
  "list_all name_char (command_name c)" "length (command_name c) \<le> 15" "command_name c \<noteq> []"
  "\<not> eq_ignore_ascii_case (command_name c) (lit ''UID'')"
  by (cases c; simp add: command_name_def name_char_def is_ascii_alpha_def ascii_uppercase_def eq_ignore_ascii_case_def ascii_lowercase_def)+

lemma parse_command:
  assumes "ch = 0x20 \<or> ch = 0x0d"
  shows "rc_parse imap_parser (command_display c @ ch # ys) (rc_at r (StCommand False) [] n q) =
    rc_parse imap_parser ys (rc_at r (StArgument 0x20) [] n (q\<lparr>rq_command := c\<rparr>))"
proof -
  have "rc_parse imap_parser (command_name c @ ch # ys) (rc_at r (StCommand (is_uid c)) [] n q) =
      rc_parse imap_parser ys (rc_at r (StArgument 0x20) [] n (q\<lparr>rq_command := c\<rparr>))"
    using assms command_name_ok [of c] command_parse_name [of c]
    by (auto simp: parse_name rc_step_def step_command_def imap_parser_def go_def is_ascii_alpha_def is_digit_def is_ascii_whitespace_def)
  moreover have "rc_parse imap_parser (lit ''UID '' @ zs) (rc_at r (StCommand False) [] n q) =
      rc_parse imap_parser zs (rc_at r (StCommand True) [] n q)" for zs
    using parse_name [of "lit ''UID''" "[]" imap_parser "0x20 # zs" r False n q]
    by (simp add: name_char_def is_ascii_alpha_def ascii_uppercase_def rc_step_def step_command_def is_digit_def is_ascii_whitespace_def
        eq_ignore_ascii_case_def ascii_lowercase_def go_def)
  ultimately show ?thesis by (cases "is_uid c") (simp_all add: command_display_name)
qed

text \<open>An argument that is pushed.\<close>

definition pushed :: "bytes \<Rightarrow> 'c request \<Rightarrow> 'c request" where
  "pushed a q = q\<lparr>rq_tokens := rq_tokens q @ [if a = [] then TokNil else Argument a]\<rparr>"

lemma push_argument_at:
  "n + length buf \<le> rc_max_request_size r \<Longrightarrow>
     push_argument cp True (rc_at r s buf n q) = (None, rc_at r s [] (n + length buf) (pushed buf q))"
  "n + length buf \<le> rc_max_request_size r \<Longrightarrow> buf \<noteq> [] \<Longrightarrow>
     push_argument cp False (rc_at r s buf n q) = (None, rc_at r s [] (n + length buf) (pushed buf q))"
  by (auto simp: push_argument_def add_token_def pushed_def)

lemma push_argument_nothing [simp]: "push_argument cp False (rc_at r s [] n q) = (None, rc_at r s [] n q)"
  by (simp add: push_argument_def)

text \<open>A quoted string.\<close>

lemma parse_quoted_text:
  assumes "list_all (\<lambda>c. c \<noteq> 0x0a) ts" "length buf + length ts \<le> 1024" "n + length buf + length ts \<le> rc_max_request_size r"
  shows "rc_parse cp (concat (map (\<lambda>c. if c = 0x5c \<or> c = 0x22 then [0x5c, c] else [c]) ts) @ 0x22 # ys)
       (rc_at r (StArgumentQuoted False) buf n q) =
     rc_parse cp ys (rc_at r (StArgument 0x20) [] (n + length buf + length ts) (pushed (buf @ ts) q))"
  using assms
proof (induction ts arbitrary: buf)
  case Nil
  then show ?case by (simp add: rc_step_def step_quoted_def push_argument_at go_def)
next
  case (Cons c ts)
  then show ?case using Cons.IH [of "buf @ [c]"] by (auto simp: rc_step_def step_quoted_def go_def)
qed

lemma parse_quoted:
  assumes "list_all (\<lambda>c. c \<noteq> 0x0a) ts" "length ts \<le> 1024" "n + length ts \<le> rc_max_request_size r" "is_ascii_whitespace l"
  shows "rc_parse cp (quoted_string ts @ ys) (rc_at r (StArgument l) [] n q) =
     rc_parse cp ys (rc_at r (StArgument 0x20) [] (n + length ts) (pushed ts q))"
  using assms parse_quoted_text [of ts "[]"] by (simp add: quoted_string_def rc_step_def step_argument_def go_def)

text \<open>A literal: its length is asked for, then it is read.\<close>

lemma parse_literal_digits:
  "list_all is_digit ds \<Longrightarrow> rc_parse cp (ds @ ys) (rc_at r (StLiteral False) buf n q) = rc_parse cp ys (rc_at r (StLiteral False) (buf @ ds) n q)"
  by (induction ds arbitrary: buf) (auto simp: rc_step_def step_literal_def is_digit_def)

lemma parse_literal_data:
  assumes "ts \<noteq> []" "n + length buf + length ts \<le> rc_max_request_size r" "length ts < 2 ^ 32"
  shows "rc_parse cp (ts @ ys) (rc_at r (StLiteralData (of_nat (length ts))) buf n q) =
     rc_parse cp ys (rc_at r (StArgument 0x20) [] (n + length buf + length ts) (pushed (buf @ ts) q))"
  using assms
proof (induction ts arbitrary: buf)
  case (Cons c ts)
  show ?case
  proof (cases "ts = []")
    case True
    then show ?thesis using Cons.prems by (simp add: rc_step_def step_data_def push_argument_at go_def)
  next
    case False
    then have 1: "(1::u32) < of_nat (length (c # ts))"
      using Cons.prems(3) by (simp add: word_less_nat_alt unat_of_nat del: of_nat_Suc)
    have 2: "of_nat (length (c # ts)) - 1 = (of_nat (length ts) :: u32)" by simp
    have "rc_parse cp ((c # ts) @ ys) (rc_at r (StLiteralData (of_nat (length (c # ts)))) buf n q) =
        rc_parse cp (ts @ ys) (rc_at r (StLiteralData (of_nat (length ts))) (buf @ [c]) n q)"
      using 1 unfolding 2 [symmetric] by (simp add: rc_step_def step_data_def go_def del: of_nat_Suc)
    then show ?thesis using False Cons.prems Cons.IH [of "buf @ [c]"] by simp
  qed
qed simp

lemma parse_literal:
  assumes "ts \<noteq> []" "length ts < 2 ^ 32" "n + length ts \<le> rc_max_request_size r" "is_ascii_whitespace l"
  shows "rc_parse cp ([0x7b] @ fmt_digits (length ts) @ [0x7d, 0x0d, 0x0a] @ ys) (rc_at r (StArgument l) [] n q) =
     (NeedsLiteral (of_nat (length ts)), ys, rc_at r (StLiteralData (of_nat (length ts))) [] n q)"
proof -
  have d: "list_all is_digit (fmt_digits (length ts))" by (simp add: fmt_digits_digits)
  have "fmt_digits (length ts) \<noteq> []" by (simp add: fmt_digits_digits)
  moreover have "parse_unsigned 32 (fmt_digits (length ts)) = Some (length ts)" using assms(2) by (simp add: parse_unsigned_fmt)
  moreover have "(0::u32) < of_nat (length ts)" using assms(1,2) by (simp add: word_less_nat_alt unat_of_nat)
  ultimately show ?thesis
    using assms digits_ascii [OF d]
    by (simp add: rc_step_def step_argument_def step_literal_def step_seek_def go_def parse_literal_digits [OF d] is_ascii_whitespace_def
        is_digit_def)
qed

text \<open>The arguments of a line, as quoted strings.\<close>

definition arguments_text :: "bytes list \<Rightarrow> bytes" where
  "arguments_text args = concat (map (\<lambda>a. 0x20 # quoted_string a) args)"

definition arguments_ok :: "bytes list \<Rightarrow> nat \<Rightarrow> bool" where
  "arguments_ok args m \<longleftrightarrow> list_all (\<lambda>a. list_all (\<lambda>c. c \<noteq> 0x0a) a \<and> length a \<le> 1024) args \<and> sum_list (map length args) \<le> m"

lemma parse_arguments:
  "arguments_ok args (rc_max_request_size r - n) \<Longrightarrow> n \<le> rc_max_request_size r \<Longrightarrow>
     rc_parse cp (arguments_text args @ ys) (rc_at r (StArgument 0x20) [] n q) =
     rc_parse cp ys (rc_at r (StArgument 0x20) [] (n + sum_list (map length args)) (fold pushed args q))"
proof (induction args arbitrary: n q)
  case (Cons a args)
  have "rc_parse cp (arguments_text (a # args) @ ys) (rc_at r (StArgument 0x20) [] n q) =
      rc_parse cp (quoted_string a @ arguments_text args @ ys) (rc_at r (StArgument 0x20) [] n q)"
    by (simp add: arguments_text_def rc_step_def step_argument_def is_ascii_whitespace_def bracket_token_def go_def)
  also have "\<dots> = rc_parse cp (arguments_text args @ ys) (rc_at r (StArgument 0x20) [] (n + length a) (pushed a q))"
    using Cons.prems by (intro parse_quoted) (auto simp: arguments_ok_def is_ascii_whitespace_def)
  finally show ?case
    using Cons.IH [of "n + length a" "pushed a q"] Cons.prems by (auto simp: arguments_ok_def add.assoc)
qed (simp add: arguments_text_def)

lemma fold_pushed:
  "fold pushed args q = q\<lparr>rq_tokens := rq_tokens q @ map (\<lambda>a. if a = [] then TokNil else Argument a) args\<rparr>"
  by (induction args arbitrary: q) (simp_all add: pushed_def)

definition tag_ok :: "bytes \<Rightarrow> bool" where
  "tag_ok tag \<longleftrightarrow> tag \<noteq> [] \<and> list_all tag_char tag \<and> length tag \<le> 128 \<and> from_utf8 tag"

lemma fresh_at: "receiver_with_max_request_size cp m = rc_at (receiver_with_max_request_size cp m) StStart [] 0 (request_default cp)"
  by (simp add: rc_at_def receiver_with_max_request_size_def)

text \<open>The end of the line.\<close>

lemma parse_lf:
  "rc_parse cp (0x0a # ys) (rc_at (receiver_with_max_request_size cp m) (StArgument l) [] n q) =
     (Done q, ys, receiver_with_max_request_size cp m)"
  by (simp add: rc_step_def step_argument_def is_ascii_whitespace_def bracket_token_def go_def finish_request_def)
     (simp add: rc_at_def receiver_with_max_request_size_def)

lemma rc_collect_done: "rc_parse cp bs r = (Done q, [], r') \<Longrightarrow> rc_collect cp bs r = ([q], NeedsMoreData, r')"
  by (simp add: rc_collect.simps [of cp bs] rc_collect.simps [of cp "[]"])

lemma rc_collect_literal: "rc_parse cp bs r = (NeedsLiteral n, zs, r') \<Longrightarrow> rc_collect cp bs r = ([], NeedsLiteral n, r')"
  by (simp add: rc_collect.simps [of cp bs])

lemma parse_space:
  "is_ascii_whitespace ch \<Longrightarrow> ch \<noteq> 0x0a \<Longrightarrow>
     rc_parse cp (ch # ys) (rc_at r (StArgument l) [] n q) = rc_parse cp ys (rc_at r (StArgument ch) [] n q)"
  by (auto simp: rc_step_def step_argument_def is_ascii_whitespace_def bracket_token_def go_def)

lemma parse_line_start:
  assumes "tag_ok tag" "arguments_ok args m" "ch = 0x20 \<or> ch = 0x0d"
  obtains l where "is_ascii_whitespace l"
    "rc_parse imap_parser (tag @ [0x20] @ command_display c @ arguments_text args @ ch # ys) (receiver_with_max_request_size imap_parser m) =
     rc_parse imap_parser ys
      (rc_at (receiver_with_max_request_size imap_parser m) (StArgument l) [] (sum_list (map length args))
         \<lparr>rq_tag = tag, rq_command = c, rq_tokens = map (\<lambda>a. if a = [] then TokNil else Argument a) args\<rparr>)"
proof -
  let ?r = "receiver_with_max_request_size imap_parser m"
  let ?q = "\<lparr>rq_tag = tag, rq_command = c, rq_tokens = []\<rparr>"
  have m: "rc_max_request_size ?r = m" by (simp add: receiver_with_max_request_size_def)
  have s: "rc_parse imap_parser (tag @ [0x20] @ command_display c @ d # ds) ?r = rc_parse imap_parser ds (rc_at ?r (StArgument 0x20) [] 0 ?q)"
    if "d = 0x20 \<or> d = 0x0d" for d ds
    using assms(1) that by (subst fresh_at) (simp add: tag_ok_def parse_tag_start parse_command request_default_def)
  show thesis
  proof (cases args)
    case Nil
    then show thesis using that [of "0x20"] s [OF assms(3)] by (simp add: arguments_text_def is_ascii_whitespace_def)
  next
    case (Cons a as)
    have w: "is_ascii_whitespace ch" "ch \<noteq> 0x0a" using assms(3) by (auto simp: is_ascii_whitespace_def)
    have "rc_parse imap_parser (tag @ [0x20] @ command_display c @ arguments_text args @ ch # ys) ?r =
        rc_parse imap_parser (arguments_text args @ ch # ys) (rc_at ?r (StArgument 0x20) [] 0 ?q)"
      using Cons s [of "0x20"] by (simp add: arguments_text_def is_ascii_whitespace_def parse_space del: rc_parse.simps)
    also have "\<dots> = rc_parse imap_parser ys (rc_at ?r (StArgument ch) [] (sum_list (map length args)) (fold pushed args ?q))"
      using assms(2) w parse_arguments [of args ?r 0] m by (simp add: parse_space del: rc_parse.simps)
    finally show thesis using that [OF w(1)] by (simp add: fold_pushed)
  qed
qed

lemmas receiver_eval = rc_step_def step_defs push_defs rc_push_byte_def add_token_def is_ascii_whitespace_def is_ascii_alpha_def is_digit_def
  ascii_uppercase_def ascii_lowercase_def eq_ignore_ascii_case_def from_utf8_ascii imap_parser_def command_parse_def COMMANDS_def
  bracket_token_def receiver_with_max_request_size_def request_default_def

lemma parse_atom:
  "rc_parse cp (replicate n 0x61) (rc_at r (StArgument l) buf k q) =
     (NeedsMoreData, [], rc_at r (StArgument (if n = 0 then l else 0x61)) (buf @ replicate n 0x61) k q)"
  by (induction n arbitrary: l buf)
     (simp_all add: rc_step_def step_argument_def is_ascii_whitespace_def bracket_token_def go_def replicate_append_same)

section \<open>Correctness\<close>

text \<open>
  C8. Whatever a client sends, in whatever pieces: the receiver does not panic, the arguments of a request it returns are
  together not longer than the limit, it asks for no literal that does not fit the limit, and the buffer never holds more of
  a literal than the limit allows.
\<close>

theorem receiver_bounded:
  assumes "rc_reach cp m r" "rc_parse cp bs r = (out, rest, r')"
  shows "(case out of Done q \<Rightarrow> tokens_size (rq_tokens q) \<le> m
        | NeedsLiteral n \<Rightarrow> unat n \<le> m
        | Failed _ e \<Rightarrow> e \<noteq> ReceiverPanic
        | NeedsMoreData \<Rightarrow> True) \<and>
    tokens_size (rq_tokens (rc_request r')) \<le> m \<and>
    (case rc_state r' of StLiteralData n \<Rightarrow> length (rc_buf r') + unat n \<le> m | _ \<Rightarrow> True)"
  using rc_parse_ok [OF rc_reach_ok [OF assms(1)] assms(2)]
  by (auto simp: outcome_ok_def receiver_ok_def counts_ok_def split: receiver_state.split)


theorem receiver_bounded_witness:
  "rc_reach imap_parser 7 (receiver_with_max_request_size imap_parser 7) \<and>
   (case rc_parse imap_parser (lit ''a1 LOGIN joe {9}'') (receiver_with_max_request_size imap_parser 7) of
      (out, _, r') \<Rightarrow> out = Failed (Some (lit ''a1'')) LiteralTooLarge \<and> tokens_size (rq_tokens (rc_request r')) \<le> 7)"
proof -
  obtain out rest r' where p: "rc_parse imap_parser (lit ''a1 LOGIN joe {9}'') (receiver_with_max_request_size imap_parser 7) = (out, rest, r')"
    by (rule prod_cases3)
  have "fst (rc_parse imap_parser (lit ''a1 LOGIN joe {9}'') (receiver_with_max_request_size imap_parser 7)) =
      Failed (Some (lit ''a1'')) LiteralTooLarge"
    by (simp add: receiver_eval parse_unsigned_def parse_digits_def strip_plus_def)
  then show ?thesis
    using receiver_bounded [OF rc_reach.imap p] p by (simp add: rc_reach.imap)
qed


text \<open>
  C6. A command line is read as it was written: a tag, any command of the protocol by its name, and arguments quoted by
  \<^verbatim>\<open>quoted_string\<close>, give one request with that tag, that command and those arguments, and the receiver is ready for the next.
\<close>

theorem command_line_received:
  assumes "tag_ok tag" "arguments_ok args m"
  shows "rc_collect imap_parser (tag @ [0x20] @ command_display c @ arguments_text args @ [0x0d, 0x0a]) (receiver_with_max_request_size imap_parser m) =
    ([\<lparr>rq_tag = tag, rq_command = c, rq_tokens = map (\<lambda>a. if a = [] then TokNil else Argument a) args\<rparr>], NeedsMoreData,
     receiver_with_max_request_size imap_parser m)"
proof -
  obtain l where "rc_parse imap_parser (tag @ [0x20] @ command_display c @ arguments_text args @ 0x0d # [0x0a]) (receiver_with_max_request_size imap_parser m) =
     rc_parse imap_parser [0x0a]
      (rc_at (receiver_with_max_request_size imap_parser m) (StArgument l) [] (sum_list (map length args))
         \<lparr>rq_tag = tag, rq_command = c, rq_tokens = map (\<lambda>a. if a = [] then TokNil else Argument a) args\<rparr>)"
    by (rule parse_line_start [OF assms, where ch = "0x0d" and c = c and ys = "[0x0a]"]) (simp_all del: rc_parse.simps)
  then show ?thesis by (intro rc_collect_done) (simp only: parse_lf)
qed

theorem command_line_received_witness:
  "rc_collect imap_parser (lit ''a1'' @ [0x20] @ command_display (CmdStore True) @ arguments_text [lit ''x''] @ [0x0d, 0x0a])
     (receiver_with_max_request_size imap_parser 7) =
    ([\<lparr>rq_tag = lit ''a1'', rq_command = CmdStore True, rq_tokens = [Argument (lit ''x'')]\<rparr>], NeedsMoreData,
     receiver_with_max_request_size imap_parser 7)"
  using command_line_received [of "lit ''a1''" "[lit ''x'']" 7 "CmdStore True"]
  by (simp add: tag_ok_def arguments_ok_def tag_char_def is_ascii_whitespace_def from_utf8_ascii)

text \<open>
  C23. A command whose last argument is a literal takes two reads: the server asks for as many bytes as announced, and the
  next read gives the request, whatever bytes the literal consists of.
\<close>

theorem literal_received:
  assumes "tag_ok tag" "arguments_ok args (m - length ts)" "ts \<noteq> []" "length ts < 2 ^ 32" "length ts \<le> m"
    and "literal_string ts = header @ ts"
  shows "\<exists>r1.
    rc_collect imap_parser (tag @ [0x20] @ command_display c @ arguments_text args @ [0x20] @ header) (receiver_with_max_request_size imap_parser m) =
      ([], NeedsLiteral (of_nat (length ts)), r1) \<and>
    rc_collect imap_parser (ts @ [0x0d, 0x0a]) r1 =
      ([\<lparr>rq_tag = tag, rq_command = c, rq_tokens = map (\<lambda>a. if a = [] then TokNil else Argument a) args @ [Argument ts]\<rparr>], NeedsMoreData,
       receiver_with_max_request_size imap_parser m)"
proof -
  let ?r = "receiver_with_max_request_size imap_parser m"
  let ?q = "\<lparr>rq_tag = tag, rq_command = c, rq_tokens = map (\<lambda>a. if a = [] then TokNil else Argument a) args\<rparr>"
  let ?n = "sum_list (map length args)"
  let ?r1 = "rc_at ?r (StLiteralData (of_nat (length ts))) [] ?n ?q"
  have h: "header = [0x7b] @ fmt_digits (length ts) @ [0x7d, 0x0d, 0x0a] @ []" using assms(6) by (simp add: literal_string_def)
  have ok: "arguments_ok args m" and n: "?n + length ts \<le> rc_max_request_size ?r"
    using assms(2,5) by (auto simp: arguments_ok_def receiver_with_max_request_size_def)
  obtain l where l: "is_ascii_whitespace l"
    "rc_parse imap_parser (tag @ [0x20] @ command_display c @ arguments_text args @ 0x20 # header) ?r =
     rc_parse imap_parser header (rc_at ?r (StArgument l) [] ?n ?q)"
    by (rule parse_line_start [OF assms(1) ok, where ch = "0x20" and c = c and ys = header]) (simp_all del: rc_parse.simps)
  have "rc_parse imap_parser header (rc_at ?r (StArgument l) [] ?n ?q) = (NeedsLiteral (of_nat (length ts)), [], ?r1)"
    unfolding h by (rule parse_literal [OF assms(3,4) n l(1)])
  moreover have "rc_parse imap_parser (ts @ [0x0d, 0x0a]) ?r1 =
      (Done (?q\<lparr>rq_tokens := rq_tokens ?q @ [Argument ts]\<rparr>), [], ?r)"
    using assms(3,4) n by (simp add: parse_literal_data parse_space parse_lf pushed_def is_ascii_whitespace_def del: rc_parse.simps)
  ultimately show ?thesis
    using l(2) by (intro exI [of _ ?r1]) (simp add: rc_collect_literal rc_collect_done)
qed

theorem literal_received_witness:
  "\<exists>r1.
    rc_collect imap_parser (lit ''a1'' @ [0x20] @ command_display CmdAppend @ arguments_text [lit ''Sent''] @ [0x20] @ [0x7b, 0x32, 0x7d, 0x0d, 0x0a])
      (receiver_with_max_request_size imap_parser 7) = ([], NeedsLiteral 2, r1) \<and>
    rc_collect imap_parser ([0x22, 0x0a] @ [0x0d, 0x0a]) r1 =
      ([\<lparr>rq_tag = lit ''a1'', rq_command = CmdAppend, rq_tokens = [Argument (lit ''Sent''), Argument [0x22, 0x0a]]\<rparr>], NeedsMoreData,
       receiver_with_max_request_size imap_parser 7)"
proof -
  have "literal_string [0x22, 0x0a] = [0x7b, 0x32, 0x7d, 0x0d, 0x0a] @ [0x22, 0x0a]" by code_simp
  then show ?thesis
    using literal_received [of "lit ''a1''" "[lit ''Sent'']" 7 "[0x22, 0x0a]" "[0x7b, 0x32, 0x7d, 0x0d, 0x0a]" CmdAppend]
    by (simp add: tag_ok_def arguments_ok_def tag_char_def is_ascii_whitespace_def from_utf8_ascii)
qed

text \<open>
  The limit on the size of a request is only checked when an argument is complete: an argument without quotes can be as
  long as the client likes, all of it kept in the buffer, whatever the limit is.
\<close>

theorem atom_unbounded:
  "\<exists>r. rc_parse imap_parser (lit ''a1 LOGIN '' @ replicate n 0x61) (receiver_with_max_request_size imap_parser m) = (NeedsMoreData, [], r) \<and>
     rc_buf r = replicate n 0x61"
proof -
  have "tag_ok (lit ''a1'')" "arguments_ok [] m"
    by (simp_all add: tag_ok_def arguments_ok_def tag_char_def is_ascii_whitespace_def from_utf8_ascii)
  then obtain l where "rc_parse imap_parser (lit ''a1'' @ [0x20] @ command_display CmdLogin @ arguments_text [] @ 0x20 # replicate n 0x61)
      (receiver_with_max_request_size imap_parser m) =
     rc_parse imap_parser (replicate n 0x61) (rc_at (receiver_with_max_request_size imap_parser m) (StArgument l) []
       (sum_list (map length [])) \<lparr>rq_tag = lit ''a1'', rq_command = CmdLogin, rq_tokens = map (\<lambda>a. if a = [] then TokNil else Argument a) []\<rparr>)"
    by (rule parse_line_start [where ch = "0x20" and c = CmdLogin and ys = "replicate n 0x61"]) (simp_all del: rc_parse.simps)
  then show ?thesis by (simp add: parse_atom arguments_text_def del: rc_parse.simps)
qed

end
