(* ===== verification/ImapSequence.thy ===== *)
theory ImapSequence
  imports RustNum
begin

text \<open>
  Sets of message numbers (crates/imap-proto/src/protocol/mod.rs and parser/mod.rs): the parser of sequence sets, the
  two ways in which the server reads them, and their printing.
\<close>

section \<open>Sequences\<close>

datatype sequence =
    SeqNumber u32
  | SeqRange "u32 option" "u32 option"
  | SeqSavedSearch
  | SeqList "sequence list"

fun seq_contains :: "sequence \<Rightarrow> u32 \<Rightarrow> u32 \<Rightarrow> bool" where
  "seq_contains (SeqNumber number) v max_value = (number = v)"
| "seq_contains (SeqRange (Some start) (Some end)) v max_value =
     (v \<ge> start \<and> v \<le> end \<or> v \<ge> end \<and> v \<le> start)"
| "seq_contains (SeqRange (Some bound) None) v max_value =
     (v \<ge> bound \<and> v \<le> max_value \<or> v \<ge> max_value \<and> v \<le> bound)"
| "seq_contains (SeqRange None (Some bound)) v max_value =
     (v \<ge> bound \<and> v \<le> max_value \<or> v \<ge> max_value \<and> v \<le> bound)"
| "seq_contains (SeqRange None None) v max_value = (v = max_value)"
| "seq_contains (SeqList items) v max_value = list_ex (\<lambda>item. seq_contains item v max_value) items"
| "seq_contains SeqSavedSearch v max_value = False"

fun is_saved_search :: "sequence \<Rightarrow> bool" where
  "is_saved_search SeqSavedSearch = True"
| "is_saved_search (SeqList items) = list_ex is_saved_search items"
| "is_saved_search _ = False"

text \<open>\<^verbatim>\<open>start..=end\<close>\<close>

definition range_inclusive :: "u32 \<Rightarrow> u32 \<Rightarrow> u32 set" where
  "range_inclusive a b = set (map of_nat [unat a..<Suc (unat b)])"

definition expand_range :: "u32 option \<Rightarrow> u32 option \<Rightarrow> u32 \<Rightarrow> u32 set" where
  "expand_range start end max_value =
     (let start = (case start of Some s \<Rightarrow> s | None \<Rightarrow> max_value); end = (case end of Some e \<Rightarrow> e | None \<Rightarrow> max_value) in
      if start = end then {start}
      else if start < end then range_inclusive start end
      else range_inclusive end start)"

fun expand_item :: "u32 \<Rightarrow> sequence \<Rightarrow> u32 set \<Rightarrow> u32 set" where
  "expand_item max_value (SeqNumber v) result = insert v result"
| "expand_item max_value (SeqRange start end) result = result \<union> expand_range start end max_value"
| "expand_item max_value _ result = result"

fun seq_expand :: "sequence \<Rightarrow> u32 \<Rightarrow> u32 set" where
  "seq_expand (SeqNumber v) max_value = {v}"
| "seq_expand (SeqList items) max_value = fold (expand_item max_value) items {}"
| "seq_expand (SeqRange start end) max_value = expand_range start end max_value"
| "seq_expand SeqSavedSearch max_value = {}"

section \<open>Parser\<close>

datatype sequence_error =
    NumberNotUtf8
  | NotANumber bytes
  | SequenceParseError
  | NumberExpectedBeforeColon
  | ColonTwice
  | InvalidUseOfStar
  | StarTwice
  | UnexpectedAfterDollar
  | InvalidSequenceCharacter u8 nat
  | ExpectedNumber
  | EmptySequenceSet

definition seq_parse_number :: "bytes \<Rightarrow> sequence_error + u32" where
  "seq_parse_number v =
     (if \<not> from_utf8 v then Inl NumberNotUtf8
      else case parse_unsigned 32 v of Some n \<Rightarrow> Inr (of_nat n) | None \<Rightarrow> Inl (NotANumber v))"

record seq_state =
  sq_set :: "sequence list"
  sq_range_start :: "u32 option"
  sq_token_start :: "nat option"
  sq_is_wildcard :: bool
  sq_is_range :: bool
  sq_is_saved_search :: bool

text \<open>\<^verbatim>\<open>value.get(from..to)\<close>, and the number there.\<close>

definition seq_number_at :: "bytes \<Rightarrow> nat \<Rightarrow> nat \<Rightarrow> sequence_error + u32" where
  "seq_number_at value from to =
     (if from \<le> to \<and> to \<le> length value then seq_parse_number (take (to - from) (drop from value)) else Inl SequenceParseError)"

text \<open>One character, before the end of a token is looked at: an early return, or the state.\<close>

definition seq_char :: "bytes \<Rightarrow> nat \<Rightarrow> u8 \<Rightarrow> seq_state \<Rightarrow> (sequence_error + sequence) + seq_state" where
  "seq_char value pos ch st =
     (if ch = 0x2c then Inr st
      else if ch = 0x3a then
        (if \<not> sq_is_range st then
           (case sq_token_start st of
              Some from_pos \<Rightarrow>
                (case seq_number_at value from_pos pos of
                   Inl e \<Rightarrow> Inl (Inl e)
                 | Inr n \<Rightarrow> Inr (st\<lparr>sq_range_start := Some n, sq_token_start := None, sq_is_range := True\<rparr>))
            | None \<Rightarrow>
                if sq_is_wildcard st then Inr (st\<lparr>sq_is_wildcard := False, sq_is_range := True\<rparr>)
                else Inl (Inl NumberExpectedBeforeColon))
         else Inl (Inl ColonTwice))
      else if ch = 0x2a then
        (if \<not> sq_is_wildcard st then
           (if length value = 1 then Inl (Inr (SeqRange None None))
            else if sq_token_start st = None then Inr (st\<lparr>sq_is_wildcard := True\<rparr>)
            else Inl (Inl InvalidUseOfStar))
         else Inl (Inl StarTwice))
      else if ch = 0x24 then
        (if \<not> pos + 1 < length value \<or> value ! (pos + 1) = 0x2c then Inr (st\<lparr>sq_is_saved_search := True\<rparr>)
         else Inl (Inl UnexpectedAfterDollar))
      else if is_digit ch then
        (if sq_is_wildcard st then Inl (Inl InvalidUseOfStar)
         else Inr (st\<lparr>sq_token_start := (case sq_token_start st of None \<Rightarrow> Some pos | Some p \<Rightarrow> Some p)\<rparr>))
      else Inl (Inl (InvalidSequenceCharacter ch pos)))"

text \<open>The end of a token at a comma (\<open>add_token\<close>) or at the end of the text.\<close>

definition seq_token_number :: "bytes \<Rightarrow> nat \<Rightarrow> bool \<Rightarrow> seq_state \<Rightarrow> sequence_error + u32" where
  "seq_token_number value pos add_token st =
     (case sq_token_start st of
        None \<Rightarrow> Inl ExpectedNumber
      | Some from_pos \<Rightarrow> seq_number_at value from_pos (if \<not> add_token then pos + 1 else pos))"

definition seq_push :: "bytes \<Rightarrow> nat \<Rightarrow> bool \<Rightarrow> seq_state \<Rightarrow> sequence_error + seq_state" where
  "seq_push value pos add_token st =
     (if sq_is_range st then
        (if \<not> sq_is_wildcard st then
           sbind (seq_token_number value pos add_token st) (\<lambda>n.
             Inr (st\<lparr>sq_set := sq_set st @ [SeqRange (sq_range_start st) (Some n)], sq_is_range := False, sq_range_start := None,
                    sq_token_start := None\<rparr>))
         else
           Inr (st\<lparr>sq_set := sq_set st @ [SeqRange (sq_range_start st) None], sq_is_wildcard := False, sq_is_range := False,
                  sq_range_start := None, sq_token_start := None\<rparr>))
      else if sq_is_wildcard st then
        Inr (st\<lparr>sq_set := sq_set st @ [SeqRange None None], sq_is_wildcard := False, sq_token_start := None\<rparr>)
      else if sq_is_saved_search st then
        Inr (st\<lparr>sq_set := sq_set st @ [SeqSavedSearch], sq_is_saved_search := False, sq_token_start := None\<rparr>)
      else
        sbind (seq_token_number value pos add_token st) (\<lambda>n.
          Inr (st\<lparr>sq_set := sq_set st @ [SeqNumber n], sq_token_start := None\<rparr>)))"

fun seq_loop :: "bytes \<Rightarrow> nat \<Rightarrow> bytes \<Rightarrow> seq_state \<Rightarrow> (sequence_error + sequence) + seq_state" where
  "seq_loop value pos [] st = Inr st"
| "seq_loop value pos (ch # rest) st =
     (case seq_char value pos ch st of
        Inl r \<Rightarrow> Inl r
      | Inr st \<Rightarrow>
          if ch = 0x2c \<or> pos = length value - 1 then
            (case seq_push value pos (ch = 0x2c) st of
               Inl e \<Rightarrow> Inl (Inl e)
             | Inr st \<Rightarrow> seq_loop value (pos + 1) rest st)
          else seq_loop value (pos + 1) rest st)"

definition seq_init :: seq_state where
  "seq_init = \<lparr>sq_set = [], sq_range_start = None, sq_token_start = None, sq_is_wildcard = False, sq_is_range = False,
     sq_is_saved_search = False\<rparr>"

definition parse_sequence_set :: "bytes \<Rightarrow> sequence_error + sequence" where
  "parse_sequence_set value =
     (case seq_loop value 0 value seq_init of
        Inl r \<Rightarrow> r
      | Inr st \<Rightarrow>
          (case sq_set st of
             [] \<Rightarrow> Inl EmptySequenceSet
           | [s] \<Rightarrow> Inr s
           | ss \<Rightarrow> Inr (SeqList ss)))"

section \<open>Printer\<close>

definition range_end :: "u32 \<Rightarrow> u32 \<Rightarrow> bytes" where
  "range_end n range_id = (if range_id \<noteq> n then 0x3a # fmt_digits (unat range_id) else [])"

fun serialize_from :: "u32 \<Rightarrow> u32 \<Rightarrow> u32 list \<Rightarrow> bytes" where
  "serialize_from n range_id [] = range_end n range_id"
| "serialize_from n range_id (next_id # ids) =
     (if next_id = range_id + 1 then serialize_from n (range_id + 1) ids
      else range_end n range_id @ [0x2c] @ fmt_digits (unat next_id) @ serialize_from next_id next_id ids)"

fun serialize_sequence :: "u32 list \<Rightarrow> bytes" where
  "serialize_sequence [] = []"
| "serialize_sequence (n # ids) = fmt_digits (unat n) @ serialize_from n n ids"

section \<open>Both readings of a set agree\<close>

lemma in_range_inclusive [simp]: "v \<in> range_inclusive a b \<longleftrightarrow> a \<le> v \<and> v \<le> b"
proof
  assume "v \<in> range_inclusive a b"
  then obtain n where "v = of_nat n" "unat a \<le> n" "n \<le> unat b" by (auto simp: range_inclusive_def)
  moreover have "n < 2 ^ 32" using \<open>n \<le> unat b\<close> unsigned_less [of b, where 'a = nat] by simp
  ultimately show "a \<le> v \<and> v \<le> b" by (simp add: word_le_nat_alt unat_of_nat_less)
next
  assume "a \<le> v \<and> v \<le> b"
  then have "v = of_nat (unat v)" "unat v \<in> set [unat a..<Suc (unat b)]" by (auto simp: word_le_nat_alt)
  then show "v \<in> range_inclusive a b" unfolding range_inclusive_def set_map by blast
qed

lemma in_expand_range: "v \<in> expand_range start end max_value \<longleftrightarrow> seq_contains (SeqRange start end) v max_value"
  by (cases start; cases "end") (auto simp: expand_range_def Let_def)

definition seq_item :: "sequence \<Rightarrow> bool" where
  "seq_item s = (case s of SeqList _ \<Rightarrow> False | _ \<Rightarrow> True)"

definition seq_flat :: "sequence \<Rightarrow> bool" where
  "seq_flat s = (case s of SeqList items \<Rightarrow> list_all seq_item items | _ \<Rightarrow> True)"

lemma in_expand_items:
  "list_all seq_item items \<Longrightarrow> v \<in> fold (expand_item max_value) items A \<longleftrightarrow> v \<in> A \<or> list_ex (\<lambda>item. seq_contains item v max_value) items"
proof (induction items arbitrary: A)
  case (Cons item items)
  then show ?case by (cases item) (auto simp: seq_item_def in_expand_range)
qed simp

lemma in_seq_expand: "seq_flat s \<Longrightarrow> v \<in> seq_expand s max_value \<longleftrightarrow> seq_contains s v max_value"
  by (cases s) (auto simp: seq_flat_def in_expand_items in_expand_range)

text \<open>The parser never nests lists.\<close>

lemma seq_char_set: "seq_char vs pos ch st = Inr st' \<Longrightarrow> sq_set st' = sq_set st"
  by (auto simp: seq_char_def split: if_splits option.splits sum.splits)

lemma seq_char_return: "seq_char vs pos ch st = Inl (Inr s) \<Longrightarrow> s = SeqRange None None"
  by (auto simp: seq_char_def split: if_splits option.splits sum.splits)

lemma seq_push_item: "seq_push vs pos b st = Inr st' \<Longrightarrow> \<exists>s. seq_item s \<and> sq_set st' = sq_set st @ [s]"
  by (auto simp: seq_push_def sbind_def seq_item_def split: if_splits sum.splits)

lemma seq_loop_flat:
  "list_all seq_item (sq_set st) \<Longrightarrow>
     (case seq_loop vs pos rest st of Inr st' \<Rightarrow> list_all seq_item (sq_set st') | Inl (Inr s) \<Rightarrow> s = SeqRange None None | Inl (Inl _) \<Rightarrow> True)"
proof (induction vs pos rest st rule: seq_loop.induct)
  case (2 vs pos ch rest st)
  show ?case
  proof (cases "seq_char vs pos ch st")
    case (Inl r)
    then show ?thesis by (cases r) (auto dest: seq_char_return)
  next
    case (Inr st1)
    note i = seq_char_set [OF Inr] seq_push_item [of vs pos "ch = 0x2c" st1]
    show ?thesis
    proof (cases "ch = 0x2c \<or> pos = length vs - 1")
      case True
      then show ?thesis
        using 2(1) [OF Inr True] 2(3) Inr i by (cases "seq_push vs pos (ch = 0x2c) st1") auto
    next
      case False
      then show ?thesis using 2(2) [OF Inr False] 2(3) Inr i by auto
    qed
  qed
qed simp

lemma parse_sequence_set_flat: "parse_sequence_set vs = Inr s \<Longrightarrow> seq_flat s"
  using seq_loop_flat [of seq_init vs 0 vs]
  by (auto simp: parse_sequence_set_def seq_init_def seq_flat_def seq_item_def split: sum.splits list.splits sequence.splits)

section \<open>Printed sets are read back\<close>

lemma seq_char_digit:
  assumes "is_digit d" "\<not> sq_is_wildcard st"
  shows "d \<noteq> 0x2c" "seq_char vs pos d st = Inr (st\<lparr>sq_token_start := Some (case sq_token_start st of None \<Rightarrow> pos | Some p \<Rightarrow> p)\<rparr>)"
  using assms by (auto simp: seq_char_def is_digit_def word_le_nat_alt split: option.split)

lemma seq_loop_digits:
  "list_all is_digit ds \<Longrightarrow> \<not> sq_is_wildcard st \<Longrightarrow> ds \<noteq> [] \<Longrightarrow> rest \<noteq> [] \<Longrightarrow> pos + length ds + length rest = length vs \<Longrightarrow>
     seq_loop vs pos (ds @ rest) st =
     seq_loop vs (pos + length ds) rest (st\<lparr>sq_token_start := Some (case sq_token_start st of None \<Rightarrow> pos | Some p \<Rightarrow> p)\<rparr>)"
proof (induction ds arbitrary: pos st)
  case (Cons d ds)
  let ?st = "st\<lparr>sq_token_start := Some (case sq_token_start st of None \<Rightarrow> pos | Some p \<Rightarrow> p)\<rparr>"
  have "pos \<noteq> length vs - 1" using Cons.prems by (cases rest) auto
  then have s: "seq_loop vs pos ((d # ds) @ rest) st = seq_loop vs (pos + 1) (ds @ rest) ?st"
    using Cons.prems seq_char_digit(1) [of d st] seq_char_digit(2) [of d st vs pos] by simp
  show ?case
  proof (cases "ds = []")
    case True
    then show ?thesis using s by (simp del: seq_loop.simps)
  next
    case False
    then show ?thesis using Cons.IH [of ?st "pos + 1"] Cons.prems s by (simp del: seq_loop.simps split: option.split)
  qed
qed simp

lemma seq_loop_last_digits:
  assumes "list_all is_digit ds" "\<not> sq_is_wildcard st" "ds \<noteq> []" "pos + length ds = length vs"
  shows "seq_loop vs pos ds st =
    (case seq_push vs (length vs - 1) False (st\<lparr>sq_token_start := Some (case sq_token_start st of None \<Rightarrow> pos | Some p \<Rightarrow> p)\<rparr>) of
       Inl e \<Rightarrow> Inl (Inl e) | Inr st \<Rightarrow> Inr st)"
proof -
  obtain xs d where ds: "ds = xs @ [d]" using assms(3) by (cases ds rule: rev_cases) auto
  have last: "seq_loop vs (length vs - 1) [d] st' =
      (case seq_push vs (length vs - 1) False (st'\<lparr>sq_token_start := Some (case sq_token_start st' of None \<Rightarrow> length vs - 1 | Some p \<Rightarrow> p)\<rparr>) of
       Inl e \<Rightarrow> Inl (Inl e) | Inr st \<Rightarrow> Inr st)" if "\<not> sq_is_wildcard st'" for st'
    using that assms(1) seq_char_digit(1) [of d st'] seq_char_digit(2) [of d st' vs "length vs - 1"] by (simp add: ds split: sum.split)
  show ?thesis
  proof (cases "xs = []")
    case True
    then have "ds = [d]" "pos = length vs - 1" using assms(4) by (simp_all add: ds)
    then show ?thesis using last [OF assms(2)] by (simp only:)
  next
    case False
    then have "seq_loop vs pos ds st = seq_loop vs (pos + length xs) [d] (st\<lparr>sq_token_start := Some (case sq_token_start st of None \<Rightarrow> pos | Some p \<Rightarrow> p)\<rparr>)"
      using assms unfolding ds by (intro seq_loop_digits) simp_all
    moreover have "pos + length xs = length vs - 1" using assms(4) by (simp add: ds)
    ultimately show ?thesis using last assms(2) by (simp del: seq_loop.simps)
  qed
qed

lemma seq_number_at_fmt:
  "vs = pre @ fmt_digits (unat a) @ post \<Longrightarrow> seq_number_at vs (length pre) (length pre + length (fmt_digits (unat a))) = Inr a"
proof -
  assume vs: "vs = pre @ fmt_digits (unat a) @ post"
  have "unat a < 2 ^ 32" using unsigned_less [of a, where 'a = nat] by simp
  moreover have "from_utf8 (fmt_digits (unat a))"
    using fmt_digits_digits [of "unat a"] by (intro digits_ascii) simp
  ultimately show ?thesis by (simp add: vs seq_number_at_def seq_parse_number_def parse_unsigned_fmt)
qed

text \<open>The sets that a list of numbers is printed as, and what they are parsed to.\<close>

definition item_text :: "u32 \<times> u32 \<Rightarrow> bytes" where
  "item_text it = fmt_digits (unat (fst it)) @ range_end (fst it) (snd it)"

definition item_seq :: "u32 \<times> u32 \<Rightarrow> sequence" where
  "item_seq it = (if fst it = snd it then SeqNumber (fst it) else SeqRange (Some (fst it)) (Some (snd it)))"

definition seq_clean :: "sequence list \<Rightarrow> seq_state" where
  "seq_clean acc = seq_init\<lparr>sq_set := acc\<rparr>"

lemma seq_clean_simps [simp]:
  "sq_set (seq_clean acc) = acc" "sq_token_start (seq_clean acc) = None" "sq_is_wildcard (seq_clean acc) = False"
  "sq_is_range (seq_clean acc) = False" "sq_is_saved_search (seq_clean acc) = False" "sq_range_start (seq_clean acc) = None"
  by (simp_all add: seq_clean_def seq_init_def)

lemma fmt_ok: "list_all is_digit (fmt_digits n)" "fmt_digits n \<noteq> []"
  using fmt_digits_digits [of n] by simp_all

text \<open>A number that is the end of a set, at the end of the text or before a comma.\<close>

lemma seq_loop_number:
  assumes "vs = pre @ fmt_digits (unat a) @ post" "sq_token_start st = None" "\<not> sq_is_wildcard st" "\<not> sq_is_saved_search st"
    and "post = [] \<or> hd post = 0x2c"
    and "st' = st\<lparr>sq_set := sq_set st @ [if sq_is_range st then SeqRange (sq_range_start st) (Some a) else SeqNumber a],
           sq_is_range := False, sq_range_start := (if sq_is_range st then None else sq_range_start st), sq_token_start := None\<rparr>"
  shows "seq_loop vs (length pre) (fmt_digits (unat a) @ post) st = seq_loop vs (length vs - length (tl post)) (tl post) st'"
proof (cases post)
  case Nil
  have "seq_token_number vs (length vs - 1) False (st\<lparr>sq_token_start := Some (length pre)\<rparr>) = Inr a"
    using seq_number_at_fmt [OF assms(1)] assms(1) fmt_ok(2) [of "unat a"] by (simp add: seq_token_number_def Nil)
  then have "seq_push vs (length vs - 1) False (st\<lparr>sq_token_start := Some (length pre)\<rparr>) = Inr st'"
    using assms(3,4,6) by (auto simp: seq_push_def)
  then show ?thesis
    using seq_loop_last_digits [OF fmt_ok(1) assms(3) fmt_ok(2), of "length pre" "unat a" vs] assms(1,2) Nil by simp
next
  case (Cons c r)
  then have c: "c = 0x2c" using assms(5) by simp
  let ?st = "st\<lparr>sq_token_start := Some (length pre)\<rparr>"
  have "seq_token_number vs (length pre + length (fmt_digits (unat a))) True ?st = Inr a"
    using seq_number_at_fmt [OF assms(1)] by (simp add: seq_token_number_def)
  then have p: "seq_push vs (length pre + length (fmt_digits (unat a))) True ?st = Inr st'"
    using assms(3,4,6) by (auto simp: seq_push_def)
  have "seq_loop vs (length pre) (fmt_digits (unat a) @ post) st = seq_loop vs (length pre + length (fmt_digits (unat a))) post ?st"
    using seq_loop_digits [OF fmt_ok(1) assms(3) fmt_ok(2), of post "length pre" "unat a" vs] assms(1,2) Cons by (simp del: seq_loop.simps)
  also have "\<dots> = seq_loop vs (length pre + length (fmt_digits (unat a)) + 1) r st'"
    using p by (simp add: Cons c seq_char_def)
  finally show ?thesis using assms(1) Cons by simp
qed

lemma seq_loop_item:
  assumes "vs = pre @ item_text it @ post" "post = [] \<or> hd post = 0x2c"
  shows "seq_loop vs (length pre) (item_text it @ post) (seq_clean acc) =
    seq_loop vs (length vs - length (tl post)) (tl post) (seq_clean (acc @ [item_seq it]))"
proof (cases it)
  case (Pair a b)
  show ?thesis
  proof (cases "a = b")
    case True
    then show ?thesis
      using assms Pair seq_loop_number [of vs pre a post "seq_clean acc" "seq_clean (acc @ [item_seq it])"]
      by (simp add: item_text_def range_end_def item_seq_def seq_clean_def seq_init_def)
  next
    case False
    let ?st = "(seq_clean acc)\<lparr>sq_range_start := Some a, sq_is_range := True\<rparr>"
    have vs: "vs = pre @ fmt_digits (unat a) @ 0x3a # fmt_digits (unat b) @ post"
      and vs': "vs = (pre @ fmt_digits (unat a) @ [0x3a]) @ fmt_digits (unat b) @ post"
      using assms(1) False Pair by (simp_all add: item_text_def range_end_def)
    have "seq_loop vs (length pre) (fmt_digits (unat a) @ 0x3a # fmt_digits (unat b) @ post) (seq_clean acc) =
        seq_loop vs (length pre + length (fmt_digits (unat a))) (0x3a # fmt_digits (unat b) @ post) ((seq_clean acc)\<lparr>sq_token_start := Some (length pre)\<rparr>)"
      using seq_loop_digits [OF fmt_ok(1) _ fmt_ok(2), of "seq_clean acc" "0x3a # fmt_digits (unat b) @ post" "length pre" "unat a" vs] vs
      by (simp del: seq_loop.simps)
    also have "\<dots> = seq_loop vs (length (pre @ fmt_digits (unat a) @ [0x3a])) (fmt_digits (unat b) @ post) ?st"
      using seq_number_at_fmt [OF vs] vs fmt_ok(2) [of "unat b"] by (simp add: seq_char_def seq_clean_def seq_init_def)
    also have "\<dots> = seq_loop vs (length vs - length (tl post)) (tl post) (seq_clean (acc @ [item_seq it]))"
      using seq_loop_number [OF vs', of ?st "seq_clean (acc @ [item_seq it])"] assms(2) False Pair
      by (simp add: item_seq_def seq_clean_def seq_init_def)
    finally show ?thesis using False Pair by (simp add: item_text_def range_end_def)
  qed
qed

fun join_items :: "(u32 \<times> u32) list \<Rightarrow> bytes" where
  "join_items [] = []"
| "join_items [it] = item_text it"
| "join_items (it # its) = item_text it @ 0x2c # join_items its"

lemma seq_loop_items:
  "its \<noteq> [] \<Longrightarrow> vs = pre @ join_items its \<Longrightarrow>
     seq_loop vs (length pre) (join_items its) (seq_clean acc) = Inr (seq_clean (acc @ map item_seq its))"
proof (induction its arbitrary: pre acc rule: join_items.induct)
  case (2 it)
  then show ?case using seq_loop_item [of vs pre it "[]" acc] by simp
next
  case (3 it it' its)
  let ?pre = "pre @ item_text it @ [0x2c]"
  have vs: "vs = ?pre @ join_items (it' # its)" using 3(3) by simp
  have "seq_loop vs (length pre) (join_items (it # it' # its)) (seq_clean acc) =
      seq_loop vs (length ?pre) (join_items (it' # its)) (seq_clean (acc @ [item_seq it]))"
    using seq_loop_item [of vs pre it "0x2c # join_items (it' # its)" acc] vs by (simp del: seq_loop.simps)
  then show ?case using 3(1) [OF _ vs] by (simp del: seq_loop.simps)
qed simp

lemma parse_join_items:
  "its \<noteq> [] \<Longrightarrow> parse_sequence_set (join_items its) = Inr (case map item_seq its of [s] \<Rightarrow> s | ss \<Rightarrow> SeqList ss)"
  using seq_loop_items [of its "join_items its" "[]" "[]"]
  by (cases its) (auto simp: parse_sequence_set_def seq_clean_def seq_init_def split: list.split)

fun groups_from :: "u32 \<Rightarrow> u32 \<Rightarrow> u32 list \<Rightarrow> (u32 \<times> u32) list" where
  "groups_from n range_id [] = [(n, range_id)]"
| "groups_from n range_id (next_id # ids) =
     (if next_id = range_id + 1 then groups_from n (range_id + 1) ids else (n, range_id) # groups_from next_id next_id ids)"

lemma groups_from_nonempty: "groups_from n m ids \<noteq> []"
  by (induction n m ids rule: groups_from.induct) simp_all

lemma join_items_Cons: "its \<noteq> [] \<Longrightarrow> join_items (it # its) = item_text it @ 0x2c # join_items its"
  by (cases its) simp_all

lemma serialize_groups: "fmt_digits (unat n) @ serialize_from n m ids = join_items (groups_from n m ids)"
proof (induction n m ids rule: groups_from.induct)
  case (2 n m next_id ids)
  then show ?case by (simp add: item_text_def join_items_Cons groups_from_nonempty)
qed (simp add: item_text_def)

lemma groups_members:
  "n \<le> m \<Longrightarrow> 0 \<notin> set ids \<Longrightarrow>
     list_all (\<lambda>(a, b). a \<le> b) (groups_from n m ids) \<and>
     (list_ex (\<lambda>(a, b). a \<le> v \<and> v \<le> b) (groups_from n m ids) \<longleftrightarrow> n \<le> v \<and> v \<le> m \<or> v \<in> set ids)"
proof (induction n m ids rule: groups_from.induct)
  case (2 n m next_id ids)
  show ?case
  proof (cases "next_id = m + 1")
    case True
    then have "m + 1 \<noteq> 0" using 2(4) by simp
    then have "unat (m + 1) = Suc (unat m)" using unatSuc [of m] by (simp add: add.commute)
    then have "m \<le> m + 1" "v \<le> m + 1 \<longleftrightarrow> v \<le> m \<or> v = m + 1"
      by (auto simp: word_le_nat_alt le_Suc_eq word_unat_eq_iff)
    then show ?thesis using 2(1) [OF True] 2(3,4) True by auto
  next
    case False
    then show ?thesis using 2(2) [OF False] 2(3,4) by auto
  qed
qed auto

lemma item_seq_contains: "a \<le> b \<Longrightarrow> seq_contains (item_seq (a, b)) v max_value \<longleftrightarrow> a \<le> v \<and> v \<le> b"
  by (auto simp: item_seq_def)

lemma items_contain:
  "list_all (\<lambda>(a, b). a \<le> b) its \<Longrightarrow>
     seq_contains (case map item_seq its of [s] \<Rightarrow> s | ss \<Rightarrow> SeqList ss) v max_value \<longleftrightarrow> list_ex (\<lambda>(a, b). a \<le> v \<and> v \<le> b) its"
proof -
  assume ok: "list_all (\<lambda>(a, b). a \<le> b) its"
  have "seq_contains (case ss of [s] \<Rightarrow> s | ss \<Rightarrow> SeqList ss) v max_value = list_ex (\<lambda>s. seq_contains s v max_value) ss" for ss
    by (auto split: list.split)
  moreover have "list_ex (\<lambda>s. seq_contains s v max_value) (map item_seq its) \<longleftrightarrow> list_ex (\<lambda>(a, b). a \<le> v \<and> v \<le> b) its"
    using ok by (induction its) (auto simp: item_seq_contains)
  ultimately show ?thesis by simp
qed

section \<open>Correctness\<close>

text \<open>
  C26. Testing whether a number is in a parsed set and expanding the set give the same answer, for every set that the parser
  accepts and every highest number of the mailbox.
\<close>

theorem sequence_expand_contains:
  assumes "parse_sequence_set bs = Inr s"
  shows "v \<in> seq_expand s max_value \<longleftrightarrow> seq_contains s v max_value"
  using in_seq_expand [OF parse_sequence_set_flat [OF assms]] .

theorem sequence_expand_contains_witness:
  "parse_sequence_set (lit ''*:4,5:7'') = Inr (SeqList [SeqRange None (Some 4), SeqRange (Some 5) (Some 7)]) \<and>
   (6 \<in> seq_expand (SeqList [SeqRange None (Some 4), SeqRange (Some 5) (Some 7)]) 5 \<longleftrightarrow>
    seq_contains (SeqList [SeqRange None (Some 4), SeqRange (Some 5) (Some 7)]) 6 5)"
proof -
  have "parse_sequence_set (lit ''*:4,5:7'') = Inr (SeqList [SeqRange None (Some 4), SeqRange (Some 5) (Some 7)])"
    by (simp add: parse_sequence_set_def seq_init_def seq_char_def seq_push_def seq_token_number_def seq_number_at_def seq_parse_number_def
        parse_unsigned_def parse_digits_def strip_plus_def is_digit_def from_utf8_ascii)
  then show ?thesis using sequence_expand_contains by blast
qed

text \<open>
  C19. A printed list of message numbers is parsed to a set that contains exactly these numbers, however they were joined to ranges.
\<close>

theorem serialize_sequence_roundtrip:
  assumes "ids \<noteq> []" "0 \<notin> set ids"
  shows "\<exists>s. parse_sequence_set (serialize_sequence ids) = Inr s \<and> (\<forall>v max_value. seq_contains s v max_value = (v \<in> set ids))"
proof -
  obtain n ns where ids: "ids = n # ns" using assms(1) by (cases ids) auto
  let ?its = "groups_from n n ns"
  have m: "list_all (\<lambda>(a, b). a \<le> b) ?its" "list_ex (\<lambda>(a, b). a \<le> v \<and> v \<le> b) ?its \<longleftrightarrow> v \<in> set ids" for v
    using groups_members [of n n ns v] assms(2) ids by auto
  have "parse_sequence_set (serialize_sequence ids) = Inr (case map item_seq ?its of [s] \<Rightarrow> s | ss \<Rightarrow> SeqList ss)"
    by (simp add: ids serialize_groups parse_join_items groups_from_nonempty)
  then show ?thesis using items_contain [OF m(1)] m(2) by blast
qed

theorem serialize_sequence_roundtrip_witness:
  "\<exists>s. parse_sequence_set (serialize_sequence [3, 4, 5, 9]) = Inr s \<and> seq_contains s 4 9 \<and> \<not> seq_contains s 6 9"
  using serialize_sequence_roundtrip [of "[3, 4, 5, 9]"] by auto

text \<open>
  The successor of the highest message number wraps around: a list in which 0 follows it is printed as a range of all numbers.
\<close>

theorem serialize_sequence_wraps:
  "serialize_sequence [0xffffffff, 0] = lit ''4294967295:0'' \<and>
   parse_sequence_set (lit ''4294967295:0'') = Inr (SeqRange (Some 0xffffffff) (Some 0))"
proof -
  have wrap: "(0xffffffff :: u32) + 1 = 0" by simp
  have "serialize_sequence [0xffffffff, 0] = item_text (0xffffffff, 0)"
    by (simp only: serialize_sequence.simps serialize_from.simps wrap item_text_def fst_conv snd_conv if_True simp_thms)
  moreover have "item_text (0xffffffff, 0) = lit ''4294967295:0''"
    by (simp add: item_text_def range_end_def fmt_digits.simps)
  moreover have "parse_sequence_set (item_text (0xffffffff, 0)) = Inr (SeqRange (Some 0xffffffff) (Some 0))"
    using parse_join_items [of "[(0xffffffff, 0)]"] by (simp add: item_seq_def)
  ultimately show ?thesis by simp
qed

end
