(* ===== verification/Spec2Isabelle.thy ===== *)
theory Spec2Isabelle
  imports SqliteProps JmapDate ExprText Glob Snowflake Cron IpMask ImapCommand ImapSequence
begin

text \<open>
  A verification library of the Stalwart mail server (Rust, under src/crates). It covers the parts of the server that
  are computation rather than input and output: the codecs that everything stored and everything sent is made of, the
  types and the JSON parser of JMAP, the keys, batches and change log of the data store with its SQLite backend, the
  expression language of the configuration, and the receiver of IMAP commands.

  \<^bold>\<open>How the code is represented.\<close> Machine integers are words of their width, so that arithmetic wraps where it does in
  a release build; where the code would panic in a debug build or at an unwrap or an index, the model has an error value for the
  panic or says so at the definition. Byte strings and \<^verbatim>\<open>String\<close> are lists of bytes in UTF-8, positions and sizes of data in
  memory are natural numbers. A struct is a record, an enum a datatype, \<^verbatim>\<open>Result\<close> a sum with the error on the left,
  \<^verbatim>\<open>?\<close> is \<open>sbind\<close>, a method with a mutable receiver returns the new receiver. A loop is a recursive function: by structure
  where it runs through data, with a termination proof where it does not, and by \<open>partial_function (option)\<close> where nothing
  in the code counts down (the printing of identifiers, the matching of wildcards), with a theorem that it returns.
  Hash sets are sets, and the order in which they are iterated is a parameter of which only its being an enumeration is used.

  \<^bold>\<open>Shared theories.\<close> Prelude has bytes, literals, errors, facts on words, and the interfaces of byte streams
  (locales \<open>stream_codec\<close>, \<open>byte_sink\<close>, \<open>byte_source\<close>). Utf8 and RustNum have what the code uses of the
  standard library: decoding of UTF-8, parsing and printing of integers, ASCII classes, trimming.

  \<^bold>\<open>Codecs and collections (crates/utils).\<close>
  \<^item> Leb128 models codec/leb128.rs, Base32 models codec/base32_custom.rs: round trips, sizes, and which input is refused.
  \<^item> Bitmap and VecMap model map/bitmap.rs and map/vec_map.rs; the locales \<open>bitmap_item\<close> and \<open>entry_map\<close> state what their
    users rely on and are interpreted on them.
  \<^item> Glob models glob.rs: the matcher, which goes back to the last star only, decides the same as trying every way of matching.
  \<^item> Snowflake models snowflake.rs: identifiers of one generator and of different nodes are distinct, and bounds of periods.
  \<^item> Cron and IpMask model config/cron.rs and config/ipmask.rs.

  \<^bold>\<open>JMAP (crates/jmap-proto).\<close>
  \<^item> Json and JsonProps model parser/json.rs and parser/impls.rs: the pull parser, its token loops and its typed values;
    strings with escapes are read as they were written, nesting is bounded, every loop over tokens ends. The locale
    \<open>item_parser\<close> is the interface of the types that parse themselves.
  \<^item> JmapTypes, Keyword, JmapId, JmapState, BlobId and JmapDate model the files of types/ with the same names: their JSON
    form, their stored form and their printed form are read back, and what the parsers accept.

  \<^bold>\<open>Data store (crates/store).\<close>
  \<^item> StoreKeys models the keys of write/key.rs and the queue and report keys built on them: keys of different things are
    different, their order is the order of the scans, and what the scans that delete ranges leave behind.
  \<^item> Batch models write/batch.rs, write/assert.rs and the operations of write/mod.rs; ChangeLog models write/log.rs and
    query/log.rs: what a transaction records, and that folding the recorded entries gives the changes since a state.
  \<^item> LogQuery has the interface that the change log asks of a backend (locales \<open>log_backend\<close>, \<open>log_changes\<close>, \<open>log_last\<close>),
    SqliteStore models backend/sqlite/read.rs and write.rs and interprets it; SqliteProps combines the two: a client that applies
    the changes since its state to what it had is up to date, of two writers that assert the same value the first wins,
    and new document numbers are unused.

  \<^bold>\<open>Expressions (crates/common/src/expr).\<close>
  \<^item> ExprTypes has values and operators (eval.rs, mod.rs), ExprEval the stack machine with its jumps and what an expression
    means; compiled code computes that meaning.
  \<^item> ExprParser models parser.rs, ExprCompile shows that it compiles an expression written with the least parentheses,
    and that no sequence of tokens makes it panic; ExprTokenizer models tokenizer.rs and ExprText goes from the
    text of an expression to its value. The precedences are stated on their own (\<open>binding\<close>), not taken from the parser.

  \<^bold>\<open>IMAP (crates/imap-proto, crates/imap/src/core/client.rs).\<close>
  \<^item> ImapReceiver models receiver.rs, a state machine fed with bytes, and the loop of a session that takes requests
    from what was read. Its states form an inductive set; an invariant bounds what it keeps.
  \<^item> ImapCommand models the names of the commands and the quoting of strings, and shows that a command line is read as
    it was written, in whatever pieces it arrives.
  \<^item> ImapSequence models the sets of message numbers: the two ways of reading a parsed set agree, and a printed list is parsed
    to a set of the same numbers.

  \<^bold>\<open>Bounds.\<close> The loops of Json over tokens that are skipped or collected take fuel, more than the bytes that are left to read, since
  every token takes at least one; JsonProps shows that they never run out of it. The stripping of white space in
  RustNum counts the bytes of its text in the same way. Everything else is total or a partial function with a theorem that it returns.

  \<^bold>\<open>Parameters.\<close> Floating-point numbers, regular expressions, the tables of asynchronous functions, the conversion of case outside
  ASCII, the clock and the time zone are arguments of the definitions that use them. Integers of SQLite are unbounded.
  Transactions of the backend run one after the other, as SQLite has one writer.

  \<^bold>\<open>Not modelled.\<close> Network listeners, TLS, the async runtime and the protocol sessions, which are input and output; the
  other backends (RocksDB, FoundationDB, PostgreSQL, MySQL, Redis, S3, ElasticSearch), which translate the same operations to their
  libraries; the parsing of messages, DKIM, DMARC, SPF and Sieve, which is in external crates; full-text search and
  the language detection and stemming of crates/nlp, which rest on trained tables and external tokenizers; the web interface and
  the command line tools. The methods of JMAP, the queue of SMTP and the housekeeping tasks are drivers of these
  libraries and of the store modelled here.
\<close>

end
